theory Spec2Isabelle
  imports Main "HOL-Library.Word"
begin

section \<open>The nbcon console ownership protocol (kernel/printk/nbcon.c)\<close>

text \<open>
  A shallow embedding of the non-blocking console core. Every function of
  \<^verbatim>\<open>nbcon.c\<close> that the properties below speak about is translated into a HOL
  function of the same name. Shared memory is explicit: the atomic words of one
  console and the global \<^verbatim>\<open>panic_cpu\<close> form the record \<open>shared\<close>, and a
  function that touches them takes and returns a \<open>mem\<close>, the shared record
  together with a schedule of what the other CPUs do. One event of the schedule is
  applied in front of every access to shared memory, so a compare-and-swap can
  fail because the word changed after the caller read it. The schedule is a
  finite list: once it is used up the caller runs alone, which is what makes the
  compare-and-swap loops end. The calling CPU, \<^verbatim>\<open>smp_processor_id()\<close>, is the
  parameter \<open>this_cpu\<close>. \<^verbatim>\<open>WARN_ON_ONCE\<close> only logs and is left out, except
  where its value is tested.
\<close>

subsection \<open>Data model\<close>

text \<open>
  Modelled from the spec: \<^verbatim>\<open>enum nbcon_prio\<close> is declared in
  \<^verbatim>\<open>include/linux/console.h\<close>, which is not part of the sources at hand. The
  priorities are NONE, NORMAL, EMERGENCY and PANIC, totally ordered that way;
  \<open>prio_val\<close> is the integer the C comparison \<^verbatim>\<open><=\<close> sees.
\<close>

datatype nbcon_prio =
  NBCON_PRIO_NONE | NBCON_PRIO_NORMAL | NBCON_PRIO_EMERGENCY | NBCON_PRIO_PANIC

fun prio_val :: "nbcon_prio \<Rightarrow> nat" where
  "prio_val NBCON_PRIO_NONE = 0"
| "prio_val NBCON_PRIO_NORMAL = 1"
| "prio_val NBCON_PRIO_EMERGENCY = 2"
| "prio_val NBCON_PRIO_PANIC = 3"

text \<open>
  Modelled from the spec: \<^verbatim>\<open>struct nbcon_state\<close> (same header). It is one
  atomic word with the bit fields \<^verbatim>\<open>prio\<close>, \<^verbatim>\<open>req_prio\<close>, \<^verbatim>\<open>unsafe\<close>,
  \<^verbatim>\<open>unsafe_takeover\<close> and \<^verbatim>\<open>cpu\<close>; comparing two \<^verbatim>\<open>atom\<close> values is
  comparing all fields. CPU numbers are taken to fit the field \<^verbatim>\<open>cpu\<close>.
\<close>

record nbcon_state =
  prio :: nbcon_prio
  req_prio :: nbcon_prio
  unsafe :: bool
  unsafe_takeover :: bool
  cpu :: nat

datatype pbufs_ptr = Panic_nbcon_pbufs | Con_pbufs

text \<open>
  \<^verbatim>\<open>struct nbcon_context\<close>, with the fields \<^verbatim>\<open>nbcon.c\<close> reads and writes.
  The field \<^verbatim>\<open>prio\<close> is called \<open>ctxt_prio\<close> here, since \<open>prio\<close> is the field of
  the state word.
\<close>

record nbcon_context =
  ctxt_prio :: nbcon_prio
  allow_unsafe_takeover :: bool
  spinwait_max_us :: nat
  backlog :: bool
  seq :: "64 word"
  pbufs :: "pbufs_ptr option"

text \<open>
  What a rendered record is made of. The two notices are written by
  \<^verbatim>\<open>console_prepend_dropped\<close> and \<^verbatim>\<open>console_prepend_replay\<close>.
\<close>

datatype out_piece = Dropped_notice "64 word" | Replay_notice | Record_text string

text \<open>
  The shared memory of one console: the atomic words \<^verbatim>\<open>nbcon_state\<close>,
  \<^verbatim>\<open>nbcon_seq\<close>, \<^verbatim>\<open>nbcon_prev_seq\<close>, the counter \<^verbatim>\<open>dropped\<close>, and the
  global \<^verbatim>\<open>panic_cpu\<close> (\<open>None\<close> is \<^verbatim>\<open>PANIC_CPU_INVALID\<close>). \<open>device\<close> is
  what has reached the hardware, for drivers that record their output. The
  kernel is a 64-bit one: \<^verbatim>\<open>unsigned long\<close> and \<^verbatim>\<open>u64\<close> coincide and
  \<^verbatim>\<open>__u64seq_to_ulseq\<close>, \<^verbatim>\<open>__ulseq_to_u64seq\<close> are the identity.
\<close>

record shared =
  nbcon_state :: nbcon_state
  nbcon_seq :: "64 word"
  nbcon_prev_seq :: "64 word"
  dropped :: "64 word"
  panic_cpu :: "nat option"
  device :: "out_piece list list"

type_synonym env_event = "shared \<Rightarrow> shared"
type_synonym mem = "shared \<times> env_event list"

datatype errno = OK | EPERM | EBUSY | EAGAIN | ENOENT

subsection \<open>Atomic accesses\<close>

fun interfere :: "mem \<Rightarrow> mem" where
  "interfere (con, []) = (con, [])"
| "interfere (con, e # es) = (e con, es)"

definition nbcon_state_set :: "nbcon_state \<Rightarrow> mem \<Rightarrow> mem" where
  "nbcon_state_set new m =
     (case interfere m of (con, es) \<Rightarrow> (con\<lparr>nbcon_state := new\<rparr>, es))"

definition nbcon_state_read :: "mem \<Rightarrow> nbcon_state \<times> mem" where
  "nbcon_state_read m = (case interfere m of (con, es) \<Rightarrow> (nbcon_state con, con, es))"

text \<open>
  \<^verbatim>\<open>atomic_try_cmpxchg\<close>: on success the word becomes \<open>new\<close> and \<open>cur\<close> is left
  as it is; on failure the word is left as it is and \<open>cur\<close> becomes the word.
\<close>

definition nbcon_state_try_cmpxchg ::
  "nbcon_state \<Rightarrow> nbcon_state \<Rightarrow> mem \<Rightarrow> bool \<times> nbcon_state \<times> mem" where
  "nbcon_state_try_cmpxchg cur new m =
     (case interfere m of (con, es) \<Rightarrow>
        if nbcon_state con = cur then (True, cur, con\<lparr>nbcon_state := new\<rparr>, es)
        else (False, nbcon_state con, con, es))"

text \<open>
  Modelled from the spec: \<^verbatim>\<open>other_cpu_in_panic\<close> and \<^verbatim>\<open>this_cpu_in_panic\<close>
  live in \<^verbatim>\<open>printk.c\<close> and \<^verbatim>\<open>panic.c\<close>, not in the sources at hand. Another
  CPU is in panic when \<^verbatim>\<open>panic_cpu\<close> names a CPU and it is not the caller's.
\<close>

definition other_cpu_in_panic :: "nat \<Rightarrow> mem \<Rightarrow> bool \<times> mem" where
  "other_cpu_in_panic this_cpu m =
     (case interfere m of (con, es) \<Rightarrow>
        (case panic_cpu con of None \<Rightarrow> False | Some p \<Rightarrow> p \<noteq> this_cpu, con, es))"

definition this_cpu_in_panic :: "nat \<Rightarrow> mem \<Rightarrow> bool \<times> mem" where
  "this_cpu_in_panic this_cpu m =
     (case interfere m of (con, es) \<Rightarrow> (panic_cpu con = Some this_cpu, con, es))"

text \<open>
  How far a compare-and-swap loop is from its last round: two for every event
  still to come, one more while the caller's copy differs from the word.
\<close>

definition slack :: "nbcon_state \<Rightarrow> mem \<Rightarrow> nat" where
  "slack cur m = 2 * length (snd m) + (if nbcon_state (fst m) = cur then 0 else 1)"

subsection \<open>Acquiring\<close>

function nbcon_context_try_acquire_direct ::
  "nat \<Rightarrow> nbcon_context \<Rightarrow> nbcon_state \<Rightarrow> mem \<Rightarrow> errno \<times> nbcon_state \<times> mem" where
  "nbcon_context_try_acquire_direct this_cpu ctxt cur m =
     (case other_cpu_in_panic this_cpu m of
        (in_panic, m1) \<Rightarrow>
          if in_panic then (EPERM, cur, m1)
          else if prio_val (ctxt_prio ctxt) \<le> prio_val (prio cur) \<or>
             prio_val (ctxt_prio ctxt) \<le> prio_val (req_prio cur)
          then (EPERM, cur, m1)
          else if unsafe cur then (EBUSY, cur, m1)
          else
            (case nbcon_state_try_cmpxchg cur
                    (cur\<lparr>prio := ctxt_prio ctxt, req_prio := NBCON_PRIO_NONE,
                         unsafe := unsafe_takeover cur, cpu := this_cpu\<rparr>) m1 of
               (ok, cur', m2) \<Rightarrow>
                 if ok then (OK, cur', m2)
                 else nbcon_context_try_acquire_direct this_cpu ctxt cur' m2))"
  by pat_completeness auto

lemma slack_interfere: "slack cur (interfere m) \<le> slack cur m"
  by (cases m rule: interfere.cases) (simp_all add: slack_def)

lemma slack_other_cpu_in_panic:
  "other_cpu_in_panic this_cpu m = (b, m1) \<Longrightarrow> slack cur m1 \<le> slack cur m"
  using slack_interfere [of cur m]
  by (auto simp: other_cpu_in_panic_def split: prod.splits)

lemma slack_cmpxchg_fail:
  "nbcon_state_try_cmpxchg cur new m = (False, cur', m') \<Longrightarrow> slack cur' m' < slack cur m"
  by (cases m rule: interfere.cases)
     (auto simp: nbcon_state_try_cmpxchg_def slack_def split: if_splits)

termination nbcon_context_try_acquire_direct
proof (relation "measure (\<lambda>(this_cpu, ctxt, cur, m). slack cur m)", goal_cases)
  case 1
  show ?case by simp
next
  case (2 this_cpu ctxt cur m in_panic m1 ok x cur' m2)
  have a: "other_cpu_in_panic this_cpu m = (in_panic, m1)"
    using 2 by simp
  have b: "nbcon_state_try_cmpxchg cur
             (cur\<lparr>prio := ctxt_prio ctxt, req_prio := NBCON_PRIO_NONE,
                  unsafe := unsafe_takeover cur, cpu := this_cpu\<rparr>) m1 = (False, cur', m2)"
    using 2 by simp
  show ?case
    using slack_other_cpu_in_panic [OF a, of cur] slack_cmpxchg_fail [OF b] by simp
qed

declare nbcon_context_try_acquire_direct.simps [simp del]

lemma slack_try_acquire_direct:
  "nbcon_context_try_acquire_direct this_cpu ctxt cur m = (e, cur', m') \<Longrightarrow> e \<noteq> OK \<Longrightarrow>
   slack cur' m' \<le> slack cur m"
proof (induction "slack cur m" arbitrary: cur m rule: less_induct)
  case less
  obtain b m1 where a: "other_cpu_in_panic this_cpu m = (b, m1)"
    by (cases "other_cpu_in_panic this_cpu m") auto
  note le1 = slack_other_cpu_in_panic [OF a, of cur]
  let ?new = "cur\<lparr>prio := ctxt_prio ctxt, req_prio := NBCON_PRIO_NONE,
                  unsafe := unsafe_takeover cur, cpu := this_cpu\<rparr>"
  obtain ok cur1 m2 where c: "nbcon_state_try_cmpxchg cur ?new m1 = (ok, cur1, m2)"
    by (cases "nbcon_state_try_cmpxchg cur ?new m1") auto
  show ?case
  proof (cases "\<not> b \<and> \<not> (prio_val (ctxt_prio ctxt) \<le> prio_val (prio cur) \<or>
                  prio_val (ctxt_prio ctxt) \<le> prio_val (req_prio cur)) \<and> \<not> unsafe cur \<and> \<not> ok")
    case True
    then have rec: "nbcon_context_try_acquire_direct this_cpu ctxt cur1 m2 = (e, cur', m')"
      using less.prems(1) a c
      by (subst (asm) nbcon_context_try_acquire_direct.simps) simp
    have lt: "slack cur1 m2 < slack cur m"
      using slack_cmpxchg_fail [of cur ?new m1 cur1 m2] True c le1 by simp
    show ?thesis
      using less.hyps [OF lt rec less.prems(2)] lt by simp
  next
    case False
    then show ?thesis
      using less.prems a c le1
      by (subst (asm) nbcon_context_try_acquire_direct.simps) (auto split: if_splits)
  qed
qed

definition nbcon_waiter_matches :: "nbcon_state \<Rightarrow> nbcon_prio \<Rightarrow> bool" where
  "nbcon_waiter_matches cur expected_prio = (req_prio cur = expected_prio)"

definition nbcon_context_try_acquire_requested ::
  "nat \<Rightarrow> nbcon_context \<Rightarrow> nbcon_state \<Rightarrow> mem \<Rightarrow> errno \<times> nbcon_state \<times> mem" where
  "nbcon_context_try_acquire_requested this_cpu ctxt cur m =
     (case other_cpu_in_panic this_cpu m of
        (in_panic, m1) \<Rightarrow>
          if in_panic then (EPERM, cur, m1)
          else if \<not> nbcon_waiter_matches cur (ctxt_prio ctxt) then (EPERM, cur, m1)
          else if prio cur \<noteq> NBCON_PRIO_NONE then (EBUSY, cur, m1)
          else
            (case nbcon_state_try_cmpxchg cur
                    (cur\<lparr>prio := ctxt_prio ctxt, req_prio := NBCON_PRIO_NONE,
                         unsafe := unsafe_takeover cur, cpu := this_cpu\<rparr>) m1 of
               (ok, cur', m2) \<Rightarrow> if \<not> ok then (EPERM, cur', m2) else (OK, cur', m2)))"

lemma slack_try_acquire_requested:
  "nbcon_context_try_acquire_requested this_cpu ctxt cur m = (e, cur', m') \<Longrightarrow> e \<noteq> OK \<Longrightarrow>
   slack cur' m' \<le> slack cur m"
proof -
  assume r: "nbcon_context_try_acquire_requested this_cpu ctxt cur m = (e, cur', m')"
    and e: "e \<noteq> OK"
  obtain b m1 where a: "other_cpu_in_panic this_cpu m = (b, m1)"
    by (cases "other_cpu_in_panic this_cpu m") auto
  note le1 = slack_other_cpu_in_panic [OF a, of cur]
  let ?new = "cur\<lparr>prio := ctxt_prio ctxt, req_prio := NBCON_PRIO_NONE,
                  unsafe := unsafe_takeover cur, cpu := this_cpu\<rparr>"
  obtain ok cur1 m2 where c: "nbcon_state_try_cmpxchg cur ?new m1 = (ok, cur1, m2)"
    by (cases "nbcon_state_try_cmpxchg cur ?new m1") auto
  have "ok \<or> slack cur1 m2 < slack cur m1"
    using slack_cmpxchg_fail [of cur ?new m1 cur1 m2] c by auto
  then show ?thesis
    using r e a c le1
    by (auto simp: nbcon_context_try_acquire_requested_def split: if_splits)
qed

text \<open>
  The \<^verbatim>\<open>for\<close> loop of \<^verbatim>\<open>nbcon_context_try_acquire_handover\<close>: it runs for
  \<^verbatim>\<open>timeout\<close> from \<^verbatim>\<open>spinwait_max_us\<close> down to 0. The result carries
  \<^verbatim>\<open>request_err\<close>; \<open>OK\<close> is the \<^verbatim>\<open>return 0\<close> inside the loop.
  \<^verbatim>\<open>udelay(1)\<close> is the place where the other CPUs run. The budget is taken
  to fit the \<^verbatim>\<open>int\<close> that counts it down.
\<close>

fun handover_wait ::
  "nat \<Rightarrow> nat \<Rightarrow> nbcon_context \<Rightarrow> nbcon_state \<Rightarrow> mem \<Rightarrow> errno \<times> nbcon_state \<times> mem" where
  "handover_wait timeout this_cpu ctxt cur m =
     (case nbcon_context_try_acquire_requested this_cpu ctxt cur m of
        (request_err, cur1, m1) \<Rightarrow>
          if request_err = OK then (OK, cur1, m1)
          else if request_err = EPERM then (EPERM, cur1, m1)
          else
            (case nbcon_state_read m1 of
               (cur2, m2) \<Rightarrow>
                 (case timeout of
                    0 \<Rightarrow> (request_err, cur2, m2)
                  | Suc t \<Rightarrow> handover_wait t this_cpu ctxt cur2 m2)))"

declare handover_wait.simps [simp del]

text \<open>
  The \<^verbatim>\<open>do ... while\<close> loop of \<^verbatim>\<open>nbcon_context_try_acquire_handover\<close> that
  removes the request.
\<close>

function handover_unrequest ::
  "errno \<Rightarrow> nat \<Rightarrow> nbcon_context \<Rightarrow> nbcon_state \<Rightarrow> mem \<Rightarrow> errno \<times> nbcon_state \<times> mem" where
  "handover_unrequest request_err this_cpu ctxt cur m =
     (if \<not> nbcon_waiter_matches cur (ctxt_prio ctxt) then (EPERM, cur, m)
      else
        (case nbcon_state_try_cmpxchg cur (cur\<lparr>req_prio := NBCON_PRIO_NONE\<rparr>) m of
           (ok, cur1, m1) \<Rightarrow>
             if ok then (request_err, cur\<lparr>req_prio := NBCON_PRIO_NONE\<rparr>, m1)
             else
               (case nbcon_context_try_acquire_requested this_cpu ctxt cur1 m1 of
                  (e, cur2, m2) \<Rightarrow>
                    if e = OK then (OK, cur2, m2)
                    else handover_unrequest request_err this_cpu ctxt cur2 m2)))"
  by pat_completeness auto

termination handover_unrequest
proof (relation "measure (\<lambda>(request_err, this_cpu, ctxt, cur, m). slack cur m)", goal_cases)
  case 1
  show ?case by simp
next
  case (2 request_err this_cpu ctxt cur m ok x cur1 m1 e y cur2 m2)
  have a: "nbcon_state_try_cmpxchg cur (cur\<lparr>req_prio := NBCON_PRIO_NONE\<rparr>) m = (False, cur1, m1)"
    using 2 by simp
  have b: "nbcon_context_try_acquire_requested this_cpu ctxt cur1 m1 = (e, cur2, m2)"
    using 2 by simp
  have "e \<noteq> OK" using 2 by simp
  then show ?case
    using slack_cmpxchg_fail [OF a] slack_try_acquire_requested [OF b] by simp
qed

declare handover_unrequest.simps [simp del]

definition nbcon_context_try_acquire_handover ::
  "nat \<Rightarrow> nbcon_context \<Rightarrow> nbcon_state \<Rightarrow> mem \<Rightarrow> errno \<times> nbcon_state \<times> mem" where
  "nbcon_context_try_acquire_handover this_cpu ctxt cur m =
     (if cpu cur = this_cpu then (EBUSY, cur, m)
      else if unsafe_takeover cur then (EBUSY, cur, m)
      else if spinwait_max_us ctxt = 0 then (EBUSY, cur, m)
      else
        (case nbcon_state_try_cmpxchg cur (cur\<lparr>req_prio := ctxt_prio ctxt\<rparr>) m of
           (ok, cur1, m1) \<Rightarrow>
             if \<not> ok then (EAGAIN, cur1, m1)
             else
               (case handover_wait (spinwait_max_us ctxt) this_cpu ctxt
                       (cur\<lparr>req_prio := ctxt_prio ctxt\<rparr>) m1 of
                  (request_err, cur2, m2) \<Rightarrow>
                    if request_err = OK then (OK, cur2, m2)
                    else handover_unrequest request_err this_cpu ctxt cur2 m2)))"

text \<open>The \<^verbatim>\<open>do ... while\<close> loop of \<^verbatim>\<open>nbcon_context_try_acquire_hostile\<close>.\<close>

function hostile_takeover ::
  "nat \<Rightarrow> nbcon_context \<Rightarrow> nbcon_state \<Rightarrow> mem \<Rightarrow> errno \<times> nbcon_state \<times> mem" where
  "hostile_takeover this_cpu ctxt cur m =
     (case nbcon_state_try_cmpxchg cur
             (cur\<lparr>cpu := this_cpu, prio := ctxt_prio ctxt,
                  unsafe := unsafe cur \<or> unsafe_takeover cur,
                  unsafe_takeover := unsafe_takeover cur \<or> unsafe cur\<rparr>) m of
        (ok, cur1, m1) \<Rightarrow>
          if ok then (OK, cur1, m1) else hostile_takeover this_cpu ctxt cur1 m1)"
  by pat_completeness auto

termination hostile_takeover
proof (relation "measure (\<lambda>(this_cpu, ctxt, cur, m). slack cur m)", goal_cases)
  case 1
  show ?case by simp
next
  case (2 this_cpu ctxt cur m ok x cur1 m1)
  have "nbcon_state_try_cmpxchg cur
          (cur\<lparr>cpu := this_cpu, prio := ctxt_prio ctxt,
               unsafe := unsafe cur \<or> unsafe_takeover cur,
               unsafe_takeover := unsafe_takeover cur \<or> unsafe cur\<rparr>) m = (False, cur1, m1)"
    using 2 by simp
  from slack_cmpxchg_fail [OF this] show ?case by simp
qed

declare hostile_takeover.simps [simp del]

definition nbcon_context_try_acquire_hostile ::
  "nat \<Rightarrow> nbcon_context \<Rightarrow> nbcon_state \<Rightarrow> mem \<Rightarrow> errno \<times> nbcon_state \<times> mem" where
  "nbcon_context_try_acquire_hostile this_cpu ctxt cur m =
     (if \<not> allow_unsafe_takeover ctxt then (EPERM, cur, m)
      else if ctxt_prio ctxt \<noteq> NBCON_PRIO_PANIC then (EPERM, cur, m)
      else hostile_takeover this_cpu ctxt cur m)"

text \<open>
  \<^verbatim>\<open>nbcon_context_try_acquire\<close> from the label \<^verbatim>\<open>try_again\<close> to the label
  \<^verbatim>\<open>out\<close>: the value is \<^verbatim>\<open>err\<close>.
\<close>

function try_again ::
  "nat \<Rightarrow> nbcon_context \<Rightarrow> nbcon_state \<Rightarrow> mem \<Rightarrow> errno \<times> nbcon_state \<times> mem" where
  "try_again this_cpu ctxt cur m =
     (case nbcon_context_try_acquire_direct this_cpu ctxt cur m of
        (err, cur1, m1) \<Rightarrow>
          if err \<noteq> EBUSY then (err, cur1, m1)
          else
            (case nbcon_context_try_acquire_handover this_cpu ctxt cur1 m1 of
               (err2, cur2, m2) \<Rightarrow>
                 if err2 = EAGAIN then try_again this_cpu ctxt cur2 m2
                 else if err2 \<noteq> EBUSY then (err2, cur2, m2)
                 else nbcon_context_try_acquire_hostile this_cpu ctxt cur2 m2))"
  by pat_completeness auto

lemma handover_wait_not_EAGAIN:
  "handover_wait timeout this_cpu ctxt cur m = (e, cur', m') \<Longrightarrow> e \<noteq> EAGAIN"
proof (induction timeout arbitrary: cur m)
  case 0
  then show ?case
    by (subst (asm) handover_wait.simps)
       (auto simp: nbcon_context_try_acquire_requested_def split: prod.splits if_splits)
next
  case (Suc t)
  then show ?case
    by (subst (asm) handover_wait.simps)
       (auto simp: nbcon_context_try_acquire_requested_def split: prod.splits if_splits)
qed

lemma handover_unrequest_not_EAGAIN:
  "handover_unrequest request_err this_cpu ctxt cur m = (e, cur', m') \<Longrightarrow>
   request_err \<noteq> EAGAIN \<Longrightarrow> e \<noteq> EAGAIN"
proof (induction "slack cur m" arbitrary: cur m rule: less_induct)
  case less
  let ?new = "cur\<lparr>req_prio := NBCON_PRIO_NONE\<rparr>"
  obtain ok cur1 m1 where c: "nbcon_state_try_cmpxchg cur ?new m = (ok, cur1, m1)"
    by (cases "nbcon_state_try_cmpxchg cur ?new m") auto
  obtain e2 cur2 m2 where r: "nbcon_context_try_acquire_requested this_cpu ctxt cur1 m1 = (e2, cur2, m2)"
    by (cases "nbcon_context_try_acquire_requested this_cpu ctxt cur1 m1") auto
  show ?case
  proof (cases "nbcon_waiter_matches cur (ctxt_prio ctxt) \<and> \<not> ok \<and> e2 \<noteq> OK")
    case True
    then have rec: "handover_unrequest request_err this_cpu ctxt cur2 m2 = (e, cur', m')"
      using less.prems(1) c r by (subst (asm) handover_unrequest.simps) simp
    have lt: "slack cur2 m2 < slack cur m"
      using slack_cmpxchg_fail [of cur ?new m cur1 m1] slack_try_acquire_requested [OF r] True c
      by simp
    show ?thesis by (rule less.hyps [OF lt rec less.prems(2)])
  next
    case False
    then show ?thesis
      using less.prems c r
      by (subst (asm) handover_unrequest.simps) (auto split: if_splits)
  qed
qed

lemma slack_try_acquire_handover:
  assumes "nbcon_context_try_acquire_handover this_cpu ctxt cur m = (EAGAIN, cur', m')"
  shows "slack cur' m' < slack cur m"
proof -
  let ?new = "cur\<lparr>req_prio := ctxt_prio ctxt\<rparr>"
  obtain ok cur1 m1 where c: "nbcon_state_try_cmpxchg cur ?new m = (ok, cur1, m1)"
    by (cases "nbcon_state_try_cmpxchg cur ?new m") auto
  obtain e2 cur2 m2 where w: "handover_wait (spinwait_max_us ctxt) this_cpu ctxt ?new m1 = (e2, cur2, m2)"
    by (cases "handover_wait (spinwait_max_us ctxt) this_cpu ctxt ?new m1") auto
  have "e2 \<noteq> EAGAIN" by (rule handover_wait_not_EAGAIN [OF w])
  then have "\<not> ok"
    using assms c w handover_unrequest_not_EAGAIN [of e2 this_cpu ctxt cur2 m2 EAGAIN cur' m']
    by (auto simp: nbcon_context_try_acquire_handover_def split: if_splits)
  then show ?thesis
    using assms c slack_cmpxchg_fail [of cur ?new m cur1 m1]
    by (auto simp: nbcon_context_try_acquire_handover_def split: if_splits)
qed

termination try_again
proof (relation "measure (\<lambda>(this_cpu, ctxt, cur, m). slack cur m)", goal_cases)
  case 1
  show ?case by simp
next
  case (2 this_cpu ctxt cur m err x cur1 m1 err2 y cur2 m2)
  have a: "nbcon_context_try_acquire_direct this_cpu ctxt cur m = (EBUSY, cur1, m1)"
    using 2 by simp
  have b: "nbcon_context_try_acquire_handover this_cpu ctxt cur1 m1 = (EAGAIN, cur2, m2)"
    using 2 by simp
  show ?case
    using slack_try_acquire_direct [OF a] slack_try_acquire_handover [OF b] by simp
qed

declare try_again.simps [simp del]

definition nbcon_seq_read :: "mem \<Rightarrow> 64 word \<times> mem" where
  "nbcon_seq_read m = (case interfere m of (con, es) \<Rightarrow> (nbcon_seq con, con, es))"

text \<open>
  \<^verbatim>\<open>nbcon_seq_force\<close>; \<open>first_valid_seq\<close> is what \<^verbatim>\<open>prb_first_valid_seq(prb)\<close>
  returns.
\<close>

definition nbcon_seq_force :: "64 word \<Rightarrow> 64 word \<Rightarrow> mem \<Rightarrow> mem" where
  "nbcon_seq_force first_valid_seq s m =
     (case interfere m of (con, es) \<Rightarrow> (con\<lparr>nbcon_seq := max s first_valid_seq\<rparr>, es))"

definition nbcon_seq_try_update :: "nbcon_context \<Rightarrow> 64 word \<Rightarrow> mem \<Rightarrow> nbcon_context \<times> mem" where
  "nbcon_seq_try_update ctxt new_seq m =
     (case interfere m of
        (con, es) \<Rightarrow>
          if nbcon_seq con = seq ctxt then (ctxt\<lparr>seq := new_seq\<rparr>, con\<lparr>nbcon_seq := new_seq\<rparr>, es)
          else (case nbcon_seq_read (con, es) of (s, m1) \<Rightarrow> (ctxt\<lparr>seq := s\<rparr>, m1)))"

definition read_panic_cpu :: "mem \<Rightarrow> nat option \<times> mem" where
  "read_panic_cpu m = (case interfere m of (con, es) \<Rightarrow> (panic_cpu con, con, es))"

definition nbcon_context_try_acquire ::
  "nat \<Rightarrow> nbcon_context \<Rightarrow> mem \<Rightarrow> bool \<times> nbcon_context \<times> mem" where
  "nbcon_context_try_acquire this_cpu ctxt m =
     (case nbcon_state_read m of
        (cur, m0) \<Rightarrow>
          (case try_again this_cpu ctxt cur m0 of
             (err, cur1, m1) \<Rightarrow>
               if err \<noteq> OK then (False, ctxt, m1)
               else
                 (case read_panic_cpu m1 of
                    (p, m2) \<Rightarrow>
                      (case nbcon_seq_read m2 of
                         (s, m3) \<Rightarrow>
                           (True,
                            ctxt\<lparr>pbufs := Some (if p = Some this_cpu then Panic_nbcon_pbufs
                                                 else Con_pbufs),
                                 seq := s\<rparr>,
                            m3)))))"

subsection \<open>Releasing and checking ownership\<close>

definition nbcon_owner_matches :: "nbcon_state \<Rightarrow> nat \<Rightarrow> nbcon_prio \<Rightarrow> bool" where
  "nbcon_owner_matches cur expected_cpu expected_prio =
     (if prio cur \<noteq> expected_prio then False
      else if cpu cur \<noteq> expected_cpu then False
      else True)"

text \<open>The \<^verbatim>\<open>do ... while\<close> loop of \<^verbatim>\<open>nbcon_context_release\<close>.\<close>

function release_loop :: "nat \<Rightarrow> nbcon_context \<Rightarrow> nbcon_state \<Rightarrow> mem \<Rightarrow> mem" where
  "release_loop this_cpu ctxt cur m =
     (if \<not> nbcon_owner_matches cur this_cpu (ctxt_prio ctxt) then m
      else
        (case nbcon_state_try_cmpxchg cur
                (cur\<lparr>prio := NBCON_PRIO_NONE, unsafe := unsafe cur \<or> unsafe_takeover cur\<rparr>) m of
           (ok, cur1, m1) \<Rightarrow> if ok then m1 else release_loop this_cpu ctxt cur1 m1))"
  by pat_completeness auto

termination release_loop
proof (relation "measure (\<lambda>(this_cpu, ctxt, cur, m). slack cur m)", goal_cases)
  case 1
  show ?case by simp
next
  case (2 this_cpu ctxt cur m ok x cur1 m1)
  have "nbcon_state_try_cmpxchg cur
          (cur\<lparr>prio := NBCON_PRIO_NONE, unsafe := unsafe cur \<or> unsafe_takeover cur\<rparr>) m
        = (False, cur1, m1)"
    using 2 by simp
  from slack_cmpxchg_fail [OF this] show ?case by simp
qed

declare release_loop.simps [simp del]

definition nbcon_context_release :: "nat \<Rightarrow> nbcon_context \<Rightarrow> mem \<Rightarrow> nbcon_context \<times> mem" where
  "nbcon_context_release this_cpu ctxt m =
     (case nbcon_state_read m of
        (cur, m0) \<Rightarrow> (ctxt\<lparr>pbufs := None\<rparr>, release_loop this_cpu ctxt cur m0))"

definition nbcon_context_can_proceed ::
  "nat \<Rightarrow> nbcon_context \<Rightarrow> nbcon_state \<Rightarrow> mem \<Rightarrow> bool \<times> nbcon_context \<times> mem" where
  "nbcon_context_can_proceed this_cpu ctxt cur m =
     (if \<not> nbcon_owner_matches cur this_cpu (ctxt_prio ctxt) then (False, ctxt, m)
      else if req_prio cur = NBCON_PRIO_NONE then (True, ctxt, m)
      else if unsafe cur then (True, ctxt, m)
      else (case nbcon_context_release this_cpu ctxt m of (ctxt1, m1) \<Rightarrow> (False, ctxt1, m1)))"

lemma can_proceed_True:
  "nbcon_context_can_proceed this_cpu ctxt cur m = (True, ctxt1, m1) \<Longrightarrow> ctxt1 = ctxt \<and> m1 = m"
  by (auto simp: nbcon_context_can_proceed_def split: if_splits prod.splits)

text \<open>
  The \<^verbatim>\<open>do ... while\<close> loop of \<^verbatim>\<open>__nbcon_context_update_unsafe\<close> together with
  what follows it; \<open>u\<close> is the parameter \<^verbatim>\<open>unsafe\<close>.
\<close>

function update_unsafe_loop ::
  "nat \<Rightarrow> nbcon_context \<Rightarrow> bool \<Rightarrow> nbcon_state \<Rightarrow> mem \<Rightarrow> bool \<times> nbcon_context \<times> mem" where
  "update_unsafe_loop this_cpu ctxt u cur m =
     (if \<not> u \<and> unsafe_takeover cur then nbcon_context_can_proceed this_cpu ctxt cur m
      else
        (case nbcon_context_can_proceed this_cpu ctxt cur m of
           (proceed, ctxt1, m1) \<Rightarrow>
             if \<not> proceed then (False, ctxt1, m1)
             else
               (case nbcon_state_try_cmpxchg cur (cur\<lparr>unsafe := u\<rparr>) m1 of
                  (ok, cur1, m2) \<Rightarrow>
                    if ok then nbcon_context_can_proceed this_cpu ctxt1 (cur\<lparr>unsafe := u\<rparr>) m2
                    else update_unsafe_loop this_cpu ctxt1 u cur1 m2)))"
  by pat_completeness auto

termination update_unsafe_loop
proof (relation "measure (\<lambda>(this_cpu, ctxt, u, cur, m). slack cur m)", goal_cases)
  case 1
  show ?case by simp
next
  case (2 this_cpu ctxt u cur m proceed x ctxt1 m1 ok y cur1 m2)
  have a: "nbcon_context_can_proceed this_cpu ctxt cur m = (True, ctxt1, m1)"
    using 2 by simp
  have b: "nbcon_state_try_cmpxchg cur (cur\<lparr>unsafe := u\<rparr>) m1 = (False, cur1, m2)"
    using 2 by simp
  show ?case
    using can_proceed_True [OF a] slack_cmpxchg_fail [OF b] by simp
qed

declare update_unsafe_loop.simps [simp del]

definition nbcon_context_update_unsafe ::
  "nat \<Rightarrow> nbcon_context \<Rightarrow> bool \<Rightarrow> mem \<Rightarrow> bool \<times> nbcon_context \<times> mem" where
  "nbcon_context_update_unsafe this_cpu ctxt u m =
     (case nbcon_state_read m of (cur, m0) \<Rightarrow> update_unsafe_loop this_cpu ctxt u cur m0)"

definition nbcon_context_enter_unsafe ::
  "nat \<Rightarrow> nbcon_context \<Rightarrow> mem \<Rightarrow> bool \<times> nbcon_context \<times> mem" where
  "nbcon_context_enter_unsafe this_cpu ctxt m = nbcon_context_update_unsafe this_cpu ctxt True m"

definition nbcon_context_exit_unsafe ::
  "nat \<Rightarrow> nbcon_context \<Rightarrow> mem \<Rightarrow> bool \<times> nbcon_context \<times> mem" where
  "nbcon_context_exit_unsafe this_cpu ctxt m = nbcon_context_update_unsafe this_cpu ctxt False m"

subsection \<open>Emitting one record\<close>

text \<open>
  \<^verbatim>\<open>struct printk_message\<close>: the rendered text, its length, the sequence number
  of the record that was read and the number of records the ring buffer dropped.
\<close>

record printk_message =
  pmsg_outbuf :: "out_piece list"
  outbuf_len :: nat
  pmsg_seq :: "64 word"
  pmsg_dropped :: "64 word"

text \<open>
  \<^verbatim>\<open>struct nbcon_write_context\<close>. \<open>outbuf\<close> is \<open>None\<close> for the null pointer.
\<close>

record nbcon_write_context =
  wctxt_ctxt :: nbcon_context
  outbuf :: "out_piece list option"
  len :: nat
  wctxt_unsafe_takeover :: bool

type_synonym write_callback = "nbcon_write_context \<Rightarrow> mem \<Rightarrow> nbcon_write_context \<times> mem"

text \<open>
  The fields of \<^verbatim>\<open>struct console\<close> that do not change while printing: the two
  driver callbacks (\<open>None\<close> for a null pointer) and the flag \<^verbatim>\<open>CON_EXTENDED\<close>.
\<close>

record console =
  write_atomic :: "write_callback option"
  write_thread :: "write_callback option"
  con_extended :: bool

text \<open>
  Modelled from the spec: \<^verbatim>\<open>printk_get_next_message\<close> is defined in
  \<^verbatim>\<open>printk.c\<close>, not in the sources at hand. The ring buffer is the spec's
  \<^verbatim>\<open>read_record_rendered(seq, extended)\<close>: it may return a record with a later
  sequence number than the one asked for, or nothing.
\<close>

type_synonym ringbuffer = "64 word \<Rightarrow> bool \<Rightarrow> printk_message option"

definition printk_get_next_message ::
  "ringbuffer \<Rightarrow> 64 word \<Rightarrow> bool \<Rightarrow> printk_message option" where
  "printk_get_next_message prb s is_extended = prb s is_extended"

text \<open>
  Modelled from the spec: \<^verbatim>\<open>console_prepend_dropped\<close> and
  \<^verbatim>\<open>console_prepend_replay\<close> are defined in \<^verbatim>\<open>printk.c\<close>, not in the sources
  at hand. Each splices its notice in front of the rendered text. A notice
  counts as one unit of length: the code only tests whether the length is zero.
\<close>

definition console_prepend_dropped :: "printk_message \<Rightarrow> 64 word \<Rightarrow> printk_message" where
  "console_prepend_dropped pmsg n =
     pmsg\<lparr>pmsg_outbuf := Dropped_notice n # pmsg_outbuf pmsg, outbuf_len := outbuf_len pmsg + 1\<rparr>"

definition console_prepend_replay :: "printk_message \<Rightarrow> printk_message" where
  "console_prepend_replay pmsg =
     pmsg\<lparr>pmsg_outbuf := Replay_notice # pmsg_outbuf pmsg, outbuf_len := outbuf_len pmsg + 1\<rparr>"

definition read_dropped :: "mem \<Rightarrow> 64 word \<times> mem" where
  "read_dropped m = (case interfere m of (con, es) \<Rightarrow> (dropped con, con, es))"

definition write_dropped :: "64 word \<Rightarrow> mem \<Rightarrow> mem" where
  "write_dropped v m = (case interfere m of (con, es) \<Rightarrow> (con\<lparr>dropped := v\<rparr>, es))"

definition read_prev_seq :: "mem \<Rightarrow> 64 word \<times> mem" where
  "read_prev_seq m = (case interfere m of (con, es) \<Rightarrow> (nbcon_prev_seq con, con, es))"

definition prev_seq_try_cmpxchg :: "64 word \<Rightarrow> 64 word \<Rightarrow> mem \<Rightarrow> mem" where
  "prev_seq_try_cmpxchg old new m =
     (case interfere m of
        (con, es) \<Rightarrow>
          if nbcon_prev_seq con = old then (con\<lparr>nbcon_prev_seq := new\<rparr>, es) else (con, es))"

text \<open>
  \<^verbatim>\<open>nbcon_emit_next_record\<close> from the label \<^verbatim>\<open>update_con\<close> to its end.
  \<open>dropped_now\<close> is the local variable \<^verbatim>\<open>dropped\<close>.
\<close>

definition emit_update_con ::
  "nat \<Rightarrow> nbcon_write_context \<Rightarrow> printk_message \<Rightarrow> 64 word \<Rightarrow> 64 word \<Rightarrow> mem \<Rightarrow>
   bool \<times> nbcon_write_context \<times> mem" where
  "emit_update_con this_cpu wctxt pmsg dropped_now con_dropped m =
     (case nbcon_context_enter_unsafe this_cpu (wctxt_ctxt wctxt) m of
        (entered, ctxt1, m1) \<Rightarrow>
          if \<not> entered then (False, wctxt\<lparr>wctxt_ctxt := ctxt1\<rparr>, m1)
          else
            (case nbcon_seq_try_update ctxt1 (pmsg_seq pmsg + 1)
                    (if dropped_now \<noteq> con_dropped then write_dropped dropped_now m1 else m1) of
               (ctxt2, m3) \<Rightarrow>
                 (case nbcon_context_exit_unsafe this_cpu ctxt2 m3 of
                    (r, ctxt3, m4) \<Rightarrow> (r, wctxt\<lparr>wctxt_ctxt := ctxt3\<rparr>, m4))))"

text \<open>
  \<^verbatim>\<open>nbcon_emit_next_record\<close> from the return of the driver's callback to its
  end: a callback that comes back with a null \<^verbatim>\<open>outbuf\<close> has lost ownership
  and reacquired it.
\<close>

definition emit_driver_done ::
  "nat \<Rightarrow> nbcon_write_context \<Rightarrow> printk_message \<Rightarrow> 64 word \<Rightarrow> mem \<Rightarrow>
   bool \<times> nbcon_write_context \<times> mem" where
  "emit_driver_done this_cpu wctxt pmsg con_dropped m =
     (if outbuf wctxt = None
      then
        (case nbcon_context_release this_cpu (wctxt_ctxt wctxt) m of
           (ctxt1, m1) \<Rightarrow> (False, wctxt\<lparr>wctxt_ctxt := ctxt1\<rparr>, m1))
      else emit_update_con this_cpu wctxt pmsg 0 con_dropped m)"

text \<open>
  \<^verbatim>\<open>nbcon_emit_next_record\<close> from the \<^verbatim>\<open>nbcon_context_exit_unsafe\<close> that
  follows the replay check to the call of the driver's callback.
\<close>

definition emit_write ::
  "nat \<Rightarrow> console \<Rightarrow> bool \<Rightarrow> nbcon_write_context \<Rightarrow> printk_message \<Rightarrow> 64 word \<Rightarrow> 64 word \<Rightarrow>
   mem \<Rightarrow> bool \<times> nbcon_write_context \<times> mem" where
  "emit_write this_cpu con use_atomic wctxt pmsg dropped_now con_dropped m =
     (case nbcon_context_exit_unsafe this_cpu (wctxt_ctxt wctxt) m of
        (still_owner, ctxt1, m1) \<Rightarrow>
          if \<not> still_owner then (False, wctxt\<lparr>wctxt_ctxt := ctxt1\<rparr>, m1)
          else if outbuf_len pmsg = 0
          then emit_update_con this_cpu (wctxt\<lparr>wctxt_ctxt := ctxt1\<rparr>) pmsg dropped_now con_dropped m1
          else
            (case nbcon_state_read m1 of
               (cur, m2) \<Rightarrow>
                 (case (if use_atomic then write_atomic con else write_thread con) of
                    None \<Rightarrow>
                      (case nbcon_context_release this_cpu ctxt1 m2 of
                         (ctxt2, m3) \<Rightarrow>
                           (False,
                            wctxt\<lparr>wctxt_ctxt := ctxt2, outbuf := Some (pmsg_outbuf pmsg),
                                  len := outbuf_len pmsg,
                                  wctxt_unsafe_takeover := unsafe_takeover cur\<rparr>,
                            m3))
                  | Some write \<Rightarrow>
                      (case write (wctxt\<lparr>wctxt_ctxt := ctxt1, outbuf := Some (pmsg_outbuf pmsg),
                                         len := outbuf_len pmsg,
                                         wctxt_unsafe_takeover := unsafe_takeover cur\<rparr>) m2 of
                         (wctxt1, m3) \<Rightarrow> emit_driver_done this_cpu wctxt1 pmsg con_dropped m3))))"

definition nbcon_emit_next_record ::
  "nat \<Rightarrow> console \<Rightarrow> ringbuffer \<Rightarrow> bool \<Rightarrow> nbcon_write_context \<Rightarrow> mem \<Rightarrow>
   bool \<times> nbcon_write_context \<times> mem" where
  "nbcon_emit_next_record this_cpu con prb use_atomic wctxt m =
     (case nbcon_context_enter_unsafe this_cpu (wctxt_ctxt wctxt) m of
        (entered, ctxt1, m1) \<Rightarrow>
          if \<not> entered then (False, wctxt\<lparr>wctxt_ctxt := ctxt1\<rparr>, m1)
          else
            (case printk_get_next_message prb (seq ctxt1) (con_extended con) of
               None \<Rightarrow>
                 (case nbcon_context_exit_unsafe this_cpu (ctxt1\<lparr>backlog := False\<rparr>) m1 of
                    (r, ctxt2, m2) \<Rightarrow> (r, wctxt\<lparr>wctxt_ctxt := ctxt2\<rparr>, m2))
             | Some pmsg0 \<Rightarrow>
                 (case read_dropped m1 of
                    (con_dropped, m2) \<Rightarrow>
                      (let dropped_now = con_dropped + pmsg_dropped pmsg0;
                           pmsg = (if dropped_now \<noteq> 0 \<and> \<not> con_extended con
                                   then console_prepend_dropped pmsg0 dropped_now else pmsg0)
                       in
                         (case read_prev_seq m2 of
                            (ulseq, m3) \<Rightarrow>
                              if ulseq = pmsg_seq pmsg
                              then emit_write this_cpu con use_atomic
                                     (wctxt\<lparr>wctxt_ctxt := ctxt1\<lparr>backlog := True\<rparr>\<rparr>)
                                     (console_prepend_replay pmsg) dropped_now con_dropped m3
                              else
                                (case nbcon_state_read m3 of
                                   (cur, m4) \<Rightarrow>
                                     (case nbcon_context_can_proceed this_cpu
                                             (ctxt1\<lparr>backlog := True\<rparr>) cur m4 of
                                        (proceed, ctxt2, m5) \<Rightarrow>
                                          if \<not> proceed then (False, wctxt\<lparr>wctxt_ctxt := ctxt2\<rparr>, m5)
                                          else emit_write this_cpu con use_atomic
                                                 (wctxt\<lparr>wctxt_ctxt := ctxt2\<rparr>) pmsg dropped_now
                                                 con_dropped
                                                 (prev_seq_try_cmpxchg ulseq (pmsg_seq pmsg) m5))))))))"

subsection \<open>Flushing\<close>

text \<open>
  \<^verbatim>\<open>nbcon_get_default_prio\<close>; \<open>cpu_emergency_nesting\<close> is the per-CPU counter
  \<^verbatim>\<open>nbcon_pcpu_emergency_nesting\<close> of the calling CPU.
\<close>

definition nbcon_get_default_prio :: "nat \<Rightarrow> nat \<Rightarrow> mem \<Rightarrow> nbcon_prio \<times> mem" where
  "nbcon_get_default_prio this_cpu cpu_emergency_nesting m =
     (case this_cpu_in_panic this_cpu m of
        (in_panic, m1) \<Rightarrow>
          if in_panic then (NBCON_PRIO_PANIC, m1)
          else if cpu_emergency_nesting \<noteq> 0 then (NBCON_PRIO_EMERGENCY, m1)
          else (NBCON_PRIO_NORMAL, m1))"

text \<open>
  The \<^verbatim>\<open>while\<close> loop of \<^verbatim>\<open>__nbcon_atomic_flush_pending_con\<close> and the release
  after it. The loop has no bound of its own, so the model counts rounds:
  \<open>None\<close> is a loop that has not ended after \<open>fuel\<close> rounds.
\<close>

fun flush_loop ::
  "nat \<Rightarrow> nat \<Rightarrow> console \<Rightarrow> ringbuffer \<Rightarrow> 64 word \<Rightarrow> nbcon_write_context \<Rightarrow> mem \<Rightarrow>
   (errno \<times> nbcon_write_context \<times> mem) option" where
  "flush_loop 0 this_cpu con prb stop_seq wctxt m = None"
| "flush_loop (Suc fuel) this_cpu con prb stop_seq wctxt m =
     (case nbcon_seq_read m of
        (s, m1) \<Rightarrow>
          if \<not> s < stop_seq
          then
            (case nbcon_context_release this_cpu (wctxt_ctxt wctxt) m1 of
               (ctxt1, m2) \<Rightarrow> Some (OK, wctxt\<lparr>wctxt_ctxt := ctxt1\<rparr>, m2))
          else
            (case nbcon_emit_next_record this_cpu con prb True wctxt m1 of
               (still_owner, wctxt1, m2) \<Rightarrow>
                 if \<not> still_owner then Some (EAGAIN, wctxt1, m2)
                 else if \<not> backlog (wctxt_ctxt wctxt1)
                 then
                   (case nbcon_seq_read m2 of
                      (s2, m3) \<Rightarrow>
                        (case nbcon_context_release this_cpu (wctxt_ctxt wctxt1) m3 of
                           (ctxt1, m4) \<Rightarrow>
                             Some (if s2 < stop_seq then ENOENT else OK,
                                   wctxt1\<lparr>wctxt_ctxt := ctxt1\<rparr>, m4)))
                 else flush_loop fuel this_cpu con prb stop_seq wctxt1 m2))"

text \<open>
  \<^verbatim>\<open>__nbcon_atomic_flush_pending_con\<close> (an Isabelle name cannot start with an
  underscore). The write context starts zeroed.
\<close>

definition nbcon_atomic_flush_pending_con_inner ::
  "nat \<Rightarrow> nat \<Rightarrow> nat \<Rightarrow> console \<Rightarrow> ringbuffer \<Rightarrow> 64 word \<Rightarrow> bool \<Rightarrow> mem \<Rightarrow>
   (errno \<times> nbcon_write_context \<times> mem) option" where
  "nbcon_atomic_flush_pending_con_inner fuel this_cpu cpu_emergency_nesting con prb stop_seq
     allow m =
     (case nbcon_get_default_prio this_cpu cpu_emergency_nesting m of
        (p, m0) \<Rightarrow>
          (case nbcon_context_try_acquire this_cpu
                  \<lparr>ctxt_prio = p, allow_unsafe_takeover = allow, spinwait_max_us = 2000,
                   backlog = False, seq = 0, pbufs = None\<rparr> m0 of
             (acquired, ctxt1, m1) \<Rightarrow>
               if \<not> acquired
               then Some (EPERM,
                          \<lparr>wctxt_ctxt = ctxt1, outbuf = None, len = 0,
                           wctxt_unsafe_takeover = False\<rparr>, m1)
               else flush_loop fuel this_cpu con prb stop_seq
                      \<lparr>wctxt_ctxt = ctxt1, outbuf = None, len = 0,
                       wctxt_unsafe_takeover = False\<rparr> m1))"

subsection \<open>Initialisation\<close>

text \<open>
  \<^verbatim>\<open>nbcon_init\<close>, as far as the shared words go: the sequence is forced, the
  previous sequence becomes \<^verbatim>\<open>-1UL\<close> and the state word is zeroed (CPU 0 and
  \<^verbatim>\<open>NBCON_PRIO_NONE\<close> are the zero values of their fields).
\<close>

definition nbcon_init :: "64 word \<Rightarrow> 64 word \<Rightarrow> mem \<Rightarrow> mem" where
  "nbcon_init first_valid_seq init_seq m =
     (case nbcon_seq_force first_valid_seq init_seq m of
        (con, es) \<Rightarrow>
          nbcon_state_set
            \<lparr>prio = NBCON_PRIO_NONE, req_prio = NBCON_PRIO_NONE, unsafe = False,
             unsafe_takeover = False, cpu = 0\<rparr>
            (con\<lparr>nbcon_prev_seq := - 1\<rparr>, es))"

subsection \<open>What one call does to shared memory\<close>

text \<open>
  \<open>steps G m m'\<close>: the memory \<open>m'\<close> is reached from \<open>m\<close> by events of the
  schedule, taken in order, and by writes of the caller, each of which satisfies
  the guarantee \<open>G\<close>.
\<close>

inductive steps :: "(shared \<Rightarrow> shared \<Rightarrow> bool) \<Rightarrow> mem \<Rightarrow> mem \<Rightarrow> bool" for G where
  steps_refl: "steps G m m"
| steps_env: "steps G (e c, es) m' \<Longrightarrow> steps G (c, e # es) m'"
| steps_own: "G c c' \<Longrightarrow> steps G (c', es) m' \<Longrightarrow> steps G (c, es) m'"

text \<open>
  The guarantee of the ownership protocol: a write replaces the state word and
  nothing else, and does not clear \<^verbatim>\<open>unsafe_takeover\<close>.
\<close>

definition state_write :: "shared \<Rightarrow> shared \<Rightarrow> bool" where
  "state_write c c' =
     (\<exists>new. c' = c\<lparr>nbcon_state := new\<rparr> \<and>
            (unsafe_takeover (nbcon_state c) \<longrightarrow> unsafe_takeover new))"

text \<open>The one write of \<^verbatim>\<open>nbcon_context_release\<close>.\<close>

definition release_write :: "shared \<Rightarrow> shared \<Rightarrow> bool" where
  "release_write c c' =
     (c' = c\<lparr>nbcon_state := (nbcon_state c)
               \<lparr>prio := NBCON_PRIO_NONE,
                unsafe := unsafe (nbcon_state c) \<or> unsafe_takeover (nbcon_state c)\<rparr>\<rparr>)"

text \<open>
  The sticky flag is set in \<open>m\<close> and no event still to come from the other
  CPUs clears it (they run the same protocol).
\<close>

definition unsafe_takeover_kept :: "mem \<Rightarrow> bool" where
  "unsafe_takeover_kept m =
     (unsafe_takeover (nbcon_state (fst m)) \<and>
      (\<forall>e\<in>set (snd m). \<forall>c. unsafe_takeover (nbcon_state c) \<longrightarrow>
                                unsafe_takeover (nbcon_state (e c))))"

text \<open>
  The state of a console that the context with priority \<open>p\<close> on \<open>this_cpu\<close>
  owns and does not hand over: no request is pending, or the console is in the
  unsafe state that a hostile takeover leaves behind, where
  \<^verbatim>\<open>nbcon_context_can_proceed\<close> does not honour a request. Whether there has
  been a hostile takeover is left open.
\<close>

definition owned_quietly :: "nbcon_prio \<Rightarrow> nat \<Rightarrow> nbcon_state \<Rightarrow> bool" where
  "owned_quietly p this_cpu st =
     (prio st = p \<and> cpu st = this_cpu \<and>
      (req_prio st = NBCON_PRIO_NONE \<or> unsafe st \<and> unsafe_takeover st))"

text \<open>
  A driver that keeps ownership: the callback hands the write context back as
  it got it and changes nothing in shared memory but the device.
\<close>

definition device_only :: "write_callback \<Rightarrow> bool" where
  "device_only write =
     (\<forall>w c es. \<exists>d. write w (c, es) = (w, c\<lparr>device := d\<rparr>, es))"

text \<open>
  The local \<^verbatim>\<open>pmsg\<close> of \<^verbatim>\<open>nbcon_emit_next_record\<close> after the lines that
  prepend the count of dropped records, \<open>con_dropped\<close> being \<^verbatim>\<open>con->dropped\<close>.
\<close>

definition with_dropped :: "console \<Rightarrow> 64 word \<Rightarrow> printk_message \<Rightarrow> printk_message" where
  "with_dropped cons con_dropped pmsg0 =
     (if con_dropped + pmsg_dropped pmsg0 \<noteq> 0 \<and> \<not> con_extended cons
      then console_prepend_dropped pmsg0 (con_dropped + pmsg_dropped pmsg0) else pmsg0)"

text \<open>
  The context that \<^verbatim>\<open>__nbcon_atomic_flush_pending_con\<close> sets up, and its zeroed
  write context.
\<close>

definition flush_ctxt :: "nbcon_prio \<Rightarrow> bool \<Rightarrow> nbcon_context" where
  "flush_ctxt p allow =
     \<lparr>ctxt_prio = p, allow_unsafe_takeover = allow, spinwait_max_us = 2000,
      backlog = False, seq = 0, pbufs = None\<rparr>"

definition flush_wctxt :: "nbcon_context \<Rightarrow> nbcon_write_context" where
  "flush_wctxt ctxt =
     \<lparr>wctxt_ctxt = ctxt, outbuf = None, len = 0, wctxt_unsafe_takeover = False\<rparr>"

text \<open>
  The rounds of \<^verbatim>\<open>flush_one_console\<close> once the console is acquired, in the
  words of the specification and with the values that the code returns:
  \<open>flush_rounds this_cpu cons prb stop_seq wctxt m r\<close> says that the loop
  started with the write context \<open>wctxt\<close> in the memory \<open>m\<close> ends with \<open>r\<close>.
  It ends with success and a release when \<^verbatim>\<open>nbcon_seq\<close> has reached
  \<open>stop_seq\<close>; with \<open>EAGAIN\<close> and no release when an emission has lost
  the console; with a release when an emission found no record, the value being
  \<open>ENOENT\<close> when \<^verbatim>\<open>nbcon_seq\<close> is still behind \<open>stop_seq\<close>; and it goes
  on to the next round after a record has been emitted. There is no bound on
  the number of rounds.
\<close>

inductive flush_rounds ::
  "nat \<Rightarrow> console \<Rightarrow> ringbuffer \<Rightarrow> 64 word \<Rightarrow> nbcon_write_context \<Rightarrow> mem \<Rightarrow>
   errno \<times> nbcon_write_context \<times> mem \<Rightarrow> bool"
  for this_cpu cons prb stop_seq where
  reached:
    "nbcon_seq_read m = (s, m1) \<Longrightarrow> \<not> s < stop_seq \<Longrightarrow>
     nbcon_context_release this_cpu (wctxt_ctxt wctxt) m1 = (ctxt1, m2) \<Longrightarrow>
     flush_rounds this_cpu cons prb stop_seq wctxt m (OK, wctxt\<lparr>wctxt_ctxt := ctxt1\<rparr>, m2)"
| lost:
    "nbcon_seq_read m = (s, m1) \<Longrightarrow> s < stop_seq \<Longrightarrow>
     nbcon_emit_next_record this_cpu cons prb True wctxt m1 = (False, wctxt1, m2) \<Longrightarrow>
     flush_rounds this_cpu cons prb stop_seq wctxt m (EAGAIN, wctxt1, m2)"
| no_record:
    "nbcon_seq_read m = (s, m1) \<Longrightarrow> s < stop_seq \<Longrightarrow>
     nbcon_emit_next_record this_cpu cons prb True wctxt m1 = (True, wctxt1, m2) \<Longrightarrow>
     \<not> backlog (wctxt_ctxt wctxt1) \<Longrightarrow>
     nbcon_seq_read m2 = (s2, m3) \<Longrightarrow>
     nbcon_context_release this_cpu (wctxt_ctxt wctxt1) m3 = (ctxt1, m4) \<Longrightarrow>
     flush_rounds this_cpu cons prb stop_seq wctxt m
       (if s2 < stop_seq then ENOENT else OK, wctxt1\<lparr>wctxt_ctxt := ctxt1\<rparr>, m4)"
| next_record:
    "nbcon_seq_read m = (s, m1) \<Longrightarrow> s < stop_seq \<Longrightarrow>
     nbcon_emit_next_record this_cpu cons prb True wctxt m1 = (True, wctxt1, m2) \<Longrightarrow>
     backlog (wctxt_ctxt wctxt1) \<Longrightarrow>
     flush_rounds this_cpu cons prb stop_seq wctxt1 m2 r \<Longrightarrow>
     flush_rounds this_cpu cons prb stop_seq wctxt m r"

text \<open>
  \<open>Q\<close> holds of \<^verbatim>\<open>nbcon_seq\<close> in \<open>m\<close>, and no event still to come from the
  other CPUs makes it false.
\<close>

definition seq_inv :: "(64 word \<Rightarrow> bool) \<Rightarrow> mem \<Rightarrow> bool" where
  "seq_inv Q m =
     (Q (nbcon_seq (fst m)) \<and>
      (\<forall>e\<in>set (snd m). \<forall>c. Q (nbcon_seq c) \<longrightarrow> Q (nbcon_seq (e c))))"

text \<open>
  The ring buffer returns the record asked for or a later one, and no record
  has the sequence number \<^verbatim>\<open>-1UL\<close> (which \<^verbatim>\<open>nbcon_init\<close> uses for "none").
\<close>

definition prb_forward :: "ringbuffer \<Rightarrow> bool" where
  "prb_forward prb =
     (\<forall>s is_extended p. prb s is_extended = Some p \<longrightarrow> s \<le> pmsg_seq p \<and> pmsg_seq p \<noteq> - 1)"

text \<open>The callbacks of a console, as far as they are there.\<close>

definition callbacks :: "console \<Rightarrow> write_callback set" where
  "callbacks cons = {write. write_atomic cons = Some write \<or> write_thread cons = Some write}"

text \<open>
  What is asked of a driver: its callbacks keep \<open>Q\<close> of \<^verbatim>\<open>nbcon_seq\<close> as the
  other CPUs do; a callback that comes back with its \<^verbatim>\<open>outbuf\<close> has not
  changed the sequence number of its context.
\<close>

definition driver_keeps :: "(64 word \<Rightarrow> bool) \<Rightarrow> console \<Rightarrow> bool" where
  "driver_keeps Q cons =
     (\<forall>write\<in>callbacks cons. \<forall>w m. seq_inv Q m \<longrightarrow> seq_inv Q (snd (write w m)))"

definition driver_keeps_ctxt_seq :: "console \<Rightarrow> bool" where
  "driver_keeps_ctxt_seq cons =
     (\<forall>write\<in>callbacks cons. \<forall>w m.
        outbuf (fst (write w m)) \<noteq> None \<longrightarrow>
        seq (wctxt_ctxt (fst (write w m))) = seq (wctxt_ctxt w))"

text \<open>A driver whose callbacks always come back without their \<^verbatim>\<open>outbuf\<close>.\<close>

definition driver_fails :: "console \<Rightarrow> bool" where
  "driver_fails cons = (\<forall>write\<in>callbacks cons. \<forall>w m. outbuf (fst (write w m)) = None)"

text \<open>
  No event still to come from the other CPUs changes \<^verbatim>\<open>nbcon_seq\<close>: it is
  written by the owner of the console alone.
\<close>

definition seq_alone :: "mem \<Rightarrow> bool" where
  "seq_alone m = (\<forall>e\<in>set (snd m). \<forall>c. nbcon_seq (e c) = nbcon_seq c)"

text \<open>
  A driver whose callbacks leave \<^verbatim>\<open>nbcon_seq\<close> as it is, and let no other
  CPU change it meanwhile.
\<close>

definition driver_leaves_seq :: "console \<Rightarrow> bool" where
  "driver_leaves_seq cons =
     (\<forall>write\<in>callbacks cons. \<forall>w m.
        seq_alone m \<longrightarrow>
        seq_alone (snd (write w m)) \<and> nbcon_seq (fst (snd (write w m))) = nbcon_seq (fst m))"

text \<open>
  No event still to come from the other CPUs changes \<^verbatim>\<open>nbcon_prev_seq\<close>: it
  is written by the owner of the console alone.
\<close>

definition prev_seq_alone :: "mem \<Rightarrow> bool" where
  "prev_seq_alone m = (\<forall>e\<in>set (snd m). \<forall>c. nbcon_prev_seq (e c) = nbcon_prev_seq c)"

text \<open>
  A driver whose callbacks leave \<^verbatim>\<open>nbcon_prev_seq\<close> as it is, let no other
  CPU change it meanwhile, and come back with the \<^verbatim>\<open>outbuf\<close> they were given
  or with none.
\<close>

definition driver_leaves_prev_seq :: "console \<Rightarrow> bool" where
  "driver_leaves_prev_seq cons =
     (\<forall>write\<in>callbacks cons. \<forall>w m.
        (outbuf (fst (write w m)) = None \<or> outbuf (fst (write w m)) = outbuf w) \<and>
        (prev_seq_alone m \<longrightarrow>
         prev_seq_alone (snd (write w m)) \<and>
         nbcon_prev_seq (fst (snd (write w m))) = nbcon_prev_seq (fst m)))"

subsection \<open>Example inputs\<close>

definition example_state :: "nbcon_prio \<Rightarrow> nbcon_prio \<Rightarrow> bool \<Rightarrow> nat \<Rightarrow> nbcon_state" where
  "example_state p r u c =
     \<lparr>prio = p, req_prio = r, unsafe = u, unsafe_takeover = False, cpu = c\<rparr>"

definition example_console :: "nbcon_state \<Rightarrow> shared" where
  "example_console st =
     \<lparr>nbcon_state = st, nbcon_seq = 10, nbcon_prev_seq = - 1, dropped = 0, panic_cpu = None,
      device = []\<rparr>"

definition example_ctxt :: "nbcon_prio \<Rightarrow> bool \<Rightarrow> nat \<Rightarrow> nbcon_context" where
  "example_ctxt p allow spin =
     \<lparr>ctxt_prio = p, allow_unsafe_takeover = allow, spinwait_max_us = spin, backlog = False,
      seq = 0, pbufs = None\<rparr>"

definition example_wctxt :: "nbcon_context \<Rightarrow> nbcon_write_context" where
  "example_wctxt ctxt =
     \<lparr>wctxt_ctxt = ctxt, outbuf = None, len = 0, wctxt_unsafe_takeover = False\<rparr>"

definition example_takeover_mem :: mem where
  "example_takeover_mem =
     (example_console
        \<lparr>prio = NBCON_PRIO_PANIC, req_prio = NBCON_PRIO_NONE, unsafe = True,
         unsafe_takeover = True, cpu = 1\<rparr>,
      [id])"

text \<open>
  The NORMAL context on CPU 0 owns the console and is at record 10; at its first
  access another CPU forces the sequence number forward to 12.
\<close>

definition example_forced_mem :: mem where
  "example_forced_mem =
     (example_console (example_state NBCON_PRIO_NORMAL NBCON_PRIO_NONE False 0),
      [nbcon_seq_update (\<lambda>s. max s 12)])"

text \<open>A driver that puts what it is given on the device, and no more.\<close>

definition record_output :: write_callback where
  "record_output w m =
     (w, (fst m)\<lparr>device := device (fst m) @ [case outbuf w of None \<Rightarrow> [] | Some t \<Rightarrow> t]\<rparr>,
      snd m)"

definition example_ops :: console where
  "example_ops =
     \<lparr>write_atomic = Some record_output, write_thread = Some record_output,
      con_extended = False\<rparr>"

text \<open>A ring buffer that holds the records 10, 11 and 12.\<close>

definition example_prb :: ringbuffer where
  "example_prb s is_extended =
     (if 10 \<le> s \<and> s \<le> 12
      then Some \<lparr>pmsg_outbuf = [Record_text ''line''], outbuf_len = 4, pmsg_seq = s,
                 pmsg_dropped = 0\<rparr>
      else None)"

text \<open>A ring buffer whose oldest record is 12: a reader of 10 or 11 gets 12.\<close>

definition reclaimed_prb :: ringbuffer where
  "reclaimed_prb s is_extended =
     (if s \<le> 12
      then Some \<lparr>pmsg_outbuf = [Record_text ''line''], outbuf_len = 4, pmsg_seq = 12,
                 pmsg_dropped = 12 - s\<rparr>
      else None)"

text \<open>A ring buffer whose record 10 renders to no text (a suppressed record).\<close>

definition suppressed_prb :: ringbuffer where
  "suppressed_prb s is_extended =
     (if s = 10
      then Some \<lparr>pmsg_outbuf = [], outbuf_len = 0, pmsg_seq = 10, pmsg_dropped = 0\<rparr>
      else None)"

text \<open>
  One owner, twice at the same record. The NORMAL context on CPU 0 acquires the
  free console and starts on record 10. While it is in the unsafe section an
  EMERGENCY context on CPU 1 posts a handover request (the twelfth access of
  CPU 0 to shared memory is the state read of
  \<^verbatim>\<open>nbcon_context_exit_unsafe\<close>), so the owner hands over before the driver
  is called. The waiter takes the console and releases it without printing.
  Then the NORMAL context on CPU 0 acquires again and emits record 10. The value
  is: what the five calls returned, what the device got, and \<^verbatim>\<open>nbcon_seq\<close>.
\<close>

definition same_owner_retry ::
  "(bool \<times> bool \<times> errno \<times> bool \<times> bool) \<times> out_piece list list \<times> 64 word" where
  "same_owner_retry =
     (case nbcon_context_try_acquire 0 (example_ctxt NBCON_PRIO_NORMAL False 0)
             (example_console (example_state NBCON_PRIO_NONE NBCON_PRIO_NONE False 0),
              [id, id, id, id, id, id, id, id, id, id, id,
               nbcon_state_update (\<lambda>s. s\<lparr>req_prio := NBCON_PRIO_EMERGENCY\<rparr>)]) of
        (acquired1, ctxt1, m1) \<Rightarrow>
     (case nbcon_emit_next_record 0 example_ops example_prb False (example_wctxt ctxt1) m1 of
        (emitted1, wctxt1, m2) \<Rightarrow>
     (case nbcon_context_try_acquire_requested 1 (example_ctxt NBCON_PRIO_EMERGENCY False 500)
             (nbcon_state (fst m2)) m2 of
        (err, cur, m3) \<Rightarrow>
     (case nbcon_context_release 1 (example_ctxt NBCON_PRIO_EMERGENCY False 500) m3 of
        (ctxt_waiter, m4) \<Rightarrow>
     (case nbcon_context_try_acquire 0 (wctxt_ctxt wctxt1) m4 of
        (acquired2, ctxt2, m5) \<Rightarrow>
     (case nbcon_emit_next_record 0 example_ops example_prb False
             (wctxt1\<lparr>wctxt_ctxt := ctxt2\<rparr>) m5 of
        (emitted2, wctxt2, m6) \<Rightarrow>
          ((acquired1, emitted1, err, acquired2, emitted2),
           device (fst m6), nbcon_seq (fst m6))))))))"

section \<open>Properties\<close>

subsection \<open>Direct acquire\<close>

lemma direct_quiet:
  "nbcon_context_try_acquire_direct this_cpu ctxt (nbcon_state con) (con, []) =
     (if fst (other_cpu_in_panic this_cpu (con, [])) \<or>
         \<not> (prio_val (prio (nbcon_state con)) < prio_val (ctxt_prio ctxt) \<and>
            prio_val (req_prio (nbcon_state con)) < prio_val (ctxt_prio ctxt))
      then (EPERM, nbcon_state con, con, [])
      else if unsafe (nbcon_state con) then (EBUSY, nbcon_state con, con, [])
      else (OK, nbcon_state con,
            con\<lparr>nbcon_state := (nbcon_state con)
                   \<lparr>prio := ctxt_prio ctxt, req_prio := NBCON_PRIO_NONE,
                    unsafe := unsafe_takeover (nbcon_state con), cpu := this_cpu\<rparr>\<rparr>, []))"
  by (subst nbcon_context_try_acquire_direct.simps)
     (auto simp: other_cpu_in_panic_def nbcon_state_try_cmpxchg_def)

lemma direct_general:
  "nbcon_context_try_acquire_direct this_cpu ctxt cur m = (e, cur', m') \<Longrightarrow>
   (e = EPERM \<and>
      (fst (other_cpu_in_panic this_cpu (fst m', [])) \<or>
       \<not> (prio_val (prio cur') < prio_val (ctxt_prio ctxt) \<and>
          prio_val (req_prio cur') < prio_val (ctxt_prio ctxt)))) \<or>
   (e = EBUSY \<and> \<not> fst (other_cpu_in_panic this_cpu (fst m', [])) \<and>
      prio_val (prio cur') < prio_val (ctxt_prio ctxt) \<and>
      prio_val (req_prio cur') < prio_val (ctxt_prio ctxt) \<and> unsafe cur') \<or>
   (e = OK \<and>
      prio_val (prio cur') < prio_val (ctxt_prio ctxt) \<and>
      prio_val (req_prio cur') < prio_val (ctxt_prio ctxt) \<and> \<not> unsafe cur' \<and>
      nbcon_state (fst m') =
        cur'\<lparr>prio := ctxt_prio ctxt, req_prio := NBCON_PRIO_NONE,
             unsafe := unsafe_takeover cur', cpu := this_cpu\<rparr>)"
proof (induction "slack cur m" arbitrary: cur m rule: less_induct)
  case less
  obtain b m1 where a: "other_cpu_in_panic this_cpu m = (b, m1)"
    by (cases "other_cpu_in_panic this_cpu m") auto
  have b: "fst (other_cpu_in_panic this_cpu (fst m1, [])) = b"
  proof -
    obtain c es where i: "interfere m = (c, es)" by (cases "interfere m") auto
    show ?thesis using a unfolding other_cpu_in_panic_def i by auto
  qed
  note le1 = slack_other_cpu_in_panic [OF a, of cur]
  let ?new = "cur\<lparr>prio := ctxt_prio ctxt, req_prio := NBCON_PRIO_NONE,
                  unsafe := unsafe_takeover cur, cpu := this_cpu\<rparr>"
  obtain ok cur1 m2 where c: "nbcon_state_try_cmpxchg cur ?new m1 = (ok, cur1, m2)"
    by (cases "nbcon_state_try_cmpxchg cur ?new m1") auto
  have ok: "ok \<Longrightarrow> cur1 = cur \<and> nbcon_state (fst m2) = ?new"
    using c by (auto simp: nbcon_state_try_cmpxchg_def split: prod.splits if_splits)
  show ?case
  proof (cases "\<not> b \<and> \<not> (prio_val (ctxt_prio ctxt) \<le> prio_val (prio cur) \<or>
                  prio_val (ctxt_prio ctxt) \<le> prio_val (req_prio cur)) \<and> \<not> unsafe cur \<and> \<not> ok")
    case True
    then have rec: "nbcon_context_try_acquire_direct this_cpu ctxt cur1 m2 = (e, cur', m')"
      using less.prems(1) a c
      by (subst (asm) nbcon_context_try_acquire_direct.simps) simp
    have lt: "slack cur1 m2 < slack cur m"
      using slack_cmpxchg_fail [of cur ?new m1 cur1 m2] True c le1 by simp
    show ?thesis by (rule less.hyps [OF lt rec])
  next
    case False
    then show ?thesis
      using less.prems a b c ok
      by (subst (asm) nbcon_context_try_acquire_direct.simps) (auto split: if_splits)
  qed
qed

text \<open>
  C1. \<^verbatim>\<open>nbcon_context_try_acquire_direct\<close>, for every console state and every
  context. First conjunct: called on the state of the console with no other CPU
  interfering, it fails with \<open>EPERM\<close> when another CPU is in panic or the
  context's priority is not strictly greater than both the owner's and the
  requested priority; else it fails with \<open>EBUSY\<close> when the unsafe bit is set; else
  it succeeds and the state word gets the context's priority, the caller's CPU,
  no request, and an unsafe bit equal to the old \<^verbatim>\<open>unsafe_takeover\<close>; a failure
  leaves the word as it was. Second conjunct: the same holds of every call,
  whatever the caller's copy and whatever the other CPUs do meanwhile, for the
  state \<open>cur'\<close> that the last round of the loop examined, and on success the new
  word replaces that very state in one compare-and-swap.
\<close>

theorem try_acquire_direct_outcome:
  "nbcon_context_try_acquire_direct this_cpu ctxt (nbcon_state con) (con, []) =
     (if fst (other_cpu_in_panic this_cpu (con, [])) \<or>
         \<not> (prio_val (prio (nbcon_state con)) < prio_val (ctxt_prio ctxt) \<and>
            prio_val (req_prio (nbcon_state con)) < prio_val (ctxt_prio ctxt))
      then (EPERM, nbcon_state con, con, [])
      else if unsafe (nbcon_state con) then (EBUSY, nbcon_state con, con, [])
      else (OK, nbcon_state con,
            con\<lparr>nbcon_state := (nbcon_state con)
                   \<lparr>prio := ctxt_prio ctxt, req_prio := NBCON_PRIO_NONE,
                    unsafe := unsafe_takeover (nbcon_state con), cpu := this_cpu\<rparr>\<rparr>, [])) \<and>
   (nbcon_context_try_acquire_direct this_cpu ctxt cur m = (e, cur', m') \<longrightarrow>
    (e = EPERM \<and>
       (fst (other_cpu_in_panic this_cpu (fst m', [])) \<or>
        \<not> (prio_val (prio cur') < prio_val (ctxt_prio ctxt) \<and>
           prio_val (req_prio cur') < prio_val (ctxt_prio ctxt)))) \<or>
    (e = EBUSY \<and> \<not> fst (other_cpu_in_panic this_cpu (fst m', [])) \<and>
       prio_val (prio cur') < prio_val (ctxt_prio ctxt) \<and>
       prio_val (req_prio cur') < prio_val (ctxt_prio ctxt) \<and> unsafe cur') \<or>
    (e = OK \<and>
       prio_val (prio cur') < prio_val (ctxt_prio ctxt) \<and>
       prio_val (req_prio cur') < prio_val (ctxt_prio ctxt) \<and> \<not> unsafe cur' \<and>
       nbcon_state (fst m') =
         cur'\<lparr>prio := ctxt_prio ctxt, req_prio := NBCON_PRIO_NONE,
              unsafe := unsafe_takeover cur', cpu := this_cpu\<rparr>))"
  using direct_quiet [of this_cpu ctxt con] direct_general [of this_cpu ctxt cur m e cur' m']
  by blast

text \<open>
  An EMERGENCY context on CPU 1 holds a stale copy of the state; meanwhile a
  NORMAL context takes the free console. The first compare-and-swap fails, the
  second round takes the console over from the NORMAL owner.
\<close>

theorem try_acquire_direct_outcome_witness:
  "nbcon_context_try_acquire_direct 1 (example_ctxt NBCON_PRIO_EMERGENCY False 0)
     (example_state NBCON_PRIO_NONE NBCON_PRIO_NONE False 0)
     (example_console (example_state NBCON_PRIO_NONE NBCON_PRIO_NONE False 0),
      [id, nbcon_state_update (\<lambda>_. example_state NBCON_PRIO_NORMAL NBCON_PRIO_NONE False 0)])
   = (OK, example_state NBCON_PRIO_NORMAL NBCON_PRIO_NONE False 0,
      example_console (example_state NBCON_PRIO_EMERGENCY NBCON_PRIO_NONE False 1), []) \<and>
   prio_val NBCON_PRIO_NORMAL < prio_val NBCON_PRIO_EMERGENCY"
  using try_acquire_direct_outcome
    [of 1 "example_ctxt NBCON_PRIO_EMERGENCY False 0"
        "example_console (example_state NBCON_PRIO_NONE NBCON_PRIO_NONE False 0)"
        "example_state NBCON_PRIO_NONE NBCON_PRIO_NONE False 0"
        "(example_console (example_state NBCON_PRIO_NONE NBCON_PRIO_NONE False 0),
      [id, nbcon_state_update (\<lambda>_. example_state NBCON_PRIO_NORMAL NBCON_PRIO_NONE False 0)])"
        OK "example_state NBCON_PRIO_NORMAL NBCON_PRIO_NONE False 0"
        "(example_console (example_state NBCON_PRIO_EMERGENCY NBCON_PRIO_NONE False 1), [])"]
  by (simp add: nbcon_context_try_acquire_direct.simps other_cpu_in_panic_def
      nbcon_state_try_cmpxchg_def example_ctxt_def example_state_def example_console_def)

subsection \<open>The sticky flag\<close>

lemma steps_trans: "steps G m1 m2 \<Longrightarrow> steps G m2 m3 \<Longrightarrow> steps G m1 m3"
  by (induction rule: steps.induct) (auto intro: steps.intros)

lemma steps_interfere: "steps G m (interfere m)"
  by (cases m rule: interfere.cases) (auto intro: steps.intros)

lemma steps_mono: "steps G m m' \<Longrightarrow> (\<And>c c'. G c c' \<Longrightarrow> G' c c') \<Longrightarrow> steps G' m m'"
  by (induction rule: steps.induct) (auto intro: steps.intros)

lemma steps_preserve:
  "steps G m m' \<Longrightarrow> (\<And>c c'. G c c' \<Longrightarrow> P c \<Longrightarrow> P c') \<Longrightarrow>
   \<forall>e\<in>set (snd m). \<forall>c. P c \<longrightarrow> P (e c) \<Longrightarrow> P (fst m) \<Longrightarrow>
   P (fst m') \<and> (\<forall>e\<in>set (snd m'). \<forall>c. P c \<longrightarrow> P (e c))"
  by (induction rule: steps.induct) auto

lemma steps_state_read: "nbcon_state_read m = (cur, m') \<Longrightarrow> steps G m m'"
  using steps_interfere [of G m] by (auto simp: nbcon_state_read_def split: prod.splits)

lemma steps_other_cpu_in_panic: "other_cpu_in_panic this_cpu m = (b, m') \<Longrightarrow> steps G m m'"
  using steps_interfere [of G m] by (auto simp: other_cpu_in_panic_def split: prod.splits)

lemma steps_read_panic_cpu: "read_panic_cpu m = (b, m') \<Longrightarrow> steps G m m'"
  using steps_interfere [of G m] by (auto simp: read_panic_cpu_def split: prod.splits)

lemma steps_seq_read: "nbcon_seq_read m = (b, m') \<Longrightarrow> steps G m m'"
  using steps_interfere [of G m] by (auto simp: nbcon_seq_read_def split: prod.splits)

lemma steps_cmpxchg:
  assumes "nbcon_state_try_cmpxchg cur new m = (ok, cur', m')"
    and "unsafe_takeover cur \<longrightarrow> unsafe_takeover new"
  shows "steps state_write m m'"
proof -
  obtain c es where i: "interfere m = (c, es)" by (cases "interfere m") auto
  have s: "steps state_write m (c, es)" using steps_interfere [of state_write m] i by simp
  show ?thesis
  proof (cases "nbcon_state c = cur")
    case True
    then have m': "m' = (c\<lparr>nbcon_state := new\<rparr>, es)"
      using assms(1) i by (simp add: nbcon_state_try_cmpxchg_def)
    have "state_write c (c\<lparr>nbcon_state := new\<rparr>)"
      using True assms(2) by (auto simp: state_write_def)
    then have "steps state_write (c, es) m'"
      unfolding m' by (rule steps_own) (rule steps_refl)
    with s show ?thesis by (rule steps_trans)
  next
    case False
    then have "m' = (c, es)"
      using assms(1) i by (simp add: nbcon_state_try_cmpxchg_def)
    with s show ?thesis by simp
  qed
qed

lemma steps_try_acquire_direct:
  "nbcon_context_try_acquire_direct this_cpu ctxt cur m = (e, cur', m') \<Longrightarrow> steps state_write m m'"
proof (induction "slack cur m" arbitrary: cur m rule: less_induct)
  case less
  obtain b m1 where a: "other_cpu_in_panic this_cpu m = (b, m1)"
    by (cases "other_cpu_in_panic this_cpu m") auto
  note s1 = steps_other_cpu_in_panic [OF a, of state_write]
  note le1 = slack_other_cpu_in_panic [OF a, of cur]
  let ?new = "cur\<lparr>prio := ctxt_prio ctxt, req_prio := NBCON_PRIO_NONE,
                  unsafe := unsafe_takeover cur, cpu := this_cpu\<rparr>"
  obtain ok cur1 m2 where c: "nbcon_state_try_cmpxchg cur ?new m1 = (ok, cur1, m2)"
    by (cases "nbcon_state_try_cmpxchg cur ?new m1") auto
  have s2: "steps state_write m1 m2" by (rule steps_cmpxchg [OF c]) simp
  note s12 = steps_trans [OF s1 s2]
  show ?case
  proof (cases "\<not> b \<and> \<not> (prio_val (ctxt_prio ctxt) \<le> prio_val (prio cur) \<or>
                  prio_val (ctxt_prio ctxt) \<le> prio_val (req_prio cur)) \<and> \<not> unsafe cur \<and> \<not> ok")
    case True
    then have rec: "nbcon_context_try_acquire_direct this_cpu ctxt cur1 m2 = (e, cur', m')"
      using less.prems(1) a c
      by (subst (asm) nbcon_context_try_acquire_direct.simps) simp
    have lt: "slack cur1 m2 < slack cur m"
      using slack_cmpxchg_fail [of cur ?new m1 cur1 m2] True c le1 by simp
    show ?thesis
      using less.hyps [OF lt rec] s12 by (rule steps_trans [rotated])
  next
    case False
    then show ?thesis
      using less.prems a c s1 s12
      by (subst (asm) nbcon_context_try_acquire_direct.simps) (auto split: if_splits)
  qed
qed

lemma steps_try_acquire_requested:
  assumes "nbcon_context_try_acquire_requested this_cpu ctxt cur m = (e, cur', m')"
  shows "steps state_write m m'"
proof -
  obtain b m1 where a: "other_cpu_in_panic this_cpu m = (b, m1)"
    by (cases "other_cpu_in_panic this_cpu m") auto
  note s1 = steps_other_cpu_in_panic [OF a, of state_write]
  let ?new = "cur\<lparr>prio := ctxt_prio ctxt, req_prio := NBCON_PRIO_NONE,
                  unsafe := unsafe_takeover cur, cpu := this_cpu\<rparr>"
  obtain ok cur1 m2 where c: "nbcon_state_try_cmpxchg cur ?new m1 = (ok, cur1, m2)"
    by (cases "nbcon_state_try_cmpxchg cur ?new m1") auto
  have s2: "steps state_write m1 m2" by (rule steps_cmpxchg [OF c]) simp
  note s12 = steps_trans [OF s1 s2]
  show ?thesis
    using assms a c s1 s12
    by (auto simp: nbcon_context_try_acquire_requested_def split: if_splits)
qed

lemma steps_handover_wait:
  "handover_wait timeout this_cpu ctxt cur m = (e, cur', m') \<Longrightarrow> steps state_write m m'"
proof (induction timeout arbitrary: cur m)
  case 0
  obtain e1 cur1 m1 where r: "nbcon_context_try_acquire_requested this_cpu ctxt cur m = (e1, cur1, m1)"
    by (cases "nbcon_context_try_acquire_requested this_cpu ctxt cur m") auto
  obtain cur2 m2 where rd: "nbcon_state_read m1 = (cur2, m2)"
    by (cases "nbcon_state_read m1") auto
  note s1 = steps_try_acquire_requested [OF r]
  note s2 = steps_trans [OF s1 steps_state_read [OF rd]]
  show ?case
    using "0.prems" r rd s1 s2
    by (subst (asm) handover_wait.simps) (auto split: if_splits)
next
  case (Suc t)
  obtain e1 cur1 m1 where r: "nbcon_context_try_acquire_requested this_cpu ctxt cur m = (e1, cur1, m1)"
    by (cases "nbcon_context_try_acquire_requested this_cpu ctxt cur m") auto
  obtain cur2 m2 where rd: "nbcon_state_read m1 = (cur2, m2)"
    by (cases "nbcon_state_read m1") auto
  note s1 = steps_try_acquire_requested [OF r]
  note s2 = steps_trans [OF s1 steps_state_read [OF rd]]
  show ?case
  proof (cases "e1 = OK \<or> e1 = EPERM")
    case True
    then show ?thesis
      using Suc.prems r s1 by (subst (asm) handover_wait.simps) (auto split: if_splits)
  next
    case False
    then have "handover_wait t this_cpu ctxt cur2 m2 = (e, cur', m')"
      using Suc.prems r rd by (subst (asm) handover_wait.simps) simp
    from Suc.IH [OF this] s2 show ?thesis by (rule steps_trans [rotated])
  qed
qed

lemma steps_handover_unrequest:
  "handover_unrequest request_err this_cpu ctxt cur m = (e, cur', m') \<Longrightarrow> steps state_write m m'"
proof (induction "slack cur m" arbitrary: cur m rule: less_induct)
  case less
  let ?new = "cur\<lparr>req_prio := NBCON_PRIO_NONE\<rparr>"
  obtain ok cur1 m1 where c: "nbcon_state_try_cmpxchg cur ?new m = (ok, cur1, m1)"
    by (cases "nbcon_state_try_cmpxchg cur ?new m") auto
  obtain e2 cur2 m2 where r: "nbcon_context_try_acquire_requested this_cpu ctxt cur1 m1 = (e2, cur2, m2)"
    by (cases "nbcon_context_try_acquire_requested this_cpu ctxt cur1 m1") auto
  have s1: "steps state_write m m1" by (rule steps_cmpxchg [OF c]) simp
  note s2 = steps_trans [OF s1 steps_try_acquire_requested [OF r]]
  show ?case
  proof (cases "nbcon_waiter_matches cur (ctxt_prio ctxt) \<and> \<not> ok \<and> e2 \<noteq> OK")
    case True
    then have rec: "handover_unrequest request_err this_cpu ctxt cur2 m2 = (e, cur', m')"
      using less.prems(1) c r by (subst (asm) handover_unrequest.simps) simp
    have lt: "slack cur2 m2 < slack cur m"
      using slack_cmpxchg_fail [of cur ?new m cur1 m1] slack_try_acquire_requested [OF r] True c
      by simp
    from less.hyps [OF lt rec] s2 show ?thesis by (rule steps_trans [rotated])
  next
    case False
    then show ?thesis
      using less.prems c r s1 s2
      by (subst (asm) handover_unrequest.simps) (auto split: if_splits intro: steps_refl)
  qed
qed

lemma steps_try_acquire_handover:
  assumes "nbcon_context_try_acquire_handover this_cpu ctxt cur m = (e, cur', m')"
  shows "steps state_write m m'"
proof -
  let ?new = "cur\<lparr>req_prio := ctxt_prio ctxt\<rparr>"
  obtain ok cur1 m1 where c: "nbcon_state_try_cmpxchg cur ?new m = (ok, cur1, m1)"
    by (cases "nbcon_state_try_cmpxchg cur ?new m") auto
  obtain e2 cur2 m2 where w: "handover_wait (spinwait_max_us ctxt) this_cpu ctxt ?new m1 = (e2, cur2, m2)"
    by (cases "handover_wait (spinwait_max_us ctxt) this_cpu ctxt ?new m1") auto
  obtain e3 cur3 m3 where u: "handover_unrequest e2 this_cpu ctxt cur2 m2 = (e3, cur3, m3)"
    by (cases "handover_unrequest e2 this_cpu ctxt cur2 m2") auto
  have s1: "steps state_write m m1" by (rule steps_cmpxchg [OF c]) simp
  note s2 = steps_trans [OF s1 steps_handover_wait [OF w]]
  note s3 = steps_trans [OF s2 steps_handover_unrequest [OF u]]
  show ?thesis
    using assms c w u s1 s2 s3
    by (auto simp: nbcon_context_try_acquire_handover_def split: if_splits intro: steps_refl)
qed

lemma steps_hostile_takeover:
  "hostile_takeover this_cpu ctxt cur m = (e, cur', m') \<Longrightarrow> steps state_write m m'"
proof (induction "slack cur m" arbitrary: cur m rule: less_induct)
  case less
  let ?new = "cur\<lparr>cpu := this_cpu, prio := ctxt_prio ctxt,
                  unsafe := unsafe cur \<or> unsafe_takeover cur,
                  unsafe_takeover := unsafe_takeover cur \<or> unsafe cur\<rparr>"
  obtain ok cur1 m1 where c: "nbcon_state_try_cmpxchg cur ?new m = (ok, cur1, m1)"
    by (cases "nbcon_state_try_cmpxchg cur ?new m") auto
  have s1: "steps state_write m m1" by (rule steps_cmpxchg [OF c]) simp
  show ?case
  proof (cases ok)
    case True
    then show ?thesis
      using less.prems c s1 by (subst (asm) hostile_takeover.simps) simp
  next
    case False
    then have rec: "hostile_takeover this_cpu ctxt cur1 m1 = (e, cur', m')"
      using less.prems c by (subst (asm) hostile_takeover.simps) simp
    have lt: "slack cur1 m1 < slack cur m"
      using slack_cmpxchg_fail [of cur ?new m cur1 m1] False c by simp
    from less.hyps [OF lt rec] s1 show ?thesis by (rule steps_trans [rotated])
  qed
qed

lemma steps_try_acquire_hostile:
  "nbcon_context_try_acquire_hostile this_cpu ctxt cur m = (e, cur', m') \<Longrightarrow>
   steps state_write m m'"
  by (auto simp: nbcon_context_try_acquire_hostile_def split: if_splits
      intro: steps_refl steps_hostile_takeover)

lemma steps_try_again:
  "try_again this_cpu ctxt cur m = (e, cur', m') \<Longrightarrow> steps state_write m m'"
proof (induction "slack cur m" arbitrary: cur m rule: less_induct)
  case less
  obtain e1 cur1 m1 where d: "nbcon_context_try_acquire_direct this_cpu ctxt cur m = (e1, cur1, m1)"
    by (cases "nbcon_context_try_acquire_direct this_cpu ctxt cur m") auto
  obtain e2 cur2 m2 where h: "nbcon_context_try_acquire_handover this_cpu ctxt cur1 m1 = (e2, cur2, m2)"
    by (cases "nbcon_context_try_acquire_handover this_cpu ctxt cur1 m1") auto
  obtain e3 cur3 m3 where t: "nbcon_context_try_acquire_hostile this_cpu ctxt cur2 m2 = (e3, cur3, m3)"
    by (cases "nbcon_context_try_acquire_hostile this_cpu ctxt cur2 m2") auto
  note s1 = steps_try_acquire_direct [OF d]
  note s2 = steps_trans [OF s1 steps_try_acquire_handover [OF h]]
  note s3 = steps_trans [OF s2 steps_try_acquire_hostile [OF t]]
  show ?case
  proof (cases "e1 = EBUSY \<and> e2 = EAGAIN")
    case True
    then have rec: "try_again this_cpu ctxt cur2 m2 = (e, cur', m')"
      using less.prems d h by (subst (asm) try_again.simps) simp
    have lt: "slack cur2 m2 < slack cur m"
      using slack_try_acquire_direct [OF d] slack_try_acquire_handover [of this_cpu ctxt cur1 m1 cur2 m2]
        True h by simp
    from less.hyps [OF lt rec] s2 show ?thesis by (rule steps_trans [rotated])
  next
    case False
    then show ?thesis
      using less.prems d h t s1 s2 s3
      by (subst (asm) try_again.simps) (auto split: if_splits)
  qed
qed

lemma steps_try_acquire:
  assumes "nbcon_context_try_acquire this_cpu ctxt m = (b, ctxt', m')"
  shows "steps state_write m m'"
proof -
  obtain cur m0 where rd: "nbcon_state_read m = (cur, m0)"
    by (cases "nbcon_state_read m") auto
  obtain e cur1 m1 where t: "try_again this_cpu ctxt cur m0 = (e, cur1, m1)"
    by (cases "try_again this_cpu ctxt cur m0") auto
  obtain p m2 where pc: "read_panic_cpu m1 = (p, m2)"
    by (cases "read_panic_cpu m1") auto
  obtain s m3 where sr: "nbcon_seq_read m2 = (s, m3)"
    by (cases "nbcon_seq_read m2") auto
  note s1 = steps_trans [OF steps_state_read [OF rd] steps_try_again [OF t]]
  note s2 = steps_trans [OF s1 steps_read_panic_cpu [OF pc]]
  note s3 = steps_trans [OF s2 steps_seq_read [OF sr]]
  show ?thesis
    using assms rd t pc sr s1 s3
    by (auto simp: nbcon_context_try_acquire_def split: if_splits)
qed

lemma steps_release_loop:
  "release_loop this_cpu ctxt cur m = m' \<Longrightarrow> steps state_write m m'"
proof (induction "slack cur m" arbitrary: cur m rule: less_induct)
  case less
  let ?new = "cur\<lparr>prio := NBCON_PRIO_NONE, unsafe := unsafe cur \<or> unsafe_takeover cur\<rparr>"
  obtain ok cur1 m1 where c: "nbcon_state_try_cmpxchg cur ?new m = (ok, cur1, m1)"
    by (cases "nbcon_state_try_cmpxchg cur ?new m") auto
  have s1: "steps state_write m m1" by (rule steps_cmpxchg [OF c]) simp
  show ?case
  proof (cases "nbcon_owner_matches cur this_cpu (ctxt_prio ctxt) \<and> \<not> ok")
    case True
    then have rec: "release_loop this_cpu ctxt cur1 m1 = m'"
      using less.prems c by (subst (asm) release_loop.simps) simp
    have lt: "slack cur1 m1 < slack cur m"
      using slack_cmpxchg_fail [of cur ?new m cur1 m1] True c by simp
    from less.hyps [OF lt rec] s1 show ?thesis by (rule steps_trans [rotated])
  next
    case False
    then show ?thesis
      using less.prems c s1
      by (subst (asm) release_loop.simps) (auto split: if_splits intro: steps_refl)
  qed
qed

lemma steps_release:
  assumes "nbcon_context_release this_cpu ctxt m = (ctxt', m')"
  shows "steps state_write m m'"
proof -
  obtain cur m0 where rd: "nbcon_state_read m = (cur, m0)"
    by (cases "nbcon_state_read m") auto
  have "m' = release_loop this_cpu ctxt cur m0"
    using assms rd by (simp add: nbcon_context_release_def)
  then have "steps state_write m0 m'" using steps_release_loop by simp
  with steps_state_read [OF rd] show ?thesis by (rule steps_trans)
qed

lemma steps_can_proceed:
  "nbcon_context_can_proceed this_cpu ctxt cur m = (b, ctxt', m') \<Longrightarrow> steps state_write m m'"
  by (auto simp: nbcon_context_can_proceed_def split: if_splits prod.splits
      intro: steps_refl steps_release)

lemma steps_update_unsafe_loop:
  "update_unsafe_loop this_cpu ctxt u cur m = (b, ctxt', m') \<Longrightarrow> steps state_write m m'"
proof (induction "slack cur m" arbitrary: cur m ctxt rule: less_induct)
  case less
  obtain p ctxt1 m1 where cp: "nbcon_context_can_proceed this_cpu ctxt cur m = (p, ctxt1, m1)"
    by (cases "nbcon_context_can_proceed this_cpu ctxt cur m") auto
  let ?new = "cur\<lparr>unsafe := u\<rparr>"
  obtain ok cur1 m2 where c: "nbcon_state_try_cmpxchg cur ?new m1 = (ok, cur1, m2)"
    by (cases "nbcon_state_try_cmpxchg cur ?new m1") auto
  obtain p3 ctxt3 m3 where cp3: "nbcon_context_can_proceed this_cpu ctxt1 ?new m2 = (p3, ctxt3, m3)"
    by (cases "nbcon_context_can_proceed this_cpu ctxt1 ?new m2") auto
  note s1 = steps_can_proceed [OF cp]
  have s12: "steps state_write m1 m2" by (rule steps_cmpxchg [OF c]) simp
  note s2 = steps_trans [OF s1 s12]
  note s3 = steps_trans [OF s2 steps_can_proceed [OF cp3]]
  show ?case
  proof (cases "\<not> (\<not> u \<and> unsafe_takeover cur) \<and> p \<and> \<not> ok")
    case True
    then have rec: "update_unsafe_loop this_cpu ctxt1 u cur1 m2 = (b, ctxt', m')"
      using less.prems cp c by (subst (asm) update_unsafe_loop.simps) (auto split: if_splits)
    have "m1 = m" using can_proceed_True [of this_cpu ctxt cur m ctxt1 m1] cp True by simp
    then have lt: "slack cur1 m2 < slack cur m"
      using slack_cmpxchg_fail [of cur ?new m1 cur1 m2] True c by simp
    from less.hyps [OF lt rec] s2 show ?thesis by (rule steps_trans [rotated])
  next
    case False
    then show ?thesis
      using less.prems cp c cp3 s1 s3
      by (subst (asm) update_unsafe_loop.simps) (auto split: if_splits)
  qed
qed

lemma steps_update_unsafe:
  assumes "nbcon_context_update_unsafe this_cpu ctxt u m = (b, ctxt', m')"
  shows "steps state_write m m'"
proof -
  obtain cur m0 where rd: "nbcon_state_read m = (cur, m0)"
    by (cases "nbcon_state_read m") auto
  have "update_unsafe_loop this_cpu ctxt u cur m0 = (b, ctxt', m')"
    using assms rd by (simp add: nbcon_context_update_unsafe_def)
  from steps_state_read [OF rd] steps_update_unsafe_loop [OF this]
  show ?thesis by (rule steps_trans)
qed

lemma kept_steps:
  assumes "steps state_write m m'" and "unsafe_takeover_kept m"
  shows "unsafe_takeover_kept m'"
proof -
  have "\<And>c c'. state_write c c' \<Longrightarrow> unsafe_takeover (nbcon_state c) \<Longrightarrow>
          unsafe_takeover (nbcon_state c')"
    by (auto simp: state_write_def)
  from steps_preserve [OF assms(1), of "\<lambda>c. unsafe_takeover (nbcon_state c)", OF this]
  show ?thesis using assms(2) by (simp add: unsafe_takeover_kept_def)
qed

lemma init_clears: "\<not> unsafe_takeover (nbcon_state (fst (nbcon_init first_valid_seq init_seq m)))"
  by (simp add: nbcon_init_def nbcon_state_set_def split: prod.splits)

text \<open>
  C2. Once \<^verbatim>\<open>unsafe_takeover\<close> is set, no operation of the protocol clears it:
  after a direct, requested, handover or hostile acquire, after
  \<^verbatim>\<open>nbcon_context_try_acquire\<close>, after a release, after
  \<^verbatim>\<open>nbcon_context_can_proceed\<close> and after entering or leaving an unsafe
  section the flag is still set, whatever the caller's copy of the state and
  however the calls of the other CPUs (which keep the flag, too) interleave
  with it. Only the initialisation of the console, \<^verbatim>\<open>nbcon_init\<close>, resets it.
\<close>

theorem unsafe_takeover_sticky:
  assumes "unsafe_takeover_kept m"
  shows
    "unsafe_takeover_kept (snd (snd (nbcon_context_try_acquire_direct this_cpu ctxt cur m))) \<and>
     unsafe_takeover_kept (snd (snd (nbcon_context_try_acquire_requested this_cpu ctxt cur m))) \<and>
     unsafe_takeover_kept (snd (snd (nbcon_context_try_acquire_handover this_cpu ctxt cur m))) \<and>
     unsafe_takeover_kept (snd (snd (nbcon_context_try_acquire_hostile this_cpu ctxt cur m))) \<and>
     unsafe_takeover_kept (snd (snd (nbcon_context_try_acquire this_cpu ctxt m))) \<and>
     unsafe_takeover_kept (snd (nbcon_context_release this_cpu ctxt m)) \<and>
     unsafe_takeover_kept (snd (snd (nbcon_context_can_proceed this_cpu ctxt cur m))) \<and>
     unsafe_takeover_kept (snd (snd (nbcon_context_enter_unsafe this_cpu ctxt m))) \<and>
     unsafe_takeover_kept (snd (snd (nbcon_context_exit_unsafe this_cpu ctxt m))) \<and>
     \<not> unsafe_takeover (nbcon_state (fst (nbcon_init first_valid_seq init_seq m)))"
proof -
  note k = kept_steps [OF _ assms]
  have "unsafe_takeover_kept (snd (snd (nbcon_context_try_acquire_direct this_cpu ctxt cur m)))"
    by (cases "nbcon_context_try_acquire_direct this_cpu ctxt cur m")
       (auto dest: steps_try_acquire_direct intro: k)
  moreover
  have "unsafe_takeover_kept (snd (snd (nbcon_context_try_acquire_requested this_cpu ctxt cur m)))"
    by (cases "nbcon_context_try_acquire_requested this_cpu ctxt cur m")
       (auto dest: steps_try_acquire_requested intro: k)
  moreover
  have "unsafe_takeover_kept (snd (snd (nbcon_context_try_acquire_handover this_cpu ctxt cur m)))"
    by (cases "nbcon_context_try_acquire_handover this_cpu ctxt cur m")
       (auto dest: steps_try_acquire_handover intro: k)
  moreover
  have "unsafe_takeover_kept (snd (snd (nbcon_context_try_acquire_hostile this_cpu ctxt cur m)))"
    by (cases "nbcon_context_try_acquire_hostile this_cpu ctxt cur m")
       (auto dest: steps_try_acquire_hostile intro: k)
  moreover
  have "unsafe_takeover_kept (snd (snd (nbcon_context_try_acquire this_cpu ctxt m)))"
    by (cases "nbcon_context_try_acquire this_cpu ctxt m")
       (auto dest: steps_try_acquire intro: k)
  moreover
  have "unsafe_takeover_kept (snd (nbcon_context_release this_cpu ctxt m))"
    by (cases "nbcon_context_release this_cpu ctxt m")
       (auto dest: steps_release intro: k)
  moreover
  have "unsafe_takeover_kept (snd (snd (nbcon_context_can_proceed this_cpu ctxt cur m)))"
    by (cases "nbcon_context_can_proceed this_cpu ctxt cur m")
       (auto dest: steps_can_proceed intro: k)
  moreover
  have "unsafe_takeover_kept (snd (snd (nbcon_context_enter_unsafe this_cpu ctxt m)))"
    by (cases "nbcon_context_update_unsafe this_cpu ctxt True m")
       (auto simp: nbcon_context_enter_unsafe_def dest: steps_update_unsafe intro: k)
  moreover
  have "unsafe_takeover_kept (snd (snd (nbcon_context_exit_unsafe this_cpu ctxt m)))"
    by (cases "nbcon_context_update_unsafe this_cpu ctxt False m")
       (auto simp: nbcon_context_exit_unsafe_def dest: steps_update_unsafe intro: k)
  ultimately show ?thesis
    using init_clears [of first_valid_seq init_seq m] by blast
qed

text \<open>
  A console a PANIC context on CPU 1 took over in an unsafe state: its release
  and its \<^verbatim>\<open>nbcon_context_exit_unsafe\<close> leave both \<^verbatim>\<open>unsafe_takeover\<close> and
  \<^verbatim>\<open>unsafe\<close> set.
\<close>

theorem unsafe_takeover_sticky_witness:
  "unsafe_takeover_kept example_takeover_mem \<and>
   snd (nbcon_context_release 1 (example_ctxt NBCON_PRIO_PANIC True 0) example_takeover_mem) =
     (example_console
        \<lparr>prio = NBCON_PRIO_NONE, req_prio = NBCON_PRIO_NONE, unsafe = True,
         unsafe_takeover = True, cpu = 1\<rparr>, []) \<and>
   unsafe_takeover_kept
     (snd (nbcon_context_release 1 (example_ctxt NBCON_PRIO_PANIC True 0) example_takeover_mem)) \<and>
   unsafe_takeover_kept
     (snd (snd (nbcon_context_exit_unsafe 1 (example_ctxt NBCON_PRIO_PANIC True 0)
                  example_takeover_mem)))"
proof -
  have h: "unsafe_takeover_kept example_takeover_mem"
    by (simp add: unsafe_takeover_kept_def example_takeover_mem_def example_console_def)
  have r: "snd (nbcon_context_release 1 (example_ctxt NBCON_PRIO_PANIC True 0) example_takeover_mem) =
     (example_console
        \<lparr>prio = NBCON_PRIO_NONE, req_prio = NBCON_PRIO_NONE, unsafe = True,
         unsafe_takeover = True, cpu = 1\<rparr>, [])"
    by (simp add: nbcon_context_release_def nbcon_state_read_def release_loop.simps
        nbcon_owner_matches_def nbcon_state_try_cmpxchg_def example_takeover_mem_def
        example_console_def example_ctxt_def)
  show ?thesis
    using h r unsafe_takeover_sticky [OF h, of 1 "example_ctxt NBCON_PRIO_PANIC True 0"]
    by blast
qed

subsection \<open>Checking ownership\<close>

lemma release_quiet:
  "prio (nbcon_state con) = ctxt_prio ctxt \<and> cpu (nbcon_state con) = this_cpu \<Longrightarrow>
   nbcon_context_release this_cpu ctxt (con, []) =
     (ctxt\<lparr>pbufs := None\<rparr>,
      con\<lparr>nbcon_state := (nbcon_state con)
             \<lparr>prio := NBCON_PRIO_NONE,
              unsafe := unsafe (nbcon_state con) \<or> unsafe_takeover (nbcon_state con)\<rparr>\<rparr>, [])"
  by (simp add: nbcon_context_release_def nbcon_state_read_def release_loop.simps
      nbcon_owner_matches_def nbcon_state_try_cmpxchg_def)

text \<open>
  C3. \<^verbatim>\<open>nbcon_context_can_proceed\<close> returns false, touching nothing, when the
  pair (priority, CPU) of the state no longer matches the calling context; true
  when it matches and no request is pending; true when it matches, a request is
  pending and the unsafe bit is set; and when it matches, a request is pending
  and the console is safe, it calls \<^verbatim>\<open>nbcon_context_release\<close> and returns false.
  Second conjunct: on the console's own state, with no other CPU interfering,
  that release clears the priority (and nothing else, the unsafe bit being clear
  unless \<^verbatim>\<open>unsafe_takeover\<close> is set).
\<close>

theorem can_proceed_outcome:
  "nbcon_context_can_proceed this_cpu ctxt cur m =
     (if \<not> (prio cur = ctxt_prio ctxt \<and> cpu cur = this_cpu) then (False, ctxt, m)
      else if req_prio cur = NBCON_PRIO_NONE then (True, ctxt, m)
      else if unsafe cur then (True, ctxt, m)
      else (False, nbcon_context_release this_cpu ctxt m)) \<and>
   (prio (nbcon_state con) = ctxt_prio ctxt \<and> cpu (nbcon_state con) = this_cpu \<and>
    req_prio (nbcon_state con) \<noteq> NBCON_PRIO_NONE \<and> \<not> unsafe (nbcon_state con) \<longrightarrow>
    nbcon_context_can_proceed this_cpu ctxt (nbcon_state con) (con, []) =
      (False, ctxt\<lparr>pbufs := None\<rparr>,
       con\<lparr>nbcon_state := (nbcon_state con)
              \<lparr>prio := NBCON_PRIO_NONE, unsafe := unsafe_takeover (nbcon_state con)\<rparr>\<rparr>, []))"
  using release_quiet [of con ctxt this_cpu]
  by (auto simp: nbcon_context_can_proceed_def nbcon_owner_matches_def split: prod.splits)

text \<open>
  A NORMAL owner on CPU 0 at a safe point, with an EMERGENCY request pending:
  the owner releases and is told to stop; the request stays.
\<close>

theorem can_proceed_outcome_witness:
  "nbcon_context_can_proceed 0 (example_ctxt NBCON_PRIO_NORMAL False 0)
     (example_state NBCON_PRIO_NORMAL NBCON_PRIO_EMERGENCY False 0)
     (example_console (example_state NBCON_PRIO_NORMAL NBCON_PRIO_EMERGENCY False 0), []) =
   (False, example_ctxt NBCON_PRIO_NORMAL False 0,
    example_console (example_state NBCON_PRIO_NONE NBCON_PRIO_EMERGENCY False 0), [])"
  using can_proceed_outcome
    [of 0 "example_ctxt NBCON_PRIO_NORMAL False 0"
        "example_state NBCON_PRIO_NORMAL NBCON_PRIO_EMERGENCY False 0"
        "(example_console (example_state NBCON_PRIO_NORMAL NBCON_PRIO_EMERGENCY False 0), [])"
        "example_console (example_state NBCON_PRIO_NORMAL NBCON_PRIO_EMERGENCY False 0)"]
  by (auto simp add: example_ctxt_def example_state_def example_console_def)

subsection \<open>Hostile takeover\<close>

lemma hostile_takeover_general:
  "hostile_takeover this_cpu ctxt cur m = (e, cur', m') \<Longrightarrow>
   e = OK \<and>
   nbcon_state (fst m') =
     cur'\<lparr>cpu := this_cpu, prio := ctxt_prio ctxt,
          unsafe := unsafe cur' \<or> unsafe_takeover cur',
          unsafe_takeover := unsafe_takeover cur' \<or> unsafe cur'\<rparr>"
proof (induction "slack cur m" arbitrary: cur m rule: less_induct)
  case less
  let ?new = "cur\<lparr>cpu := this_cpu, prio := ctxt_prio ctxt,
                  unsafe := unsafe cur \<or> unsafe_takeover cur,
                  unsafe_takeover := unsafe_takeover cur \<or> unsafe cur\<rparr>"
  obtain ok cur1 m1 where c: "nbcon_state_try_cmpxchg cur ?new m = (ok, cur1, m1)"
    by (cases "nbcon_state_try_cmpxchg cur ?new m") auto
  have ok: "ok \<Longrightarrow> cur1 = cur \<and> nbcon_state (fst m1) = ?new"
    using c by (auto simp: nbcon_state_try_cmpxchg_def split: prod.splits if_splits)
  show ?case
  proof (cases ok)
    case True
    then show ?thesis
      using less.prems c ok by (subst (asm) hostile_takeover.simps) auto
  next
    case False
    then have rec: "hostile_takeover this_cpu ctxt cur1 m1 = (e, cur', m')"
      using less.prems c by (subst (asm) hostile_takeover.simps) simp
    have lt: "slack cur1 m1 < slack cur m"
      using slack_cmpxchg_fail [of cur ?new m cur1 m1] False c by simp
    show ?thesis by (rule less.hyps [OF lt rec])
  qed
qed

lemma cmpxchg_fail_interfere:
  "nbcon_state_try_cmpxchg cur new m = (False, cur1, m1) \<Longrightarrow>
   m1 = interfere m \<and> cur1 = nbcon_state (fst (interfere m)) \<and> cur1 \<noteq> cur"
  by (auto simp: nbcon_state_try_cmpxchg_def split: prod.splits if_splits)

lemma hostile_takeover_tied:
  "hostile_takeover this_cpu ctxt cur m = (e, cur', m') \<Longrightarrow>
   e = OK \<and>
   (\<exists>k. cur' = (if k = 0 then cur else nbcon_state (fst ((interfere ^^ k) m))) \<and>
        (\<forall>j<k. nbcon_state (fst ((interfere ^^ Suc j) m)) \<noteq>
                 (if j = 0 then cur else nbcon_state (fst ((interfere ^^ j) m)))) \<and>
        nbcon_state_try_cmpxchg cur'
          (cur'\<lparr>cpu := this_cpu, prio := ctxt_prio ctxt,
                unsafe := unsafe cur' \<or> unsafe_takeover cur',
                unsafe_takeover := unsafe_takeover cur' \<or> unsafe cur'\<rparr>)
          ((interfere ^^ k) m) = (True, cur', m'))"
proof (induction "slack cur m" arbitrary: cur m rule: less_induct)
  case less
  let ?new = "\<lambda>c. c\<lparr>cpu := this_cpu, prio := ctxt_prio ctxt,
                      unsafe := unsafe c \<or> unsafe_takeover c,
                      unsafe_takeover := unsafe_takeover c \<or> unsafe c\<rparr>"
  obtain ok cur1 m1 where c: "nbcon_state_try_cmpxchg cur (?new cur) m = (ok, cur1, m1)"
    by (cases "nbcon_state_try_cmpxchg cur (?new cur) m") auto
  show ?case
  proof (cases ok)
    case True
    then have r: "e = OK \<and> cur' = cur1 \<and> m' = m1"
      using less.prems c by (subst (asm) hostile_takeover.simps) auto
    have "cur1 = cur"
      using c True by (auto simp: nbcon_state_try_cmpxchg_def split: prod.splits if_splits)
    then have "nbcon_state_try_cmpxchg cur' (?new cur') ((interfere ^^ 0) m) = (True, cur', m')"
      using c r True by simp
    moreover have "cur' = (if (0::nat) = 0 then cur else nbcon_state (fst ((interfere ^^ 0) m)))"
      using r \<open>cur1 = cur\<close> by simp
    ultimately show ?thesis using r by blast
  next
    case False
    then have rec: "hostile_takeover this_cpu ctxt cur1 m1 = (e, cur', m')"
      using less.prems c by (subst (asm) hostile_takeover.simps) simp
    have c': "nbcon_state_try_cmpxchg cur (?new cur) m = (False, cur1, m1)"
      using c False by simp
    have f: "m1 = interfere m" "cur1 = nbcon_state (fst (interfere m))" "cur1 \<noteq> cur"
      using cmpxchg_fail_interfere [OF c'] by blast+
    have lt: "slack cur1 m1 < slack cur m"
      using slack_cmpxchg_fail [of cur "?new cur" m cur1 m1] False c by simp
    from less.hyps [OF lt rec] obtain k where
      e: "e = OK"
      and k1: "cur' = (if k = 0 then cur1 else nbcon_state (fst ((interfere ^^ k) m1)))"
      and k2: "\<forall>j<k. nbcon_state (fst ((interfere ^^ Suc j) m1)) \<noteq>
                 (if j = 0 then cur1 else nbcon_state (fst ((interfere ^^ j) m1)))"
      and k3: "nbcon_state_try_cmpxchg cur' (?new cur') ((interfere ^^ k) m1) = (True, cur', m')"
      by blast
    have sw: "\<And>n. (interfere ^^ n) m1 = (interfere ^^ Suc n) m"
      unfolding f(1) by (simp add: funpow_swap1)
    have a1: "cur' = (if Suc k = 0 then cur else nbcon_state (fst ((interfere ^^ Suc k) m)))"
      using k1 f(2) sw [of k] by (cases k) simp_all
    have a2: "\<forall>j<Suc k. nbcon_state (fst ((interfere ^^ Suc j) m)) \<noteq>
                 (if j = 0 then cur else nbcon_state (fst ((interfere ^^ j) m)))"
    proof (intro allI impI)
      fix j assume j: "j < Suc k"
      show "nbcon_state (fst ((interfere ^^ Suc j) m)) \<noteq>
              (if j = 0 then cur else nbcon_state (fst ((interfere ^^ j) m)))"
      proof (cases j)
        case 0
        then show ?thesis using f(2,3) by simp
      next
        case (Suc i)
        then have "i < k" using j by simp
        then have "nbcon_state (fst ((interfere ^^ Suc i) m1)) \<noteq>
                 (if i = 0 then cur1 else nbcon_state (fst ((interfere ^^ i) m1)))"
          using k2 by blast
        then show ?thesis
          using Suc f(2) sw [of "Suc i"] sw [of i] by (cases i) simp_all
      qed
    qed
    have a3: "nbcon_state_try_cmpxchg cur' (?new cur') ((interfere ^^ Suc k) m) = (True, cur', m')"
      using k3 sw [of k] by simp
    show ?thesis using e a1 a2 a3 by blast
  qed
qed

lemma hostile_quiet:
  "nbcon_context_try_acquire_hostile this_cpu ctxt (nbcon_state con) (con, []) =
     (if \<not> allow_unsafe_takeover ctxt \<or> ctxt_prio ctxt \<noteq> NBCON_PRIO_PANIC
      then (EPERM, nbcon_state con, con, [])
      else (OK, nbcon_state con,
            con\<lparr>nbcon_state := (nbcon_state con)
                   \<lparr>cpu := this_cpu, prio := NBCON_PRIO_PANIC,
                    unsafe := unsafe (nbcon_state con) \<or> unsafe_takeover (nbcon_state con),
                    unsafe_takeover :=
                      unsafe_takeover (nbcon_state con) \<or> unsafe (nbcon_state con)\<rparr>\<rparr>, []))"
  by (simp add: nbcon_context_try_acquire_hostile_def hostile_takeover.simps
      nbcon_state_try_cmpxchg_def)

text \<open>
  C4. \<^verbatim>\<open>nbcon_context_try_acquire_hostile\<close> fails with \<open>EPERM\<close>, touching
  nothing, unless the context has \<^verbatim>\<open>allow_unsafe_takeover\<close> set and its
  priority is PANIC. When it is legal it always succeeds, whatever the unsafe
  bit, the owner or a pending request: the state word gets the caller's CPU and
  priority, and both \<^verbatim>\<open>unsafe\<close> and \<^verbatim>\<open>unsafe_takeover\<close> become the
  disjunction of the two bits of the word that is in memory at the moment of the
  seizure, so \<^verbatim>\<open>unsafe_takeover\<close> is set if the console was unsafe at that
  moment and neither bit is reset. First conjunct: the call on the console's own
  state with no other CPU interfering. Second conjunct: every call, whatever the
  caller's copy and whatever the other CPUs do meanwhile. The console is seized
  by the compare-and-swap that follows \<open>k\<close> failed ones, each of them with
  one step of the other CPUs in front. \<open>cur'\<close> is the caller's copy by then:
  its own at first, afterwards the word that the previous compare-and-swap found
  in memory. Each of the \<open>k\<close> compare-and-swaps before found another word
  than the caller's copy. And the compare-and-swap that expects \<open>cur'\<close>
  succeeds in the memory of that moment: the word it replaces is \<open>cur'\<close>,
  nothing but the state word is written, and the new word is computed from
  \<open>cur'\<close>. Third conjunct: the new word itself.
\<close>

theorem try_acquire_hostile_outcome:
  "nbcon_context_try_acquire_hostile this_cpu ctxt (nbcon_state con) (con, []) =
     (if \<not> allow_unsafe_takeover ctxt \<or> ctxt_prio ctxt \<noteq> NBCON_PRIO_PANIC
      then (EPERM, nbcon_state con, con, [])
      else (OK, nbcon_state con,
            con\<lparr>nbcon_state := (nbcon_state con)
                   \<lparr>cpu := this_cpu, prio := NBCON_PRIO_PANIC,
                    unsafe := unsafe (nbcon_state con) \<or> unsafe_takeover (nbcon_state con),
                    unsafe_takeover :=
                      unsafe_takeover (nbcon_state con) \<or> unsafe (nbcon_state con)\<rparr>\<rparr>, [])) \<and>
   (nbcon_context_try_acquire_hostile this_cpu ctxt cur m = (e, cur', m') \<longrightarrow>
    (if \<not> allow_unsafe_takeover ctxt \<or> ctxt_prio ctxt \<noteq> NBCON_PRIO_PANIC
     then e = EPERM \<and> cur' = cur \<and> m' = m
     else e = OK \<and>
          (\<exists>k. cur' = (if k = 0 then cur else nbcon_state (fst ((interfere ^^ k) m))) \<and>
               (\<forall>j<k. nbcon_state (fst ((interfere ^^ Suc j) m)) \<noteq>
                        (if j = 0 then cur else nbcon_state (fst ((interfere ^^ j) m)))) \<and>
               nbcon_state_try_cmpxchg cur'
                 (cur'\<lparr>cpu := this_cpu, prio := NBCON_PRIO_PANIC,
                       unsafe := unsafe cur' \<or> unsafe_takeover cur',
                       unsafe_takeover := unsafe_takeover cur' \<or> unsafe cur'\<rparr>)
                 ((interfere ^^ k) m) = (True, cur', m')))) \<and>
   (nbcon_context_try_acquire_hostile this_cpu ctxt cur m = (OK, cur', m') \<longrightarrow>
    nbcon_state (fst m') =
      cur'\<lparr>cpu := this_cpu, prio := NBCON_PRIO_PANIC,
            unsafe := unsafe cur' \<or> unsafe_takeover cur',
            unsafe_takeover := unsafe_takeover cur' \<or> unsafe cur'\<rparr>)"
proof (intro conjI impI, goal_cases)
  case 1
  show ?case by (rule hostile_quiet)
next
  case 2
  show ?case
  proof (cases "\<not> allow_unsafe_takeover ctxt \<or> ctxt_prio ctxt \<noteq> NBCON_PRIO_PANIC")
    case True
    have "e = EPERM \<and> cur' = cur \<and> m' = m"
      using 2 True by (auto simp: nbcon_context_try_acquire_hostile_def split: if_splits)
    then show ?thesis unfolding if_P [OF True] .
  next
    case False
    then have p: "ctxt_prio ctxt = NBCON_PRIO_PANIC" by simp
    have h: "hostile_takeover this_cpu ctxt cur m = (e, cur', m')"
      using 2 False by (simp add: nbcon_context_try_acquire_hostile_def)
    show ?thesis
      unfolding if_not_P [OF False] using hostile_takeover_tied [OF h] unfolding p .
  qed
next
  case 3
  show ?case
  proof (cases "\<not> allow_unsafe_takeover ctxt \<or> ctxt_prio ctxt \<noteq> NBCON_PRIO_PANIC")
    case True
    then show ?thesis
      using 3 by (auto simp: nbcon_context_try_acquire_hostile_def split: if_splits)
  next
    case False
    then have p: "ctxt_prio ctxt = NBCON_PRIO_PANIC" by simp
    have h: "hostile_takeover this_cpu ctxt cur m = (OK, cur', m')"
      using 3 False by (simp add: nbcon_context_try_acquire_hostile_def)
    show ?thesis
      using hostile_takeover_general [OF h] unfolding p by simp
  qed
qed

text \<open>
  A NORMAL owner on CPU 0 is in a safe section when the PANIC context on CPU 1
  reads the state, and enters an unsafe section before the console is seized.
  The first compare-and-swap fails, the second replaces the unsafe word: the
  console was unsafe at the moment of the seizure, and the state is marked for
  good although the caller's first copy was a safe one.
\<close>

theorem try_acquire_hostile_outcome_witness:
  "nbcon_context_try_acquire_hostile 1 (example_ctxt NBCON_PRIO_PANIC True 0)
     (example_state NBCON_PRIO_NORMAL NBCON_PRIO_NONE False 0)
     (example_console (example_state NBCON_PRIO_NORMAL NBCON_PRIO_NONE False 0),
      [nbcon_state_update (\<lambda>s. s\<lparr>unsafe := True\<rparr>)]) =
   (OK, example_state NBCON_PRIO_NORMAL NBCON_PRIO_NONE True 0,
    example_console
      \<lparr>prio = NBCON_PRIO_PANIC, req_prio = NBCON_PRIO_NONE, unsafe = True,
       unsafe_takeover = True, cpu = 1\<rparr>, []) \<and>
   nbcon_state_try_cmpxchg (example_state NBCON_PRIO_NORMAL NBCON_PRIO_NONE True 0)
     \<lparr>prio = NBCON_PRIO_PANIC, req_prio = NBCON_PRIO_NONE, unsafe = True,
      unsafe_takeover = True, cpu = 1\<rparr>
     ((interfere ^^ Suc 0)
        (example_console (example_state NBCON_PRIO_NORMAL NBCON_PRIO_NONE False 0),
         [nbcon_state_update (\<lambda>s. s\<lparr>unsafe := True\<rparr>)])) =
   (True, example_state NBCON_PRIO_NORMAL NBCON_PRIO_NONE True 0,
    example_console
      \<lparr>prio = NBCON_PRIO_PANIC, req_prio = NBCON_PRIO_NONE, unsafe = True,
       unsafe_takeover = True, cpu = 1\<rparr>, [])"
proof -
  let ?m = "(example_console (example_state NBCON_PRIO_NORMAL NBCON_PRIO_NONE False 0),
             [nbcon_state_update (\<lambda>s. s\<lparr>unsafe := True\<rparr>)])"
  let ?cur' = "example_state NBCON_PRIO_NORMAL NBCON_PRIO_NONE True 0"
  let ?m' = "(example_console
               \<lparr>prio = NBCON_PRIO_PANIC, req_prio = NBCON_PRIO_NONE, unsafe = True,
                unsafe_takeover = True, cpu = 1\<rparr>, [])"
  have run: "nbcon_context_try_acquire_hostile 1 (example_ctxt NBCON_PRIO_PANIC True 0)
               (example_state NBCON_PRIO_NORMAL NBCON_PRIO_NONE False 0) ?m = (OK, ?cur', ?m')"
    by (simp add: nbcon_context_try_acquire_hostile_def hostile_takeover.simps
        nbcon_state_try_cmpxchg_def example_ctxt_def example_state_def example_console_def)
  have cas: "nbcon_state_try_cmpxchg ?cur'
               \<lparr>prio = NBCON_PRIO_PANIC, req_prio = NBCON_PRIO_NONE, unsafe = True,
                unsafe_takeover = True, cpu = 1\<rparr> ((interfere ^^ Suc 0) ?m) = (True, ?cur', ?m')"
    by (simp add: nbcon_state_try_cmpxchg_def example_state_def example_console_def)
  note st = try_acquire_hostile_outcome
      [of 1 "example_ctxt NBCON_PRIO_PANIC True 0" "fst ?m"
          "example_state NBCON_PRIO_NORMAL NBCON_PRIO_NONE False 0" ?m OK ?cur' ?m',
       THEN conjunct2, THEN conjunct2, THEN mp, OF run]
  from st run cas show ?thesis by blast
qed

subsection \<open>Handover\<close>

text \<open>
  C5. \<^verbatim>\<open>nbcon_context_try_acquire_handover\<close> returns \<open>EBUSY\<close> without any
  access to shared memory (no request is posted, nothing is waited for) when the
  owner is on the caller's CPU, or \<^verbatim>\<open>unsafe_takeover\<close> is set, or the caller's
  \<^verbatim>\<open>spinwait_max_us\<close> is 0. Otherwise it tries to post the request with one
  compare-and-swap, and when the state word is no longer what the caller read,
  it returns \<open>EAGAIN\<close> with the word as it is now and has written nothing.
  On \<open>EAGAIN\<close> the caller, \<^verbatim>\<open>nbcon_context_try_acquire\<close>, goes back to
  \<^verbatim>\<open>try_again\<close>, that is to the direct acquire, with that state.
\<close>

theorem try_acquire_handover_early_exits:
  "(cpu cur = this_cpu \<or> unsafe_takeover cur \<or> spinwait_max_us ctxt = 0 \<longrightarrow>
    nbcon_context_try_acquire_handover this_cpu ctxt cur m = (EBUSY, cur, m)) \<and>
   (\<not> (cpu cur = this_cpu \<or> unsafe_takeover cur \<or> spinwait_max_us ctxt = 0) \<and>
    nbcon_state (fst (interfere m)) \<noteq> cur \<longrightarrow>
    nbcon_context_try_acquire_handover this_cpu ctxt cur m =
      (EAGAIN, nbcon_state (fst (interfere m)), interfere m)) \<and>
   (nbcon_context_try_acquire_direct this_cpu ctxt cur0 m0 = (EBUSY, cur, m) \<and>
    nbcon_context_try_acquire_handover this_cpu ctxt cur m = (EAGAIN, cur2, m2) \<longrightarrow>
    try_again this_cpu ctxt cur0 m0 = try_again this_cpu ctxt cur2 m2)"
proof -
  have "nbcon_context_try_acquire_direct this_cpu ctxt cur0 m0 = (EBUSY, cur, m) \<Longrightarrow>
    nbcon_context_try_acquire_handover this_cpu ctxt cur m = (EAGAIN, cur2, m2) \<Longrightarrow>
    try_again this_cpu ctxt cur0 m0 = try_again this_cpu ctxt cur2 m2"
    by (subst try_again.simps) simp
  then show ?thesis
    by (cases "interfere m")
       (auto simp: nbcon_context_try_acquire_handover_def nbcon_state_try_cmpxchg_def)
qed

text \<open>
  An EMERGENCY context on CPU 0 meets a NORMAL owner on the same CPU in an unsafe
  section: \<open>EBUSY\<close> at once, even with a budget of 500. On CPU 1, with a copy of
  the state that the owner has meanwhile left behind: \<open>EAGAIN\<close>.
\<close>

theorem try_acquire_handover_early_exits_witness:
  "nbcon_context_try_acquire_handover 0 (example_ctxt NBCON_PRIO_EMERGENCY False 500)
     (example_state NBCON_PRIO_NORMAL NBCON_PRIO_NONE True 0)
     (example_console (example_state NBCON_PRIO_NORMAL NBCON_PRIO_NONE True 0), []) =
   (EBUSY, example_state NBCON_PRIO_NORMAL NBCON_PRIO_NONE True 0,
    example_console (example_state NBCON_PRIO_NORMAL NBCON_PRIO_NONE True 0), []) \<and>
   nbcon_context_try_acquire_handover 1 (example_ctxt NBCON_PRIO_EMERGENCY False 500)
     (example_state NBCON_PRIO_NORMAL NBCON_PRIO_NONE True 0)
     (example_console (example_state NBCON_PRIO_NORMAL NBCON_PRIO_NONE False 0), []) =
   (EAGAIN, example_state NBCON_PRIO_NORMAL NBCON_PRIO_NONE False 0,
    example_console (example_state NBCON_PRIO_NORMAL NBCON_PRIO_NONE False 0), [])"
  using try_acquire_handover_early_exits
    [of "example_state NBCON_PRIO_NORMAL NBCON_PRIO_NONE True 0" 0
        "example_ctxt NBCON_PRIO_EMERGENCY False 500"
        "(example_console (example_state NBCON_PRIO_NORMAL NBCON_PRIO_NONE True 0), [])"]
    try_acquire_handover_early_exits
    [of "example_state NBCON_PRIO_NORMAL NBCON_PRIO_NONE True 0" 1
        "example_ctxt NBCON_PRIO_EMERGENCY False 500"
        "(example_console (example_state NBCON_PRIO_NORMAL NBCON_PRIO_NONE False 0), [])"]
  by (simp add: example_ctxt_def example_state_def example_console_def)

subsection \<open>Release and the pending request\<close>

lemma steps_release_cmpxchg:
  assumes "nbcon_state_try_cmpxchg cur
             (cur\<lparr>prio := NBCON_PRIO_NONE, unsafe := unsafe cur \<or> unsafe_takeover cur\<rparr>) m
           = (ok, cur', m')"
  shows "steps release_write m m'"
proof -
  obtain c es where i: "interfere m = (c, es)" by (cases "interfere m") auto
  have s: "steps release_write m (c, es)" using steps_interfere [of release_write m] i by simp
  show ?thesis
  proof (cases "nbcon_state c = cur")
    case True
    let ?c' = "c\<lparr>nbcon_state := cur\<lparr>prio := NBCON_PRIO_NONE,
                                      unsafe := unsafe cur \<or> unsafe_takeover cur\<rparr>\<rparr>"
    have m': "m' = (?c', es)"
      using True assms i by (auto simp: nbcon_state_try_cmpxchg_def)
    have "release_write c ?c'"
      using True by (simp add: release_write_def)
    then have "steps release_write (c, es) m'"
      unfolding m' by (rule steps_own) (rule steps_refl)
    with s show ?thesis by (rule steps_trans)
  next
    case False
    then have "m' = (c, es)"
      using assms i by (simp add: nbcon_state_try_cmpxchg_def)
    with s show ?thesis by simp
  qed
qed

lemma steps_release_loop_write:
  "release_loop this_cpu ctxt cur m = m' \<Longrightarrow> steps release_write m m'"
proof (induction "slack cur m" arbitrary: cur m rule: less_induct)
  case less
  let ?new = "cur\<lparr>prio := NBCON_PRIO_NONE, unsafe := unsafe cur \<or> unsafe_takeover cur\<rparr>"
  obtain ok cur1 m1 where c: "nbcon_state_try_cmpxchg cur ?new m = (ok, cur1, m1)"
    by (cases "nbcon_state_try_cmpxchg cur ?new m") auto
  note s1 = steps_release_cmpxchg [OF c]
  show ?case
  proof (cases "nbcon_owner_matches cur this_cpu (ctxt_prio ctxt) \<and> \<not> ok")
    case True
    then have rec: "release_loop this_cpu ctxt cur1 m1 = m'"
      using less.prems c by (subst (asm) release_loop.simps) simp
    have lt: "slack cur1 m1 < slack cur m"
      using slack_cmpxchg_fail [of cur ?new m cur1 m1] True c by simp
    from less.hyps [OF lt rec] s1 show ?thesis by (rule steps_trans [rotated])
  next
    case False
    then show ?thesis
      using less.prems c s1
      by (subst (asm) release_loop.simps) (auto split: if_splits intro: steps_refl)
  qed
qed

lemma release_keeps_req_prio:
  assumes "\<forall>e\<in>set (snd m). \<forall>c. req_prio (nbcon_state (e c)) = req_prio (nbcon_state c)"
  shows "req_prio (nbcon_state (fst (snd (nbcon_context_release this_cpu ctxt m)))) =
         req_prio (nbcon_state (fst m))"
proof -
  obtain cur m0 where rd: "nbcon_state_read m = (cur, m0)"
    by (cases "nbcon_state_read m") auto
  have "steps release_write m0 (release_loop this_cpu ctxt cur m0)"
    by (rule steps_release_loop_write) simp
  with steps_state_read [OF rd] have s: "steps release_write m (release_loop this_cpu ctxt cur m0)"
    by (rule steps_trans)
  have g: "\<And>c c'. release_write c c' \<Longrightarrow>
             req_prio (nbcon_state c) = req_prio (nbcon_state (fst m)) \<Longrightarrow>
             req_prio (nbcon_state c') = req_prio (nbcon_state (fst m))"
    by (simp add: release_write_def)
  have "req_prio (nbcon_state (fst (release_loop this_cpu ctxt cur m0))) =
        req_prio (nbcon_state (fst m))"
    using steps_preserve
      [OF s, of "\<lambda>c. req_prio (nbcon_state c) = req_prio (nbcon_state (fst m))", OF g] assms
    by simp
  then show ?thesis using rd by (simp add: nbcon_context_release_def)
qed

lemma requested_success:
  assumes "nbcon_context_try_acquire_requested this_cpu ctxt cur m = (OK, cur', m')"
  shows "cur' = cur \<and> prio cur = NBCON_PRIO_NONE \<and> req_prio cur = ctxt_prio ctxt \<and>
         nbcon_state (fst m') =
           cur\<lparr>prio := ctxt_prio ctxt, req_prio := NBCON_PRIO_NONE,
               unsafe := unsafe_takeover cur, cpu := this_cpu\<rparr>"
proof -
  obtain b m1 where a: "other_cpu_in_panic this_cpu m = (b, m1)"
    by (cases "other_cpu_in_panic this_cpu m") auto
  let ?new = "cur\<lparr>prio := ctxt_prio ctxt, req_prio := NBCON_PRIO_NONE,
                  unsafe := unsafe_takeover cur, cpu := this_cpu\<rparr>"
  obtain ok cur1 m2 where c: "nbcon_state_try_cmpxchg cur ?new m1 = (ok, cur1, m2)"
    by (cases "nbcon_state_try_cmpxchg cur ?new m1") auto
  have ok: "ok \<Longrightarrow> cur1 = cur \<and> nbcon_state (fst m2) = ?new"
    using c by (auto simp: nbcon_state_try_cmpxchg_def split: prod.splits if_splits)
  show ?thesis
    using assms a c ok
    by (auto simp: nbcon_context_try_acquire_requested_def nbcon_waiter_matches_def
        split: if_splits)
qed

text \<open>
  C10, as the code has it. A release by the context that still matches
  (priority, CPU) clears the priority and leaves the request as it is (first
  conjunct, on the quiet console; second conjunct, for any call, as long as the
  other CPUs leave the request alone meanwhile). \<^verbatim>\<open>nbcon_context_try_acquire_requested\<close>
  succeeds only on a state with priority NONE whose request carries the
  caller's priority, and then clears the request (third conjunct). It is not
  the only one to clear it: a successful direct acquire clears the request as
  well (fourth conjunct).
\<close>

theorem release_keeps_request:
  "(prio (nbcon_state con) = ctxt_prio ctxt \<and> cpu (nbcon_state con) = this_cpu \<longrightarrow>
    prio (nbcon_state (fst (snd (nbcon_context_release this_cpu ctxt (con, []))))) =
      NBCON_PRIO_NONE \<and>
    req_prio (nbcon_state (fst (snd (nbcon_context_release this_cpu ctxt (con, []))))) =
      req_prio (nbcon_state con)) \<and>
   ((\<forall>e\<in>set (snd m). \<forall>c. req_prio (nbcon_state (e c)) = req_prio (nbcon_state c)) \<longrightarrow>
    req_prio (nbcon_state (fst (snd (nbcon_context_release this_cpu ctxt m)))) =
      req_prio (nbcon_state (fst m))) \<and>
   (nbcon_context_try_acquire_requested this_cpu ctxt cur m = (OK, cur', m') \<longrightarrow>
    prio cur = NBCON_PRIO_NONE \<and> req_prio cur = ctxt_prio ctxt \<and>
    prio (nbcon_state (fst m')) = ctxt_prio ctxt \<and> cpu (nbcon_state (fst m')) = this_cpu \<and>
    req_prio (nbcon_state (fst m')) = NBCON_PRIO_NONE) \<and>
   (nbcon_context_try_acquire_direct this_cpu ctxt cur m = (OK, cur', m') \<longrightarrow>
    req_prio (nbcon_state (fst m')) = NBCON_PRIO_NONE)"
proof -
  have 1: "prio (nbcon_state con) = ctxt_prio ctxt \<and> cpu (nbcon_state con) = this_cpu \<longrightarrow>
    prio (nbcon_state (fst (snd (nbcon_context_release this_cpu ctxt (con, []))))) =
      NBCON_PRIO_NONE \<and>
    req_prio (nbcon_state (fst (snd (nbcon_context_release this_cpu ctxt (con, []))))) =
      req_prio (nbcon_state con)"
    using release_quiet [of con ctxt this_cpu] by auto
  have 3: "nbcon_context_try_acquire_requested this_cpu ctxt cur m = (OK, cur', m') \<longrightarrow>
    prio cur = NBCON_PRIO_NONE \<and> req_prio cur = ctxt_prio ctxt \<and>
    prio (nbcon_state (fst m')) = ctxt_prio ctxt \<and> cpu (nbcon_state (fst m')) = this_cpu \<and>
    req_prio (nbcon_state (fst m')) = NBCON_PRIO_NONE"
    using requested_success [of this_cpu ctxt cur m cur' m'] by auto
  have 4: "nbcon_context_try_acquire_direct this_cpu ctxt cur m = (OK, cur', m') \<longrightarrow>
    req_prio (nbcon_state (fst m')) = NBCON_PRIO_NONE"
    using direct_general [of this_cpu ctxt cur m OK cur' m'] by auto
  show ?thesis
    using 1 3 4 release_keeps_req_prio [of m this_cpu ctxt] by blast
qed

text \<open>
  A NORMAL owner on CPU 0 releases while an EMERGENCY request is pending and
  another CPU reads along: the request is still there, and the EMERGENCY waiter
  on CPU 1 then takes the console and clears it.
\<close>

theorem release_keeps_request_witness:
  "snd (nbcon_context_release 0 (example_ctxt NBCON_PRIO_NORMAL False 0)
          (example_console (example_state NBCON_PRIO_NORMAL NBCON_PRIO_EMERGENCY False 0), [id])) =
     (example_console (example_state NBCON_PRIO_NONE NBCON_PRIO_EMERGENCY False 0), []) \<and>
   nbcon_context_try_acquire_requested 1 (example_ctxt NBCON_PRIO_EMERGENCY False 500)
     (example_state NBCON_PRIO_NONE NBCON_PRIO_EMERGENCY False 0)
     (example_console (example_state NBCON_PRIO_NONE NBCON_PRIO_EMERGENCY False 0), []) =
     (OK, example_state NBCON_PRIO_NONE NBCON_PRIO_EMERGENCY False 0,
      example_console (example_state NBCON_PRIO_EMERGENCY NBCON_PRIO_NONE False 1), []) \<and>
   req_prio (nbcon_state (fst (snd (nbcon_context_release 0
      (example_ctxt NBCON_PRIO_NORMAL False 0)
      (example_console (example_state NBCON_PRIO_NORMAL NBCON_PRIO_EMERGENCY False 0), [id])))))
     = NBCON_PRIO_EMERGENCY"
proof -
  have r: "snd (nbcon_context_release 0 (example_ctxt NBCON_PRIO_NORMAL False 0)
          (example_console (example_state NBCON_PRIO_NORMAL NBCON_PRIO_EMERGENCY False 0), [id])) =
     (example_console (example_state NBCON_PRIO_NONE NBCON_PRIO_EMERGENCY False 0), [])"
    by (simp add: nbcon_context_release_def nbcon_state_read_def release_loop.simps
        nbcon_owner_matches_def nbcon_state_try_cmpxchg_def
        example_console_def example_ctxt_def example_state_def)
  have q: "nbcon_context_try_acquire_requested 1 (example_ctxt NBCON_PRIO_EMERGENCY False 500)
     (example_state NBCON_PRIO_NONE NBCON_PRIO_EMERGENCY False 0)
     (example_console (example_state NBCON_PRIO_NONE NBCON_PRIO_EMERGENCY False 0), []) =
     (OK, example_state NBCON_PRIO_NONE NBCON_PRIO_EMERGENCY False 0,
      example_console (example_state NBCON_PRIO_EMERGENCY NBCON_PRIO_NONE False 1), [])"
    by (simp add: nbcon_context_try_acquire_requested_def other_cpu_in_panic_def
        nbcon_waiter_matches_def nbcon_state_try_cmpxchg_def
        example_console_def example_ctxt_def example_state_def)
  have e: "\<forall>e\<in>set (snd (example_console (example_state NBCON_PRIO_NORMAL NBCON_PRIO_EMERGENCY False 0), [id::shared \<Rightarrow> shared])).
             \<forall>c. req_prio (nbcon_state (e c)) = req_prio (nbcon_state c)"
    by simp
  show ?thesis
    using r q e release_keeps_request
      [of "example_console (example_state NBCON_PRIO_NORMAL NBCON_PRIO_EMERGENCY False 0)"
          "example_ctxt NBCON_PRIO_NORMAL False 0" 0
          "(example_console (example_state NBCON_PRIO_NORMAL NBCON_PRIO_EMERGENCY False 0), [id])"
          "example_state NBCON_PRIO_NONE NBCON_PRIO_EMERGENCY False 0"]
    by (simp add: example_console_def example_state_def)
qed

text \<open>
  Against C10 as stated: the NORMAL owner has released and the request of an
  EMERGENCY waiter is pending. A PANIC context on CPU 2 takes the console
  directly, and the request is gone, though the waiter has not acquired.
\<close>

theorem release_keeps_request_counterexample:
  "nbcon_context_try_acquire_direct 2 (example_ctxt NBCON_PRIO_PANIC False 0)
     (example_state NBCON_PRIO_NONE NBCON_PRIO_EMERGENCY False 0)
     (example_console (example_state NBCON_PRIO_NONE NBCON_PRIO_EMERGENCY False 0), []) =
   (OK, example_state NBCON_PRIO_NONE NBCON_PRIO_EMERGENCY False 0,
    example_console (example_state NBCON_PRIO_PANIC NBCON_PRIO_NONE False 2), [])"
  by (simp add: nbcon_context_try_acquire_direct.simps other_cpu_in_panic_def
      nbcon_state_try_cmpxchg_def example_console_def example_ctxt_def example_state_def)

subsection \<open>The context's sequence number\<close>

text \<open>The ownership calls leave the context's sequence number alone.\<close>

lemma release_seq: "seq (fst (nbcon_context_release this_cpu ctxt m)) = seq ctxt"
  by (simp add: nbcon_context_release_def split: prod.splits)

lemma can_proceed_seq:
  "seq (fst (snd (nbcon_context_can_proceed this_cpu ctxt cur m))) = seq ctxt"
  using release_seq [of this_cpu ctxt m]
  by (auto simp: nbcon_context_can_proceed_def split: prod.splits)

lemma update_unsafe_loop_seq:
  "seq (fst (snd (update_unsafe_loop this_cpu ctxt u cur m))) = seq ctxt"
proof (induction "slack cur m" arbitrary: cur m ctxt rule: less_induct)
  case less
  obtain p ctxt1 m1 where cp: "nbcon_context_can_proceed this_cpu ctxt cur m = (p, ctxt1, m1)"
    by (cases "nbcon_context_can_proceed this_cpu ctxt cur m") auto
  have s1: "seq ctxt1 = seq ctxt"
    using can_proceed_seq [of this_cpu ctxt cur m] cp by simp
  let ?new = "cur\<lparr>unsafe := u\<rparr>"
  obtain ok cur1 m2 where c: "nbcon_state_try_cmpxchg cur ?new m1 = (ok, cur1, m2)"
    by (cases "nbcon_state_try_cmpxchg cur ?new m1") auto
  show ?case
  proof (cases "\<not> (\<not> u \<and> unsafe_takeover cur) \<and> p \<and> \<not> ok")
    case True
    then have rec: "update_unsafe_loop this_cpu ctxt u cur m =
                    update_unsafe_loop this_cpu ctxt1 u cur1 m2"
      using cp c by (subst update_unsafe_loop.simps) (auto split: if_splits)
    have "m1 = m" using can_proceed_True [of this_cpu ctxt cur m ctxt1 m1] cp True by simp
    then have lt: "slack cur1 m2 < slack cur m"
      using slack_cmpxchg_fail [of cur ?new m1 cur1 m2] True c by simp
    show ?thesis using less.hyps [OF lt, of ctxt1] rec s1 by simp
  next
    case False
    then show ?thesis
      using cp c s1 can_proceed_seq [of this_cpu ctxt1 ?new m2]
      by (subst update_unsafe_loop.simps) (auto split: if_splits)
  qed
qed

lemma update_unsafe_seq:
  "seq (fst (snd (nbcon_context_update_unsafe this_cpu ctxt u m))) = seq ctxt"
  by (simp add: nbcon_context_update_unsafe_def update_unsafe_loop_seq split: prod.splits)

subsection \<open>The emitter on a quiet console\<close>

lemma update_unsafe_quiet:
  "owned_quietly (ctxt_prio ctxt) this_cpu (nbcon_state c) \<Longrightarrow>
   nbcon_context_update_unsafe this_cpu ctxt u (c, []) =
     (True, ctxt,
      c\<lparr>nbcon_state := (nbcon_state c)
           \<lparr>unsafe := u \<or> unsafe (nbcon_state c) \<and> unsafe_takeover (nbcon_state c)\<rparr>\<rparr>, [])"
  by (cases "\<not> u \<and> unsafe_takeover (nbcon_state c)")
     (auto simp: nbcon_context_update_unsafe_def nbcon_state_read_def update_unsafe_loop.simps
        nbcon_context_can_proceed_def nbcon_owner_matches_def nbcon_state_try_cmpxchg_def
        owned_quietly_def)

lemma owned_quietly_unsafe [simp]:
  "owned_quietly p this_cpu st \<Longrightarrow>
   owned_quietly p this_cpu (st\<lparr>unsafe := u \<or> unsafe st \<and> unsafe_takeover st\<rparr>)"
  by (auto simp: owned_quietly_def)

lemma owned_quietly_enter [simp]:
  "owned_quietly p this_cpu st \<Longrightarrow> owned_quietly p this_cpu (st\<lparr>unsafe := True\<rparr>)"
  by (auto simp: owned_quietly_def)

lemma owned_quietly_exit [simp]:
  "owned_quietly p this_cpu st \<Longrightarrow> owned_quietly p this_cpu (st\<lparr>unsafe := unsafe_takeover st\<rparr>)"
  by (auto simp: owned_quietly_def)

lemma emit_update_con_quiet:
  assumes "owned_quietly (ctxt_prio (wctxt_ctxt wctxt)) this_cpu (nbcon_state c)"
  shows "emit_update_con this_cpu wctxt pmsg dropped_now con_dropped (c, []) =
     (True,
      wctxt\<lparr>wctxt_ctxt := (wctxt_ctxt wctxt)
               \<lparr>seq := (if nbcon_seq c = seq (wctxt_ctxt wctxt) then pmsg_seq pmsg + 1
                        else nbcon_seq c)\<rparr>\<rparr>,
      c\<lparr>nbcon_state := (nbcon_state c)\<lparr>unsafe := unsafe_takeover (nbcon_state c)\<rparr>,
        dropped := (if dropped_now \<noteq> con_dropped then dropped_now else dropped c),
        nbcon_seq := (if nbcon_seq c = seq (wctxt_ctxt wctxt) then pmsg_seq pmsg + 1
                      else nbcon_seq c)\<rparr>, [])"
proof -
  let ?st = "nbcon_state c"
  let ?c1 = "c\<lparr>nbcon_state := ?st\<lparr>unsafe := True\<rparr>\<rparr>"
  have e: "nbcon_context_enter_unsafe this_cpu (wctxt_ctxt wctxt) (c, []) =
           (True, wctxt_ctxt wctxt, ?c1, [])"
    using update_unsafe_quiet [OF assms, of True] by (simp add: nbcon_context_enter_unsafe_def)
  have x: "\<And>(ctxt' :: nbcon_context) (c' :: shared).
             ctxt_prio ctxt' = ctxt_prio (wctxt_ctxt wctxt) \<Longrightarrow>
             nbcon_state c' = ?st\<lparr>unsafe := True\<rparr> \<Longrightarrow>
             nbcon_context_exit_unsafe this_cpu ctxt' (c', []) =
               (True, ctxt', c'\<lparr>nbcon_state := ?st\<lparr>unsafe := unsafe_takeover ?st\<rparr>\<rparr>, [])"
  proof -
    fix ctxt' :: nbcon_context and c' :: shared
    assume p: "ctxt_prio ctxt' = ctxt_prio (wctxt_ctxt wctxt)"
      and st: "nbcon_state c' = ?st\<lparr>unsafe := True\<rparr>"
    have "owned_quietly (ctxt_prio ctxt') this_cpu (nbcon_state c')"
      using assms p st by simp
    from update_unsafe_quiet [OF this, of False]
    show "nbcon_context_exit_unsafe this_cpu ctxt' (c', []) =
               (True, ctxt', c'\<lparr>nbcon_state := ?st\<lparr>unsafe := unsafe_takeover ?st\<rparr>\<rparr>, [])"
      by (simp add: nbcon_context_exit_unsafe_def st)
  qed
  show ?thesis
    by (simp add: emit_update_con_def e x write_dropped_def nbcon_seq_try_update_def
        nbcon_seq_read_def)
qed

lemma enter_unsafe_quiet2:
  "owned_quietly (ctxt_prio ctxt) this_cpu (nbcon_state c) \<Longrightarrow>
   nbcon_context_enter_unsafe this_cpu ctxt (c, id # id # es) =
     (True, ctxt, c\<lparr>nbcon_state := (nbcon_state c)\<lparr>unsafe := True\<rparr>\<rparr>, es)"
  by (auto simp: nbcon_context_enter_unsafe_def nbcon_context_update_unsafe_def
      nbcon_state_read_def update_unsafe_loop.simps
      nbcon_context_can_proceed_def nbcon_owner_matches_def nbcon_state_try_cmpxchg_def
      owned_quietly_def)

lemma emit_write_quiet:
  assumes "owned_quietly (ctxt_prio (wctxt_ctxt wctxt)) this_cpu (nbcon_state c)"
    and "(if use_atomic then write_atomic cons else write_thread cons) = Some write"
    and "outbuf_len pmsg \<noteq> 0"
  shows "emit_write this_cpu cons use_atomic wctxt pmsg dropped_now con_dropped (c, []) =
     (case write (wctxt\<lparr>outbuf := Some (pmsg_outbuf pmsg), len := outbuf_len pmsg,
                        wctxt_unsafe_takeover := unsafe_takeover (nbcon_state c)\<rparr>)
                 (c\<lparr>nbcon_state := (nbcon_state c)
                      \<lparr>unsafe := unsafe (nbcon_state c) \<and> unsafe_takeover (nbcon_state c)\<rparr>\<rparr>,
                  []) of
        (w1, m3) \<Rightarrow> emit_driver_done this_cpu w1 pmsg con_dropped m3)"
  using assms
  by (simp add: emit_write_def nbcon_context_exit_unsafe_def update_unsafe_quiet
      nbcon_state_read_def)

lemma emit_write_skip_quiet:
  assumes "owned_quietly (ctxt_prio (wctxt_ctxt wctxt)) this_cpu (nbcon_state c)"
    and "outbuf_len pmsg = 0"
  shows "emit_write this_cpu cons use_atomic wctxt pmsg dropped_now con_dropped (c, []) =
     emit_update_con this_cpu wctxt pmsg dropped_now con_dropped
       (c\<lparr>nbcon_state := (nbcon_state c)
            \<lparr>unsafe := unsafe (nbcon_state c) \<and> unsafe_takeover (nbcon_state c)\<rparr>\<rparr>, [])"
  using assms
  by (simp add: emit_write_def nbcon_context_exit_unsafe_def update_unsafe_quiet)

lemma pmsg_seq_prepend_replay [simp]:
  "pmsg_seq (console_prepend_replay pmsg) = pmsg_seq pmsg"
  by (simp add: console_prepend_replay_def)

lemma pmsg_seq_with_dropped [simp]:
  "pmsg_seq (with_dropped cons con_dropped pmsg0) = pmsg_seq pmsg0"
  by (simp add: with_dropped_def console_prepend_dropped_def)

lemma emit_replay_quiet:
  assumes q: "owned_quietly (ctxt_prio (wctxt_ctxt wctxt)) this_cpu (nbcon_state c)"
    and p: "prb (seq (wctxt_ctxt wctxt)) (con_extended cons) = Some pmsg0"
    and w: "(if use_atomic then write_atomic cons else write_thread cons) = Some write"
    and r: "nbcon_prev_seq c = pmsg_seq pmsg0"
  shows "nbcon_emit_next_record this_cpu cons prb use_atomic wctxt (c, []) =
     (case write (wctxt\<lparr>wctxt_ctxt := (wctxt_ctxt wctxt)\<lparr>backlog := True\<rparr>,
                        outbuf := Some (Replay_notice #
                                        pmsg_outbuf (with_dropped cons (dropped c) pmsg0)),
                        len := outbuf_len (with_dropped cons (dropped c) pmsg0) + 1,
                        wctxt_unsafe_takeover := unsafe_takeover (nbcon_state c)\<rparr>)
                 (c\<lparr>nbcon_state := (nbcon_state c)
                      \<lparr>unsafe := unsafe_takeover (nbcon_state c)\<rparr>\<rparr>, []) of
        (w1, m3) \<Rightarrow>
          emit_driver_done this_cpu w1
            (console_prepend_replay (with_dropped cons (dropped c) pmsg0)) (dropped c) m3)"
proof -
  let ?pmsg = "with_dropped cons (dropped c) pmsg0"
  let ?c1 = "c\<lparr>nbcon_state := (nbcon_state c)\<lparr>unsafe := True\<rparr>\<rparr>"
  let ?w1 = "wctxt\<lparr>wctxt_ctxt := (wctxt_ctxt wctxt)\<lparr>backlog := True\<rparr>\<rparr>"
  have q1: "owned_quietly (ctxt_prio (wctxt_ctxt ?w1)) this_cpu (nbcon_state ?c1)"
    using q by simp
  have l: "outbuf_len (console_prepend_replay ?pmsg) \<noteq> 0"
    by (simp add: console_prepend_replay_def)
  have "nbcon_emit_next_record this_cpu cons prb use_atomic wctxt (c, []) =
        emit_write this_cpu cons use_atomic ?w1 (console_prepend_replay ?pmsg)
          (dropped c + pmsg_dropped pmsg0) (dropped c) (?c1, [])"
    using q p r
    by (simp add: nbcon_emit_next_record_def nbcon_context_enter_unsafe_def update_unsafe_quiet
        printk_get_next_message_def read_dropped_def read_prev_seq_def Let_def
        with_dropped_def console_prepend_dropped_def)
  also have "\<dots> =
     (case write (?w1\<lparr>outbuf := Some (pmsg_outbuf (console_prepend_replay ?pmsg)),
                      len := outbuf_len (console_prepend_replay ?pmsg),
                      wctxt_unsafe_takeover := unsafe_takeover (nbcon_state ?c1)\<rparr>)
                 (?c1\<lparr>nbcon_state := (nbcon_state ?c1)
                        \<lparr>unsafe := unsafe (nbcon_state ?c1) \<and>
                                   unsafe_takeover (nbcon_state ?c1)\<rparr>\<rparr>, []) of
        (w1, m3) \<Rightarrow> emit_driver_done this_cpu w1 (console_prepend_replay ?pmsg) (dropped c) m3)"
    by (rule emit_write_quiet [OF q1 w l])
  finally show ?thesis
    by (simp add: console_prepend_replay_def)
qed

lemma emit_first_quiet:
  assumes q: "owned_quietly (ctxt_prio (wctxt_ctxt wctxt)) this_cpu (nbcon_state c)"
    and p: "prb (seq (wctxt_ctxt wctxt)) (con_extended cons) = Some pmsg0"
    and r: "nbcon_prev_seq c \<noteq> pmsg_seq pmsg0"
  shows "nbcon_emit_next_record this_cpu cons prb use_atomic wctxt (c, []) =
         emit_write this_cpu cons use_atomic
           (wctxt\<lparr>wctxt_ctxt := (wctxt_ctxt wctxt)\<lparr>backlog := True\<rparr>\<rparr>)
           (with_dropped cons (dropped c) pmsg0)
           (dropped c + pmsg_dropped pmsg0) (dropped c)
           (c\<lparr>nbcon_state := (nbcon_state c)\<lparr>unsafe := True\<rparr>,
              nbcon_prev_seq := pmsg_seq pmsg0\<rparr>, [])"
  using q p r
  by (auto simp: nbcon_emit_next_record_def nbcon_context_enter_unsafe_def update_unsafe_quiet
      printk_get_next_message_def read_dropped_def read_prev_seq_def Let_def
      with_dropped_def console_prepend_dropped_def nbcon_state_read_def
      nbcon_context_can_proceed_def nbcon_owner_matches_def prev_seq_try_cmpxchg_def
      owned_quietly_def)

lemma emit_no_replay_quiet:
  assumes q: "owned_quietly (ctxt_prio (wctxt_ctxt wctxt)) this_cpu (nbcon_state c)"
    and p: "prb (seq (wctxt_ctxt wctxt)) (con_extended cons) = Some pmsg0"
    and w: "(if use_atomic then write_atomic cons else write_thread cons) = Some write"
    and r: "nbcon_prev_seq c \<noteq> pmsg_seq pmsg0"
    and l: "outbuf_len (with_dropped cons (dropped c) pmsg0) \<noteq> 0"
  shows "nbcon_emit_next_record this_cpu cons prb use_atomic wctxt (c, []) =
     (case write (wctxt\<lparr>wctxt_ctxt := (wctxt_ctxt wctxt)\<lparr>backlog := True\<rparr>,
                        outbuf := Some (pmsg_outbuf (with_dropped cons (dropped c) pmsg0)),
                        len := outbuf_len (with_dropped cons (dropped c) pmsg0),
                        wctxt_unsafe_takeover := unsafe_takeover (nbcon_state c)\<rparr>)
                 (c\<lparr>nbcon_prev_seq := pmsg_seq pmsg0,
                    nbcon_state := (nbcon_state c)
                      \<lparr>unsafe := unsafe_takeover (nbcon_state c)\<rparr>\<rparr>, []) of
        (w1, m3) \<Rightarrow>
          emit_driver_done this_cpu w1 (with_dropped cons (dropped c) pmsg0) (dropped c) m3)"
proof -
  let ?pmsg = "with_dropped cons (dropped c) pmsg0"
  let ?c1 = "c\<lparr>nbcon_state := (nbcon_state c)\<lparr>unsafe := True\<rparr>,
               nbcon_prev_seq := pmsg_seq pmsg0\<rparr>"
  let ?w1 = "wctxt\<lparr>wctxt_ctxt := (wctxt_ctxt wctxt)\<lparr>backlog := True\<rparr>\<rparr>"
  have q1: "owned_quietly (ctxt_prio (wctxt_ctxt ?w1)) this_cpu (nbcon_state ?c1)"
    using q by simp
  have "nbcon_emit_next_record this_cpu cons prb use_atomic wctxt (c, []) =
        emit_write this_cpu cons use_atomic ?w1 ?pmsg
          (dropped c + pmsg_dropped pmsg0) (dropped c) (?c1, [])"
    using q p r by (rule emit_first_quiet)
  also have "\<dots> =
     (case write (?w1\<lparr>outbuf := Some (pmsg_outbuf ?pmsg), len := outbuf_len ?pmsg,
                      wctxt_unsafe_takeover := unsafe_takeover (nbcon_state ?c1)\<rparr>)
                 (?c1\<lparr>nbcon_state := (nbcon_state ?c1)
                        \<lparr>unsafe := unsafe (nbcon_state ?c1) \<and>
                                   unsafe_takeover (nbcon_state ?c1)\<rparr>\<rparr>, []) of
        (w1, m3) \<Rightarrow> emit_driver_done this_cpu w1 ?pmsg (dropped c) m3)"
    by (rule emit_write_quiet [OF q1 w l])
  finally show ?thesis by simp
qed

lemma emit_ownership_lost:
  assumes q: "owned_quietly (ctxt_prio (wctxt_ctxt wctxt)) this_cpu (nbcon_state c)"
    and p: "prb (seq (wctxt_ctxt wctxt)) (con_extended cons) = Some pmsg0"
    and r: "nbcon_prev_seq c \<noteq> pmsg_seq pmsg0"
    and lost: "\<not> nbcon_owner_matches st' this_cpu (ctxt_prio (wctxt_ctxt wctxt))"
  shows "nbcon_emit_next_record this_cpu cons prb use_atomic wctxt
           (c, [id, id, id, id, nbcon_state_update (\<lambda>_. st')]) =
         (False, wctxt\<lparr>wctxt_ctxt := (wctxt_ctxt wctxt)\<lparr>backlog := True\<rparr>\<rparr>,
          c\<lparr>nbcon_state := st'\<rparr>, [])"
  using q p r lost
  by (simp add: nbcon_emit_next_record_def enter_unsafe_quiet2
      printk_get_next_message_def read_dropped_def read_prev_seq_def Let_def
      with_dropped_def console_prepend_dropped_def nbcon_state_read_def
      nbcon_context_can_proceed_def)

subsection \<open>Replay marking\<close>

lemma prev_seq_alone_interfere:
  "prev_seq_alone m \<Longrightarrow>
   prev_seq_alone (interfere m) \<and> nbcon_prev_seq (fst (interfere m)) = nbcon_prev_seq (fst m)"
  by (cases m rule: interfere.cases) (auto simp: prev_seq_alone_def)

lemma prev_seq_alone_steps:
  "steps state_write m m' \<Longrightarrow> prev_seq_alone m \<Longrightarrow>
   prev_seq_alone m' \<and> nbcon_prev_seq (fst m') = nbcon_prev_seq (fst m)"
  by (induction rule: steps.induct) (auto simp: prev_seq_alone_def state_write_def)

lemma prev_seq_alone_reads:
  "prev_seq_alone m \<Longrightarrow> prev_seq_alone (snd (nbcon_state_read m)) \<and>
     nbcon_prev_seq (fst (snd (nbcon_state_read m))) = nbcon_prev_seq (fst m)"
  "prev_seq_alone m \<Longrightarrow> prev_seq_alone (snd (read_dropped m)) \<and>
     nbcon_prev_seq (fst (snd (read_dropped m))) = nbcon_prev_seq (fst m)"
  "prev_seq_alone m \<Longrightarrow> prev_seq_alone (snd (read_prev_seq m)) \<and>
     nbcon_prev_seq (fst (snd (read_prev_seq m))) = nbcon_prev_seq (fst m) \<and>
     fst (read_prev_seq m) = nbcon_prev_seq (fst m)"
  "prev_seq_alone m \<Longrightarrow> prev_seq_alone (write_dropped v m) \<and>
     nbcon_prev_seq (fst (write_dropped v m)) = nbcon_prev_seq (fst m)"
  "prev_seq_alone m \<Longrightarrow> prev_seq_alone (snd (nbcon_seq_try_update ctxt new_seq m)) \<and>
     nbcon_prev_seq (fst (snd (nbcon_seq_try_update ctxt new_seq m))) = nbcon_prev_seq (fst m)"
  "prev_seq_alone m \<Longrightarrow> prev_seq_alone (prev_seq_try_cmpxchg (nbcon_prev_seq (fst m)) new m) \<and>
     nbcon_prev_seq (fst (prev_seq_try_cmpxchg (nbcon_prev_seq (fst m)) new m)) = new"
proof -
  obtain c es where i: "interfere m = (c, es)" by (cases "interfere m") auto
  obtain c2 es2 where i2: "interfere (c, es) = (c2, es2)" by (cases "interfere (c, es)") auto
  assume a: "prev_seq_alone m"
  have a1: "prev_seq_alone (c, es)" "nbcon_prev_seq c = nbcon_prev_seq (fst m)"
    using prev_seq_alone_interfere [OF a] i by simp_all
  have a2: "prev_seq_alone (c2, es2)" "nbcon_prev_seq c2 = nbcon_prev_seq (fst m)"
    using prev_seq_alone_interfere [OF a1(1)] i2 a1(2) by simp_all
  show "prev_seq_alone (snd (nbcon_state_read m)) \<and>
     nbcon_prev_seq (fst (snd (nbcon_state_read m))) = nbcon_prev_seq (fst m)"
    using a1 by (simp add: nbcon_state_read_def i)
  show "prev_seq_alone (snd (read_dropped m)) \<and>
     nbcon_prev_seq (fst (snd (read_dropped m))) = nbcon_prev_seq (fst m)"
    using a1 by (simp add: read_dropped_def i)
  show "prev_seq_alone (snd (read_prev_seq m)) \<and>
     nbcon_prev_seq (fst (snd (read_prev_seq m))) = nbcon_prev_seq (fst m) \<and>
     fst (read_prev_seq m) = nbcon_prev_seq (fst m)"
    using a1 by (simp add: read_prev_seq_def i)
  show "prev_seq_alone (write_dropped v m) \<and>
     nbcon_prev_seq (fst (write_dropped v m)) = nbcon_prev_seq (fst m)"
    using a1 by (simp add: write_dropped_def i prev_seq_alone_def)
  have "nbcon_seq_try_update ctxt new_seq m =
          (if nbcon_seq c = seq ctxt then (ctxt\<lparr>seq := new_seq\<rparr>, c\<lparr>nbcon_seq := new_seq\<rparr>, es)
           else (ctxt\<lparr>seq := nbcon_seq c2\<rparr>, c2, es2))"
    unfolding nbcon_seq_try_update_def nbcon_seq_read_def i prod.case i2 by simp
  then show "prev_seq_alone (snd (nbcon_seq_try_update ctxt new_seq m)) \<and>
     nbcon_prev_seq (fst (snd (nbcon_seq_try_update ctxt new_seq m))) = nbcon_prev_seq (fst m)"
    using a1 a2 by (simp add: prev_seq_alone_def)
  show "prev_seq_alone (prev_seq_try_cmpxchg (nbcon_prev_seq (fst m)) new m) \<and>
     nbcon_prev_seq (fst (prev_seq_try_cmpxchg (nbcon_prev_seq (fst m)) new m)) = new"
    using a1 by (simp add: prev_seq_try_cmpxchg_def i prev_seq_alone_def)
qed

lemma prev_seq_alone_update_unsafe:
  assumes "nbcon_context_update_unsafe this_cpu ctxt u m = (b, ctxt', m')" and "prev_seq_alone m"
  shows "prev_seq_alone m' \<and> nbcon_prev_seq (fst m') = nbcon_prev_seq (fst m) \<and>
         seq ctxt' = seq ctxt"
  using prev_seq_alone_steps [OF steps_update_unsafe [OF assms(1)] assms(2)]
    update_unsafe_seq [of this_cpu ctxt u m] assms(1)
  by simp

lemma emit_update_con_outbuf:
  assumes r: "emit_update_con this_cpu wctxt pmsg dropped_now con_dropped m = (b, w', m')"
    and a: "prev_seq_alone m"
  shows "nbcon_prev_seq (fst m') = nbcon_prev_seq (fst m) \<and> outbuf w' = outbuf wctxt"
proof -
  obtain b1 ctxt1 m1 where e: "nbcon_context_update_unsafe this_cpu (wctxt_ctxt wctxt) True m =
                                 (b1, ctxt1, m1)"
    by (cases "nbcon_context_update_unsafe this_cpu (wctxt_ctxt wctxt) True m") auto
  note a1 = prev_seq_alone_update_unsafe [OF e a]
  let ?m2 = "if dropped_now \<noteq> con_dropped then write_dropped dropped_now m1 else m1"
  have a2: "prev_seq_alone ?m2 \<and> nbcon_prev_seq (fst ?m2) = nbcon_prev_seq (fst m)"
    using a1 prev_seq_alone_reads(4) [of m1 dropped_now] by simp
  obtain ctxt2 m3 where t: "nbcon_seq_try_update ctxt1 (pmsg_seq pmsg + 1) ?m2 = (ctxt2, m3)"
    by (cases "nbcon_seq_try_update ctxt1 (pmsg_seq pmsg + 1) ?m2") auto
  have a3: "prev_seq_alone m3 \<and> nbcon_prev_seq (fst m3) = nbcon_prev_seq (fst m)"
    using prev_seq_alone_reads(5) [of ?m2 ctxt1 "pmsg_seq pmsg + 1"] a2 t by simp
  obtain b4 ctxt3 m4 where x: "nbcon_context_update_unsafe this_cpu ctxt2 False m3 =
                                 (b4, ctxt3, m4)"
    by (cases "nbcon_context_update_unsafe this_cpu ctxt2 False m3") auto
  have a4: "nbcon_prev_seq (fst m4) = nbcon_prev_seq (fst m)"
    using prev_seq_alone_update_unsafe [OF x] a3 by simp
  show ?thesis
    using r e t x a1 a4
    by (auto simp: emit_update_con_def nbcon_context_enter_unsafe_def
        nbcon_context_exit_unsafe_def split: if_splits)
qed

lemma emit_write_outbuf:
  assumes r: "emit_write this_cpu cons use_atomic wctxt pmsg dropped_now con_dropped m =
                (True, w', m')"
    and l: "outbuf_len pmsg \<noteq> 0"
    and a: "prev_seq_alone m"
    and d: "driver_leaves_prev_seq cons"
  shows "nbcon_prev_seq (fst m') = nbcon_prev_seq (fst m) \<and> outbuf w' = Some (pmsg_outbuf pmsg)"
proof -
  obtain b ctxt1 m1 where e: "nbcon_context_update_unsafe this_cpu (wctxt_ctxt wctxt) False m =
                                (b, ctxt1, m1)"
    by (cases "nbcon_context_update_unsafe this_cpu (wctxt_ctxt wctxt) False m") auto
  note a1 = prev_seq_alone_update_unsafe [OF e a]
  have b: "b"
    using r e by (auto simp: emit_write_def nbcon_context_exit_unsafe_def split: if_splits)
  obtain cur m2 where rd: "nbcon_state_read m1 = (cur, m2)"
    by (cases "nbcon_state_read m1") auto
  have a2: "prev_seq_alone m2 \<and> nbcon_prev_seq (fst m2) = nbcon_prev_seq (fst m)"
    using prev_seq_alone_reads(1) [of m1] a1 rd by simp
  let ?W = "wctxt\<lparr>wctxt_ctxt := ctxt1, outbuf := Some (pmsg_outbuf pmsg),
                  len := outbuf_len pmsg, wctxt_unsafe_takeover := unsafe_takeover cur\<rparr>"
  obtain wcb where cb: "(if use_atomic then write_atomic cons else write_thread cons) = Some wcb"
    using r e b l rd
    by (cases "if use_atomic then write_atomic cons else write_thread cons")
       (auto simp: emit_write_def nbcon_context_exit_unsafe_def split: prod.splits)
  then have mem: "wcb \<in> callbacks cons"
    by (auto simp: callbacks_def split: if_splits)
  obtain w1 m3 where wr: "wcb ?W m2 = (w1, m3)" by (cases "wcb ?W m2") auto
  have dr: "(outbuf (fst (wcb ?W m2)) = None \<or> outbuf (fst (wcb ?W m2)) = outbuf ?W) \<and>
        (prev_seq_alone m2 \<longrightarrow>
         prev_seq_alone (snd (wcb ?W m2)) \<and>
         nbcon_prev_seq (fst (snd (wcb ?W m2))) = nbcon_prev_seq (fst m2))"
    using d mem unfolding driver_leaves_prev_seq_def by blast
  then have a3: "prev_seq_alone m3 \<and> nbcon_prev_seq (fst m3) = nbcon_prev_seq (fst m)"
    using wr a2 by simp
  have dd: "emit_driver_done this_cpu w1 pmsg con_dropped m3 = (True, w', m')"
    using r e b l rd cb wr by (simp add: emit_write_def nbcon_context_exit_unsafe_def)
  then have o: "outbuf w1 \<noteq> None"
    by (auto simp: emit_driver_done_def split: if_splits prod.splits)
  then have o1: "outbuf w1 = Some (pmsg_outbuf pmsg)"
    using dr wr by auto
  have "emit_update_con this_cpu w1 pmsg 0 con_dropped m3 = (True, w', m')"
    using dd o by (simp add: emit_driver_done_def)
  from emit_update_con_outbuf [OF this] a3 o1 show ?thesis by simp
qed

lemma emit_true_replay:
  assumes r: "nbcon_emit_next_record this_cpu cons prb use_atomic wctxt m = (True, w', m')"
    and p: "prb (seq (wctxt_ctxt wctxt)) (con_extended cons) = Some pmsg0"
    and l: "outbuf_len pmsg0 \<noteq> 0"
    and n: "Replay_notice \<notin> set (pmsg_outbuf pmsg0)"
    and a: "prev_seq_alone m"
    and d: "driver_leaves_prev_seq cons"
  shows "(\<exists>text. outbuf w' = Some text \<and>
            (Replay_notice \<in> set text) = (nbcon_prev_seq (fst m) = pmsg_seq pmsg0)) \<and>
         nbcon_prev_seq (fst m') = pmsg_seq pmsg0"
proof -
  obtain b ctxt1 m1 where e: "nbcon_context_update_unsafe this_cpu (wctxt_ctxt wctxt) True m =
                                (b, ctxt1, m1)"
    by (cases "nbcon_context_update_unsafe this_cpu (wctxt_ctxt wctxt) True m") auto
  note a1 = prev_seq_alone_update_unsafe [OF e a]
  have b: "b"
    using r e by (auto simp: nbcon_emit_next_record_def nbcon_context_enter_unsafe_def
        split: if_splits)
  have p1: "prb (seq ctxt1) (con_extended cons) = Some pmsg0"
    using p a1 by simp
  obtain cd m2 where rdd: "read_dropped m1 = (cd, m2)"
    by (cases "read_dropped m1") auto
  have a2: "prev_seq_alone m2 \<and> nbcon_prev_seq (fst m2) = nbcon_prev_seq (fst m)"
    using prev_seq_alone_reads(2) [of m1] a1 rdd by simp
  let ?pmsg = "if cd + pmsg_dropped pmsg0 \<noteq> 0 \<and> \<not> con_extended cons
               then console_prepend_dropped pmsg0 (cd + pmsg_dropped pmsg0) else pmsg0"
  have ps: "pmsg_seq ?pmsg = pmsg_seq pmsg0"
    by (simp add: console_prepend_dropped_def)
  have pl: "outbuf_len ?pmsg \<noteq> 0" "outbuf_len (console_prepend_replay ?pmsg) \<noteq> 0"
    using l by (simp_all add: console_prepend_dropped_def console_prepend_replay_def)
  have pn: "Replay_notice \<notin> set (pmsg_outbuf ?pmsg)"
    "Replay_notice \<in> set (pmsg_outbuf (console_prepend_replay ?pmsg))"
    using n by (simp_all add: console_prepend_dropped_def console_prepend_replay_def)
  obtain ulseq m3 where rdp: "read_prev_seq m2 = (ulseq, m3)"
    by (cases "read_prev_seq m2") auto
  have a3: "prev_seq_alone m3 \<and> nbcon_prev_seq (fst m3) = nbcon_prev_seq (fst m) \<and>
            ulseq = nbcon_prev_seq (fst m)"
    using prev_seq_alone_reads(3) [of m2] a2 rdp by simp
  show ?thesis
  proof (cases "ulseq = pmsg_seq ?pmsg")
    case True
    then have "emit_write this_cpu cons use_atomic
                 (wctxt\<lparr>wctxt_ctxt := ctxt1\<lparr>backlog := True\<rparr>\<rparr>) (console_prepend_replay ?pmsg)
                 (cd + pmsg_dropped pmsg0) cd m3 = (True, w', m')"
      using r e b p1 rdd rdp
      by (simp add: nbcon_emit_next_record_def nbcon_context_enter_unsafe_def
          printk_get_next_message_def Let_def)
    from emit_write_outbuf [OF this pl(2) _ d] a3 True ps pn(2) show ?thesis by simp
  next
    case False
    obtain cur m4 where rds: "nbcon_state_read m3 = (cur, m4)"
      by (cases "nbcon_state_read m3") auto
    have a4: "prev_seq_alone m4 \<and> nbcon_prev_seq (fst m4) = nbcon_prev_seq (fst m)"
      using prev_seq_alone_reads(1) [of m3] a3 rds by simp
    obtain pr ctxt2 m5 where cp:
      "nbcon_context_can_proceed this_cpu (ctxt1\<lparr>backlog := True\<rparr>) cur m4 = (pr, ctxt2, m5)"
      by (cases "nbcon_context_can_proceed this_cpu (ctxt1\<lparr>backlog := True\<rparr>) cur m4") auto
    have pr: "pr"
      using r e b p1 rdd rdp rds cp False
      by (auto simp: nbcon_emit_next_record_def nbcon_context_enter_unsafe_def
          printk_get_next_message_def Let_def split: if_splits)
    then have c5: "ctxt2 = ctxt1\<lparr>backlog := True\<rparr> \<and> m5 = m4"
      using can_proceed_True [of this_cpu "ctxt1\<lparr>backlog := True\<rparr>" cur m4 ctxt2 m5] cp by simp
    let ?m6 = "prev_seq_try_cmpxchg ulseq (pmsg_seq ?pmsg) m5"
    have a6: "prev_seq_alone ?m6 \<and> nbcon_prev_seq (fst ?m6) = pmsg_seq pmsg0"
      using prev_seq_alone_reads(6) [of m5 "pmsg_seq ?pmsg"] a4 a3 c5 ps by simp
    have "emit_write this_cpu cons use_atomic (wctxt\<lparr>wctxt_ctxt := ctxt2\<rparr>) ?pmsg
            (cd + pmsg_dropped pmsg0) cd ?m6 = (True, w', m')"
      using r e b p1 rdd rdp rds cp pr False
      by (simp add: nbcon_emit_next_record_def nbcon_context_enter_unsafe_def
          printk_get_next_message_def Let_def)
    from emit_write_outbuf [OF this pl(1) _ d] a6 a3 False ps pn(1) show ?thesis by simp
  qed
qed

lemma example_driver_leaves_prev_seq: "driver_leaves_prev_seq example_ops"
  by (auto simp: driver_leaves_prev_seq_def callbacks_def example_ops_def record_output_def
      prev_seq_alone_def)

text \<open>
  C7, as the code has it. First conjunct: the calling context owns the console,
  with or without a hostile takeover behind it, no other CPU interferes, and the
  ring buffer has a record \<open>pmsg0\<close> for the context's sequence number. When
  \<^verbatim>\<open>nbcon_prev_seq\<close> equals the sequence number of that record, the driver's
  callback is given the text with the replay notice in front, whoever made the
  earlier attempt. Otherwise \<^verbatim>\<open>nbcon_prev_seq\<close> is set to that sequence
  number and the callback is given the text without a replay notice. Otherwise,
  when the state read for the ownership check no longer shows the caller as
  owner, the emitter returns false; the callback is not called and
  \<^verbatim>\<open>nbcon_prev_seq\<close> is left as it was. In the first two cases the callback
  runs outside the unsafe section, unless the console has been taken over by
  force: then the unsafe bit stays set, and the callback is told so in
  \<^verbatim>\<open>unsafe_takeover\<close>. Second conjunct: in whatever state the console is
  and whatever the other CPUs do to the state word meanwhile, as long as they
  and the driver leave \<^verbatim>\<open>nbcon_prev_seq\<close> to the owner, an emission of a
  record with text that returns true has handed the driver a text with the
  replay notice exactly when \<^verbatim>\<open>nbcon_prev_seq\<close> was the sequence number of
  the record, and leaves \<^verbatim>\<open>nbcon_prev_seq\<close> at that sequence number.
\<close>

theorem emit_replay_marking:
  "(owned_quietly (ctxt_prio (wctxt_ctxt wctxt)) this_cpu (nbcon_state c) \<and>
    prb (seq (wctxt_ctxt wctxt)) (con_extended cons) = Some pmsg0 \<and>
    (if use_atomic then write_atomic cons else write_thread cons) = Some callback \<longrightarrow>
    (nbcon_prev_seq c = pmsg_seq pmsg0 \<longrightarrow>
      nbcon_emit_next_record this_cpu cons prb use_atomic wctxt (c, []) =
        (case callback (wctxt\<lparr>wctxt_ctxt := (wctxt_ctxt wctxt)\<lparr>backlog := True\<rparr>,
                           outbuf := Some (Replay_notice #
                                           pmsg_outbuf (with_dropped cons (dropped c) pmsg0)),
                           len := outbuf_len (with_dropped cons (dropped c) pmsg0) + 1,
                           wctxt_unsafe_takeover := unsafe_takeover (nbcon_state c)\<rparr>)
                    (c\<lparr>nbcon_state := (nbcon_state c)
                         \<lparr>unsafe := unsafe_takeover (nbcon_state c)\<rparr>\<rparr>, []) of
           (w1, m3) \<Rightarrow>
             emit_driver_done this_cpu w1
               (console_prepend_replay (with_dropped cons (dropped c) pmsg0)) (dropped c) m3)) \<and>
    (nbcon_prev_seq c \<noteq> pmsg_seq pmsg0 \<and>
      outbuf_len (with_dropped cons (dropped c) pmsg0) \<noteq> 0 \<longrightarrow>
      nbcon_emit_next_record this_cpu cons prb use_atomic wctxt (c, []) =
        (case callback (wctxt\<lparr>wctxt_ctxt := (wctxt_ctxt wctxt)\<lparr>backlog := True\<rparr>,
                           outbuf := Some (pmsg_outbuf (with_dropped cons (dropped c) pmsg0)),
                           len := outbuf_len (with_dropped cons (dropped c) pmsg0),
                           wctxt_unsafe_takeover := unsafe_takeover (nbcon_state c)\<rparr>)
                    (c\<lparr>nbcon_prev_seq := pmsg_seq pmsg0,
                       nbcon_state := (nbcon_state c)
                         \<lparr>unsafe := unsafe_takeover (nbcon_state c)\<rparr>\<rparr>, []) of
           (w1, m3) \<Rightarrow>
             emit_driver_done this_cpu w1 (with_dropped cons (dropped c) pmsg0) (dropped c) m3)) \<and>
    (nbcon_prev_seq c \<noteq> pmsg_seq pmsg0 \<and>
      \<not> nbcon_owner_matches st' this_cpu (ctxt_prio (wctxt_ctxt wctxt)) \<longrightarrow>
      nbcon_emit_next_record this_cpu cons prb use_atomic wctxt
        (c, [id, id, id, id, nbcon_state_update (\<lambda>_. st')]) =
        (False, wctxt\<lparr>wctxt_ctxt := (wctxt_ctxt wctxt)\<lparr>backlog := True\<rparr>\<rparr>,
         c\<lparr>nbcon_state := st'\<rparr>, []))) \<and>
   (prev_seq_alone m \<and> driver_leaves_prev_seq cons \<and>
    prb (seq (wctxt_ctxt wctxt)) (con_extended cons) = Some pmsg0 \<and>
    outbuf_len pmsg0 \<noteq> 0 \<and> Replay_notice \<notin> set (pmsg_outbuf pmsg0) \<and>
    nbcon_emit_next_record this_cpu cons prb use_atomic wctxt m = (True, w', m') \<longrightarrow>
    (\<exists>text. outbuf w' = Some text \<and>
            (Replay_notice \<in> set text) = (nbcon_prev_seq (fst m) = pmsg_seq pmsg0)) \<and>
    nbcon_prev_seq (fst m') = pmsg_seq pmsg0)"
proof (rule conjI)
  show "owned_quietly (ctxt_prio (wctxt_ctxt wctxt)) this_cpu (nbcon_state c) \<and>
    prb (seq (wctxt_ctxt wctxt)) (con_extended cons) = Some pmsg0 \<and>
    (if use_atomic then write_atomic cons else write_thread cons) = Some callback \<longrightarrow>
    (nbcon_prev_seq c = pmsg_seq pmsg0 \<longrightarrow>
      nbcon_emit_next_record this_cpu cons prb use_atomic wctxt (c, []) =
        (case callback (wctxt\<lparr>wctxt_ctxt := (wctxt_ctxt wctxt)\<lparr>backlog := True\<rparr>,
                           outbuf := Some (Replay_notice #
                                           pmsg_outbuf (with_dropped cons (dropped c) pmsg0)),
                           len := outbuf_len (with_dropped cons (dropped c) pmsg0) + 1,
                           wctxt_unsafe_takeover := unsafe_takeover (nbcon_state c)\<rparr>)
                    (c\<lparr>nbcon_state := (nbcon_state c)
                         \<lparr>unsafe := unsafe_takeover (nbcon_state c)\<rparr>\<rparr>, []) of
           (w1, m3) \<Rightarrow>
             emit_driver_done this_cpu w1
               (console_prepend_replay (with_dropped cons (dropped c) pmsg0)) (dropped c) m3)) \<and>
    (nbcon_prev_seq c \<noteq> pmsg_seq pmsg0 \<and>
      outbuf_len (with_dropped cons (dropped c) pmsg0) \<noteq> 0 \<longrightarrow>
      nbcon_emit_next_record this_cpu cons prb use_atomic wctxt (c, []) =
        (case callback (wctxt\<lparr>wctxt_ctxt := (wctxt_ctxt wctxt)\<lparr>backlog := True\<rparr>,
                           outbuf := Some (pmsg_outbuf (with_dropped cons (dropped c) pmsg0)),
                           len := outbuf_len (with_dropped cons (dropped c) pmsg0),
                           wctxt_unsafe_takeover := unsafe_takeover (nbcon_state c)\<rparr>)
                    (c\<lparr>nbcon_prev_seq := pmsg_seq pmsg0,
                       nbcon_state := (nbcon_state c)
                         \<lparr>unsafe := unsafe_takeover (nbcon_state c)\<rparr>\<rparr>, []) of
           (w1, m3) \<Rightarrow>
             emit_driver_done this_cpu w1 (with_dropped cons (dropped c) pmsg0) (dropped c) m3)) \<and>
    (nbcon_prev_seq c \<noteq> pmsg_seq pmsg0 \<and>
      \<not> nbcon_owner_matches st' this_cpu (ctxt_prio (wctxt_ctxt wctxt)) \<longrightarrow>
      nbcon_emit_next_record this_cpu cons prb use_atomic wctxt
        (c, [id, id, id, id, nbcon_state_update (\<lambda>_. st')]) =
        (False, wctxt\<lparr>wctxt_ctxt := (wctxt_ctxt wctxt)\<lparr>backlog := True\<rparr>\<rparr>,
         c\<lparr>nbcon_state := st'\<rparr>, []))"
  proof (intro conjI impI, goal_cases)
    case 1
    then have "owned_quietly (ctxt_prio (wctxt_ctxt wctxt)) this_cpu (nbcon_state c)"
      and "prb (seq (wctxt_ctxt wctxt)) (con_extended cons) = Some pmsg0"
      and "(if use_atomic then write_atomic cons else write_thread cons) = Some callback"
      and "nbcon_prev_seq c = pmsg_seq pmsg0" by simp_all
    then show ?case by (rule emit_replay_quiet)
  next
    case 2
    then have "owned_quietly (ctxt_prio (wctxt_ctxt wctxt)) this_cpu (nbcon_state c)"
      and "prb (seq (wctxt_ctxt wctxt)) (con_extended cons) = Some pmsg0"
      and "(if use_atomic then write_atomic cons else write_thread cons) = Some callback"
      and "nbcon_prev_seq c \<noteq> pmsg_seq pmsg0"
      and "outbuf_len (with_dropped cons (dropped c) pmsg0) \<noteq> 0" by simp_all
    then show ?case by (rule emit_no_replay_quiet)
  next
    case 3
    then have "owned_quietly (ctxt_prio (wctxt_ctxt wctxt)) this_cpu (nbcon_state c)"
      and "prb (seq (wctxt_ctxt wctxt)) (con_extended cons) = Some pmsg0"
      and "nbcon_prev_seq c \<noteq> pmsg_seq pmsg0"
      and "\<not> nbcon_owner_matches st' this_cpu (ctxt_prio (wctxt_ctxt wctxt))" by simp_all
    then show ?case by (rule emit_ownership_lost)
  qed
  show "prev_seq_alone m \<and> driver_leaves_prev_seq cons \<and>
    prb (seq (wctxt_ctxt wctxt)) (con_extended cons) = Some pmsg0 \<and>
    outbuf_len pmsg0 \<noteq> 0 \<and> Replay_notice \<notin> set (pmsg_outbuf pmsg0) \<and>
    nbcon_emit_next_record this_cpu cons prb use_atomic wctxt m = (True, w', m') \<longrightarrow>
    (\<exists>text. outbuf w' = Some text \<and>
            (Replay_notice \<in> set text) = (nbcon_prev_seq (fst m) = pmsg_seq pmsg0)) \<and>
    nbcon_prev_seq (fst m') = pmsg_seq pmsg0"
    using emit_true_replay [of this_cpu cons prb use_atomic wctxt m w' m' pmsg0] by blast
qed

text \<open>
  The NORMAL context on CPU 0 owns the console and is to print record 10. When
  \<^verbatim>\<open>nbcon_prev_seq\<close> is 10 already, the device gets the replay notice and the
  line; when it is not, the device gets the line alone and \<^verbatim>\<open>nbcon_prev_seq\<close>
  becomes 10; and when a PANIC context on CPU 1 takes the console over before the
  ownership check, nothing is written. Then the PANIC context on CPU 1 has
  taken the console over by force while record 10 was being printed, and prints
  it again: the device gets the replay notice and the line, and the console
  stays unsafe. Last, the NORMAL owner prints record 10 again while an
  EMERGENCY context on another CPU posts a handover request and withdraws it:
  the driver is handed the replay notice and the line.
\<close>

theorem emit_replay_marking_witness:
  "nbcon_emit_next_record 0 example_ops example_prb True
     (example_wctxt ((example_ctxt NBCON_PRIO_NORMAL False 0)\<lparr>seq := 10\<rparr>))
     ((example_console (example_state NBCON_PRIO_NORMAL NBCON_PRIO_NONE False 0))
        \<lparr>nbcon_prev_seq := 10\<rparr>, []) =
   (True,
    \<lparr>wctxt_ctxt = (example_ctxt NBCON_PRIO_NORMAL False 0)\<lparr>seq := 11, backlog := True\<rparr>,
     outbuf = Some [Replay_notice, Record_text ''line''], len = 5,
     wctxt_unsafe_takeover = False\<rparr>,
    (example_console (example_state NBCON_PRIO_NORMAL NBCON_PRIO_NONE False 0))
      \<lparr>nbcon_prev_seq := 10, nbcon_seq := 11,
       device := [[Replay_notice, Record_text ''line'']]\<rparr>, []) \<and>
   nbcon_emit_next_record 0 example_ops example_prb True
     (example_wctxt ((example_ctxt NBCON_PRIO_NORMAL False 0)\<lparr>seq := 10\<rparr>))
     (example_console (example_state NBCON_PRIO_NORMAL NBCON_PRIO_NONE False 0), []) =
   (True,
    \<lparr>wctxt_ctxt = (example_ctxt NBCON_PRIO_NORMAL False 0)\<lparr>seq := 11, backlog := True\<rparr>,
     outbuf = Some [Record_text ''line''], len = 4, wctxt_unsafe_takeover = False\<rparr>,
    (example_console (example_state NBCON_PRIO_NORMAL NBCON_PRIO_NONE False 0))
      \<lparr>nbcon_prev_seq := 10, nbcon_seq := 11, device := [[Record_text ''line'']]\<rparr>, []) \<and>
   nbcon_emit_next_record 0 example_ops example_prb True
     (example_wctxt ((example_ctxt NBCON_PRIO_NORMAL False 0)\<lparr>seq := 10\<rparr>))
     (example_console (example_state NBCON_PRIO_NORMAL NBCON_PRIO_NONE False 0),
      [id, id, id, id,
       nbcon_state_update (\<lambda>_. example_state NBCON_PRIO_PANIC NBCON_PRIO_NONE True 1)]) =
   (False,
    example_wctxt ((example_ctxt NBCON_PRIO_NORMAL False 0)\<lparr>seq := 10, backlog := True\<rparr>),
    example_console (example_state NBCON_PRIO_PANIC NBCON_PRIO_NONE True 1), []) \<and>
   nbcon_emit_next_record 1 example_ops example_prb True
     (example_wctxt ((example_ctxt NBCON_PRIO_PANIC True 0)\<lparr>seq := 10\<rparr>))
     ((fst example_takeover_mem)\<lparr>nbcon_prev_seq := 10\<rparr>, []) =
   (True,
    \<lparr>wctxt_ctxt = (example_ctxt NBCON_PRIO_PANIC True 0)\<lparr>seq := 11, backlog := True\<rparr>,
     outbuf = Some [Replay_notice, Record_text ''line''], len = 5,
     wctxt_unsafe_takeover = True\<rparr>,
    (fst example_takeover_mem)
      \<lparr>nbcon_prev_seq := 10, nbcon_seq := 11,
       device := [[Replay_notice, Record_text ''line'']]\<rparr>, []) \<and>
   nbcon_emit_next_record 0 example_ops example_prb True
     (example_wctxt ((example_ctxt NBCON_PRIO_NORMAL False 0)\<lparr>seq := 10\<rparr>))
     ((example_console (example_state NBCON_PRIO_NORMAL NBCON_PRIO_NONE False 0))
        \<lparr>nbcon_prev_seq := 10\<rparr>,
      [id, id, nbcon_state_update (\<lambda>s. s\<lparr>req_prio := NBCON_PRIO_EMERGENCY\<rparr>),
       nbcon_state_update (\<lambda>s. s\<lparr>req_prio := NBCON_PRIO_NONE\<rparr>)]) =
   (True,
    \<lparr>wctxt_ctxt = (example_ctxt NBCON_PRIO_NORMAL False 0)\<lparr>seq := 11, backlog := True\<rparr>,
     outbuf = Some [Replay_notice, Record_text ''line''], len = 5,
     wctxt_unsafe_takeover = False\<rparr>,
    (example_console (example_state NBCON_PRIO_NORMAL NBCON_PRIO_NONE False 0))
      \<lparr>nbcon_prev_seq := 10, nbcon_seq := 11,
       device := [[Replay_notice, Record_text ''line'']]\<rparr>, [])"
proof -
  let ?w = "example_wctxt ((example_ctxt NBCON_PRIO_NORMAL False 0)\<lparr>seq := 10\<rparr>)"
  let ?c = "example_console (example_state NBCON_PRIO_NORMAL NBCON_PRIO_NONE False 0)"
  let ?wp = "example_wctxt ((example_ctxt NBCON_PRIO_PANIC True 0)\<lparr>seq := 10\<rparr>)"
  let ?cp = "(fst example_takeover_mem)\<lparr>nbcon_prev_seq := 10\<rparr>"
  let ?rec = "\<lparr>pmsg_outbuf = [Record_text ''line''], outbuf_len = 4, pmsg_seq = 10,
               pmsg_dropped = 0\<rparr>"
  let ?m = "(?c\<lparr>nbcon_prev_seq := 10\<rparr>,
             [id, id, nbcon_state_update (\<lambda>s. s\<lparr>req_prio := NBCON_PRIO_EMERGENCY\<rparr>),
              nbcon_state_update (\<lambda>s. s\<lparr>req_prio := NBCON_PRIO_NONE\<rparr>)])"
  let ?w' = "\<lparr>wctxt_ctxt = (example_ctxt NBCON_PRIO_NORMAL False 0)\<lparr>seq := 11, backlog := True\<rparr>,
              outbuf = Some [Replay_notice, Record_text ''line''], len = 5,
              wctxt_unsafe_takeover = False\<rparr>"
  let ?m' = "(?c\<lparr>nbcon_prev_seq := 10, nbcon_seq := 11,
                 device := [[Replay_notice, Record_text ''line'']]\<rparr>, [])"
  have q: "owned_quietly (ctxt_prio (wctxt_ctxt ?w)) 0 (nbcon_state ?c)"
    and q': "owned_quietly (ctxt_prio (wctxt_ctxt ?w)) 0 (nbcon_state (?c\<lparr>nbcon_prev_seq := 10\<rparr>))"
    and qp: "owned_quietly (ctxt_prio (wctxt_ctxt ?wp)) 1 (nbcon_state ?cp)"
    by (simp_all add: owned_quietly_def example_wctxt_def example_ctxt_def example_console_def
        example_state_def example_takeover_mem_def)
  have p: "example_prb (seq (wctxt_ctxt ?w)) (con_extended example_ops) = Some ?rec"
    and pp: "example_prb (seq (wctxt_ctxt ?wp)) (con_extended example_ops) = Some ?rec"
    by (simp_all add: example_prb_def example_wctxt_def example_ctxt_def)
  have w: "(if True then write_atomic example_ops else write_thread example_ops) =
           Some record_output"
    by (simp add: example_ops_def)
  have run: "nbcon_emit_next_record 0 example_ops example_prb True ?w ?m = (True, ?w', ?m')"
    by (simp add: nbcon_context_release_def release_loop.simps nbcon_owner_matches_def
        nbcon_context_can_proceed_def nbcon_context_update_unsafe_def update_unsafe_loop.simps
        nbcon_context_enter_unsafe_def nbcon_context_exit_unsafe_def
        nbcon_state_read_def nbcon_state_try_cmpxchg_def nbcon_seq_read_def
        nbcon_seq_try_update_def read_dropped_def write_dropped_def read_prev_seq_def
        prev_seq_try_cmpxchg_def nbcon_emit_next_record_def emit_write_def emit_driver_done_def
        emit_update_con_def printk_get_next_message_def console_prepend_dropped_def
        console_prepend_replay_def record_output_def Let_def
        example_state_def example_console_def example_ctxt_def example_ops_def example_prb_def
        example_wctxt_def)
  have sa: "prev_seq_alone ?m"
    by (simp add: prev_seq_alone_def)
  have l: "outbuf_len ?rec \<noteq> 0" and n: "Replay_notice \<notin> set (pmsg_outbuf ?rec)"
    by simp_all
  note t1 = emit_replay_marking [where prb = example_prb and cons = example_ops
      and c = "?c\<lparr>nbcon_prev_seq := 10\<rparr>" and wctxt = ?w and this_cpu = 0
      and use_atomic = True and callback = record_output,
      THEN conjunct1, THEN mp, OF conjI [OF q' conjI [OF p w]]]
  note t2 = emit_replay_marking [where prb = example_prb and cons = example_ops
      and c = ?c and wctxt = ?w and this_cpu = 0 and use_atomic = True
      and callback = record_output
      and st' = "example_state NBCON_PRIO_PANIC NBCON_PRIO_NONE True 1",
      THEN conjunct1, THEN mp, OF conjI [OF q conjI [OF p w]]]
  note t3 = emit_replay_marking [where prb = example_prb and cons = example_ops
      and c = ?cp and wctxt = ?wp and this_cpu = 1 and use_atomic = True
      and callback = record_output,
      THEN conjunct1, THEN mp, OF conjI [OF qp conjI [OF pp w]]]
  note t4 = emit_replay_marking [where prb = example_prb and cons = example_ops
      and m = ?m and wctxt = ?w and this_cpu = 0 and use_atomic = True
      and w' = ?w' and m' = ?m',
      THEN conjunct2, THEN mp,
      OF conjI [OF sa conjI [OF example_driver_leaves_prev_seq
           conjI [OF p conjI [OF l conjI [OF n run]]]]]]
  show ?thesis
    using t1 t2 t3 t4 run
    by (simp add: with_dropped_def record_output_def emit_driver_done_def emit_update_con_quiet
        console_prepend_replay_def owned_quietly_def nbcon_owner_matches_def example_wctxt_def
        example_ctxt_def example_console_def example_state_def example_ops_def
        example_takeover_mem_def)
qed

lemmas run_defs =
  nbcon_context_try_acquire_def try_again.simps nbcon_context_try_acquire_direct.simps
  nbcon_context_try_acquire_handover_def nbcon_context_try_acquire_hostile_def
  nbcon_context_try_acquire_requested_def nbcon_waiter_matches_def
  nbcon_context_release_def release_loop.simps nbcon_owner_matches_def
  nbcon_context_can_proceed_def nbcon_context_update_unsafe_def update_unsafe_loop.simps
  nbcon_context_enter_unsafe_def nbcon_context_exit_unsafe_def
  nbcon_state_read_def nbcon_state_try_cmpxchg_def other_cpu_in_panic_def
  this_cpu_in_panic_def read_panic_cpu_def nbcon_seq_read_def nbcon_seq_try_update_def
  read_dropped_def write_dropped_def read_prev_seq_def prev_seq_try_cmpxchg_def
  nbcon_emit_next_record_def emit_write_def emit_driver_done_def emit_update_con_def
  printk_get_next_message_def console_prepend_dropped_def console_prepend_replay_def
  record_output_def Let_def

lemmas example_defs =
  example_state_def example_console_def example_ctxt_def example_ops_def example_prb_def
  example_wctxt_def

text \<open>
  Against C7 as stated: in the run \<open>same_owner_retry\<close> the first attempt at
  record 10 is given up before the driver is called, no other context attempts
  the record, and the same owner then emits it: the device gets the replay
  notice in front of the line.
\<close>

theorem same_owner_retry_counterexample:
  "same_owner_retry =
     ((True, False, OK, True, True), [[Replay_notice, Record_text ''line'']], 11)"
  by (simp add: same_owner_retry_def run_defs example_defs)

subsection \<open>The flush, unfolded\<close>

lemma flush_unfold:
  "nbcon_atomic_flush_pending_con_inner fuel this_cpu nesting cons prb stop_seq allow m =
     (case nbcon_get_default_prio this_cpu nesting m of
        (p, m0) \<Rightarrow>
          (case nbcon_context_try_acquire this_cpu (flush_ctxt p allow) m0 of
             (acquired, ctxt1, m1) \<Rightarrow>
               if \<not> acquired then Some (EPERM, flush_wctxt ctxt1, m1)
               else flush_loop fuel this_cpu cons prb stop_seq (flush_wctxt ctxt1) m1))"
  unfolding nbcon_atomic_flush_pending_con_inner_def flush_ctxt_def flush_wctxt_def
  by (rule refl)

lemma try_acquire_failed_ctxt:
  "nbcon_context_try_acquire this_cpu ctxt m = (False, ctxt1, m1) \<Longrightarrow> ctxt1 = ctxt"
  by (auto simp: nbcon_context_try_acquire_def split: prod.splits if_splits)

subsection \<open>The sequence number only moves forward\<close>

lemma seq_inv_interfere: "seq_inv Q m \<Longrightarrow> seq_inv Q (interfere m)"
  by (cases m rule: interfere.cases) (auto simp: seq_inv_def)

lemma seq_inv_steps:
  assumes "steps state_write m m'" and "seq_inv Q m"
  shows "seq_inv Q m'"
proof -
  have "\<And>c c'. state_write c c' \<Longrightarrow> Q (nbcon_seq c) \<Longrightarrow> Q (nbcon_seq c')"
    by (auto simp: state_write_def)
  from steps_preserve [OF assms(1), of "\<lambda>c. Q (nbcon_seq c)", OF this]
  show ?thesis using assms(2) by (simp add: seq_inv_def)
qed

lemma seq_inv_reads:
  "seq_inv Q m \<Longrightarrow> seq_inv Q (snd (nbcon_state_read m))"
  "seq_inv Q m \<Longrightarrow> seq_inv Q (snd (nbcon_seq_read m))"
  "seq_inv Q m \<Longrightarrow> seq_inv Q (snd (read_dropped m))"
  "seq_inv Q m \<Longrightarrow> seq_inv Q (snd (read_prev_seq m))"
  "seq_inv Q m \<Longrightarrow> seq_inv Q (snd (this_cpu_in_panic this_cpu m))"
  using seq_inv_interfere [of Q m]
  by (auto simp: nbcon_state_read_def nbcon_seq_read_def read_dropped_def read_prev_seq_def
      this_cpu_in_panic_def split: prod.splits)

lemma seq_inv_field_writes:
  "seq_inv Q m \<Longrightarrow> seq_inv Q (write_dropped v m)"
  "seq_inv Q m \<Longrightarrow> seq_inv Q (prev_seq_try_cmpxchg old new m)"
  using seq_inv_interfere [of Q m]
  by (auto simp: write_dropped_def prev_seq_try_cmpxchg_def seq_inv_def split: prod.splits)

lemma seq_inv_try_update:
  assumes "seq_inv Q m" and "Q (seq ctxt) \<longrightarrow> Q new_seq"
  shows "seq_inv Q (snd (nbcon_seq_try_update ctxt new_seq m))"
proof -
  obtain c es where i: "interfere m = (c, es)" by (cases "interfere m") auto
  have a: "seq_inv Q (c, es)" using seq_inv_interfere [OF assms(1)] i by simp
  show ?thesis
  proof (cases "nbcon_seq c = seq ctxt")
    case True
    then show ?thesis
      using a assms(2) i by (auto simp: nbcon_seq_try_update_def seq_inv_def)
  next
    case False
    then show ?thesis
      using seq_inv_reads(2) [OF a] i
      by (auto simp: nbcon_seq_try_update_def split: prod.splits)
  qed
qed

lemma seq_inv_state_ops:
  assumes "seq_inv Q m"
  shows "seq_inv Q (snd (snd (nbcon_context_try_acquire this_cpu ctxt m)))"
    and "seq_inv Q (snd (nbcon_context_release this_cpu ctxt m))"
    and "seq_inv Q (snd (snd (nbcon_context_can_proceed this_cpu ctxt cur m)))"
    and "seq_inv Q (snd (snd (nbcon_context_update_unsafe this_cpu ctxt u m)))"
    and "seq_inv Q (snd (snd (nbcon_context_try_acquire_direct this_cpu ctxt cur m)))"
    and "seq_inv Q (snd (snd (nbcon_context_try_acquire_requested this_cpu ctxt cur m)))"
    and "seq_inv Q (snd (snd (nbcon_context_try_acquire_handover this_cpu ctxt cur m)))"
    and "seq_inv Q (snd (snd (nbcon_context_try_acquire_hostile this_cpu ctxt cur m)))"
proof -
  note k = seq_inv_steps [OF _ assms]
  show "seq_inv Q (snd (snd (nbcon_context_try_acquire this_cpu ctxt m)))"
    by (cases "nbcon_context_try_acquire this_cpu ctxt m")
       (auto dest: steps_try_acquire intro: k)
  show "seq_inv Q (snd (nbcon_context_release this_cpu ctxt m))"
    by (cases "nbcon_context_release this_cpu ctxt m")
       (auto dest: steps_release intro: k)
  show "seq_inv Q (snd (snd (nbcon_context_can_proceed this_cpu ctxt cur m)))"
    by (cases "nbcon_context_can_proceed this_cpu ctxt cur m")
       (auto dest: steps_can_proceed intro: k)
  show "seq_inv Q (snd (snd (nbcon_context_update_unsafe this_cpu ctxt u m)))"
    by (cases "nbcon_context_update_unsafe this_cpu ctxt u m")
       (auto dest: steps_update_unsafe intro: k)
  show "seq_inv Q (snd (snd (nbcon_context_try_acquire_direct this_cpu ctxt cur m)))"
    by (cases "nbcon_context_try_acquire_direct this_cpu ctxt cur m")
       (auto dest: steps_try_acquire_direct intro: k)
  show "seq_inv Q (snd (snd (nbcon_context_try_acquire_requested this_cpu ctxt cur m)))"
    by (cases "nbcon_context_try_acquire_requested this_cpu ctxt cur m")
       (auto dest: steps_try_acquire_requested intro: k)
  show "seq_inv Q (snd (snd (nbcon_context_try_acquire_handover this_cpu ctxt cur m)))"
    by (cases "nbcon_context_try_acquire_handover this_cpu ctxt cur m")
       (auto dest: steps_try_acquire_handover intro: k)
  show "seq_inv Q (snd (snd (nbcon_context_try_acquire_hostile this_cpu ctxt cur m)))"
    by (cases "nbcon_context_try_acquire_hostile this_cpu ctxt cur m")
       (auto dest: steps_try_acquire_hostile intro: k)
qed

lemma emit_update_con_inv:
  assumes i: "seq_inv Q m"
    and u: "Q (seq (wctxt_ctxt wctxt)) \<longrightarrow> Q (pmsg_seq pmsg + 1)"
  shows "seq_inv Q (snd (snd (emit_update_con this_cpu wctxt pmsg dropped_now con_dropped m)))"
proof -
  obtain b ctxt1 m1 where e: "nbcon_context_enter_unsafe this_cpu (wctxt_ctxt wctxt) m = (b, ctxt1, m1)"
    by (cases "nbcon_context_enter_unsafe this_cpu (wctxt_ctxt wctxt) m") auto
  have i1: "seq_inv Q m1"
    using seq_inv_state_ops(4) [OF i, of this_cpu "wctxt_ctxt wctxt" True] e
    by (simp add: nbcon_context_enter_unsafe_def)
  have s1: "seq ctxt1 = seq (wctxt_ctxt wctxt)"
    using update_unsafe_seq [of this_cpu "wctxt_ctxt wctxt" True m] e
    by (simp add: nbcon_context_enter_unsafe_def)
  let ?m2 = "if dropped_now \<noteq> con_dropped then write_dropped dropped_now m1 else m1"
  have i2: "seq_inv Q ?m2" using i1 seq_inv_field_writes(1) by simp
  obtain ctxt2 m3 where t: "nbcon_seq_try_update ctxt1 (pmsg_seq pmsg + 1) ?m2 = (ctxt2, m3)"
    by (cases "nbcon_seq_try_update ctxt1 (pmsg_seq pmsg + 1) ?m2") auto
  have i3: "seq_inv Q m3"
    using seq_inv_try_update [OF i2, of ctxt1 "pmsg_seq pmsg + 1"] u s1 t by simp
  have i4: "seq_inv Q (snd (snd (nbcon_context_exit_unsafe this_cpu ctxt2 m3)))"
    using seq_inv_state_ops(4) [OF i3, of this_cpu ctxt2 False]
    by (simp add: nbcon_context_exit_unsafe_def)
  show ?thesis
    using e t i1 i4
    by (auto simp: emit_update_con_def split: prod.splits)
qed

lemma emit_driver_done_inv:
  assumes i: "seq_inv Q m"
    and u: "outbuf w \<noteq> None \<longrightarrow> Q (seq (wctxt_ctxt w)) \<longrightarrow> Q (pmsg_seq pmsg + 1)"
  shows "seq_inv Q (snd (snd (emit_driver_done this_cpu w pmsg con_dropped m)))"
proof (cases "outbuf w = None")
  case True
  then show ?thesis
    using seq_inv_state_ops(2) [OF i, of this_cpu "wctxt_ctxt w"]
    by (auto simp: emit_driver_done_def split: prod.splits)
next
  case False
  then show ?thesis
    using emit_update_con_inv [OF i, of w pmsg this_cpu 0 con_dropped] u
    by (auto simp: emit_driver_done_def)
qed

lemma emit_write_inv:
  assumes i: "seq_inv Q m"
    and drv: "driver_keeps Q cons"
    and skip: "outbuf_len pmsg = 0 \<longrightarrow> Q (seq (wctxt_ctxt wctxt)) \<longrightarrow> Q (pmsg_seq pmsg + 1)"
    and wr: "\<And>write w m. write \<in> callbacks cons \<Longrightarrow> seq (wctxt_ctxt w) = seq (wctxt_ctxt wctxt) \<Longrightarrow>
               outbuf (fst (write w m)) \<noteq> None \<Longrightarrow>
               Q (seq (wctxt_ctxt (fst (write w m)))) \<longrightarrow> Q (pmsg_seq pmsg + 1)"
  shows "seq_inv Q (snd (snd (emit_write this_cpu cons use_atomic wctxt pmsg dropped_now
                                con_dropped m)))"
proof -
  obtain b ctxt1 m1 where e: "nbcon_context_exit_unsafe this_cpu (wctxt_ctxt wctxt) m = (b, ctxt1, m1)"
    by (cases "nbcon_context_exit_unsafe this_cpu (wctxt_ctxt wctxt) m") auto
  have i1: "seq_inv Q m1"
    using seq_inv_state_ops(4) [OF i, of this_cpu "wctxt_ctxt wctxt" False] e
    by (simp add: nbcon_context_exit_unsafe_def)
  have s1: "seq ctxt1 = seq (wctxt_ctxt wctxt)"
    using update_unsafe_seq [of this_cpu "wctxt_ctxt wctxt" False m] e
    by (simp add: nbcon_context_exit_unsafe_def)
  obtain cur m2 where rd: "nbcon_state_read m1 = (cur, m2)"
    by (cases "nbcon_state_read m1") auto
  have i2: "seq_inv Q m2" using seq_inv_reads(1) [OF i1] rd by simp
  let ?W = "wctxt\<lparr>wctxt_ctxt := ctxt1, outbuf := Some (pmsg_outbuf pmsg),
                  len := outbuf_len pmsg, wctxt_unsafe_takeover := unsafe_takeover cur\<rparr>"
  consider (lost) "\<not> b" | (skip) "b" "outbuf_len pmsg = 0"
    | (none) "b" "outbuf_len pmsg \<noteq> 0" "(if use_atomic then write_atomic cons else write_thread cons) = None"
    | (some) wcb where "b" "outbuf_len pmsg \<noteq> 0"
        "(if use_atomic then write_atomic cons else write_thread cons) = Some wcb"
    by (cases "if use_atomic then write_atomic cons else write_thread cons") auto
  then show ?thesis
  proof cases
    case lost
    then show ?thesis using e i1 by (simp add: emit_write_def)
  next
    case skip
    have "seq_inv Q (snd (snd (emit_update_con this_cpu (wctxt\<lparr>wctxt_ctxt := ctxt1\<rparr>) pmsg
                                 dropped_now con_dropped m1)))"
      by (rule emit_update_con_inv [OF i1]) (use skip s1 \<open>outbuf_len pmsg = 0\<close> assms(3) in simp)
    then show ?thesis using e skip by (simp add: emit_write_def)
  next
    case none
    then show ?thesis
      using e rd seq_inv_state_ops(2) [OF i2, of this_cpu ctxt1]
      by (auto simp: emit_write_def split: prod.splits)
  next
    case some
    then have cb: "wcb \<in> callbacks cons"
      by (auto simp: callbacks_def split: if_splits)
    obtain w1 m3 where wr1: "wcb ?W m2 = (w1, m3)"
      by (cases "wcb ?W m2") auto
    have i3: "seq_inv Q m3"
      using drv cb i2 wr1 unfolding driver_keeps_def by (metis snd_conv)
    have "seq_inv Q (snd (snd (emit_driver_done this_cpu w1 pmsg con_dropped m3)))"
    proof (rule emit_driver_done_inv [OF i3], intro impI)
      assume o: "outbuf w1 \<noteq> None" and q: "Q (seq (wctxt_ctxt w1))"
      have "seq (wctxt_ctxt ?W) = seq (wctxt_ctxt wctxt)" using s1 by simp
      from wr [OF cb this, of m2] wr1 o q show "Q (pmsg_seq pmsg + 1)" by simp
    qed
    then show ?thesis
      using e rd some wr1 by (simp add: emit_write_def)
  qed
qed

lemma emit_inv:
  assumes i: "seq_inv Q m"
    and drv: "driver_keeps Q cons"
    and skip: "\<And>p. prb (seq (wctxt_ctxt wctxt)) (con_extended cons) = Some p \<Longrightarrow>
                 outbuf_len p = 0 \<Longrightarrow>
                 Q (seq (wctxt_ctxt wctxt)) \<longrightarrow> Q (pmsg_seq p + 1)"
    and wr: "\<And>p wcb w m. prb (seq (wctxt_ctxt wctxt)) (con_extended cons) = Some p \<Longrightarrow>
               wcb \<in> callbacks cons \<Longrightarrow> seq (wctxt_ctxt w) = seq (wctxt_ctxt wctxt) \<Longrightarrow>
               outbuf (fst (wcb w m)) \<noteq> None \<Longrightarrow>
               Q (seq (wctxt_ctxt (fst (wcb w m)))) \<longrightarrow> Q (pmsg_seq p + 1)"
  shows "seq_inv Q (snd (snd (nbcon_emit_next_record this_cpu cons prb use_atomic wctxt m)))"
proof -
  obtain b ctxt1 m1 where e: "nbcon_context_enter_unsafe this_cpu (wctxt_ctxt wctxt) m = (b, ctxt1, m1)"
    by (cases "nbcon_context_enter_unsafe this_cpu (wctxt_ctxt wctxt) m") auto
  have i1: "seq_inv Q m1"
    using seq_inv_state_ops(4) [OF i, of this_cpu "wctxt_ctxt wctxt" True] e
    by (simp add: nbcon_context_enter_unsafe_def)
  have s1: "seq ctxt1 = seq (wctxt_ctxt wctxt)"
    using update_unsafe_seq [of this_cpu "wctxt_ctxt wctxt" True m] e
    by (simp add: nbcon_context_enter_unsafe_def)
  show ?thesis
  proof (cases b)
    case False
    then show ?thesis using e i1 by (simp add: nbcon_emit_next_record_def)
  next
    case True
    show ?thesis
    proof (cases "prb (seq ctxt1) (con_extended cons)")
      case None
      have "seq_inv Q (snd (snd (nbcon_context_exit_unsafe this_cpu (ctxt1\<lparr>backlog := False\<rparr>) m1)))"
        using seq_inv_state_ops(4) [OF i1, of this_cpu "ctxt1\<lparr>backlog := False\<rparr>" False]
        by (simp add: nbcon_context_exit_unsafe_def)
      then show ?thesis
        using e True None
        by (auto simp: nbcon_emit_next_record_def printk_get_next_message_def split: prod.splits)
    next
      case (Some pmsg0)
      then have p0: "prb (seq (wctxt_ctxt wctxt)) (con_extended cons) = Some pmsg0"
        using s1 by simp
      obtain cd m2 where rdd: "read_dropped m1 = (cd, m2)"
        by (cases "read_dropped m1") auto
      have i2: "seq_inv Q m2" using seq_inv_reads(3) [OF i1] rdd by simp
      let ?pmsg = "if cd + pmsg_dropped pmsg0 \<noteq> 0 \<and> \<not> con_extended cons
                   then console_prepend_dropped pmsg0 (cd + pmsg_dropped pmsg0) else pmsg0"
      have ps: "pmsg_seq ?pmsg = pmsg_seq pmsg0"
        by (simp add: console_prepend_dropped_def)
      have pl: "outbuf_len ?pmsg = 0 \<Longrightarrow> outbuf_len pmsg0 = 0"
        by (simp add: console_prepend_dropped_def split: if_splits)
      obtain ulseq m3 where rdp: "read_prev_seq m2 = (ulseq, m3)"
        by (cases "read_prev_seq m2") auto
      have i3: "seq_inv Q m3" using seq_inv_reads(4) [OF i2] rdp by simp
      obtain cur m4 where rds: "nbcon_state_read m3 = (cur, m4)"
        by (cases "nbcon_state_read m3") auto
      have i4: "seq_inv Q m4" using seq_inv_reads(1) [OF i3] rds by simp
      obtain pr ctxt2 m5 where cp:
        "nbcon_context_can_proceed this_cpu (ctxt1\<lparr>backlog := True\<rparr>) cur m4 = (pr, ctxt2, m5)"
        by (cases "nbcon_context_can_proceed this_cpu (ctxt1\<lparr>backlog := True\<rparr>) cur m4") auto
      have i5: "seq_inv Q m5"
        using seq_inv_state_ops(3) [OF i4, of this_cpu "ctxt1\<lparr>backlog := True\<rparr>" cur] cp by simp
      have s2: "seq ctxt2 = seq (wctxt_ctxt wctxt)"
        using can_proceed_seq [of this_cpu "ctxt1\<lparr>backlog := True\<rparr>" cur m4] cp s1 by simp
      have i6: "seq_inv Q (prev_seq_try_cmpxchg ulseq (pmsg_seq ?pmsg) m5)"
        using i5 by (rule seq_inv_field_writes(2))
      have a: "seq_inv Q (snd (snd (emit_write this_cpu cons use_atomic
                 (wctxt\<lparr>wctxt_ctxt := ctxt1\<lparr>backlog := True\<rparr>\<rparr>) (console_prepend_replay ?pmsg)
                 (cd + pmsg_dropped pmsg0) cd m3)))"
      proof (rule emit_write_inv [OF i3 drv], goal_cases)
        case 1
        show ?case by (simp add: console_prepend_replay_def)
      next
        case (2 wcb w m)
        then show ?case
          using wr [OF p0, of wcb w m] s1 ps by (simp add: console_prepend_replay_def)
      qed
      have b: "seq_inv Q (snd (snd (emit_write this_cpu cons use_atomic
                 (wctxt\<lparr>wctxt_ctxt := ctxt2\<rparr>) ?pmsg (cd + pmsg_dropped pmsg0) cd
                 (prev_seq_try_cmpxchg ulseq (pmsg_seq ?pmsg) m5))))"
      proof (rule emit_write_inv [OF i6 drv], goal_cases)
        case 1
        show ?case using skip [OF p0] pl s2 ps by auto
      next
        case (2 wcb w m)
        then show ?case
          using wr [OF p0, of wcb w m] s2 ps by simp
      qed
      show ?thesis
        using e True Some rdd rdp rds cp a b i5
        by (simp add: nbcon_emit_next_record_def printk_get_next_message_def Let_def)
    qed
  qed
qed

lemma word_le_succ:
  assumes "(x :: 64 word) \<noteq> - 1" and "y \<le> x"
  shows "y \<le> x + 1"
proof -
  have "\<not> x + 1 \<le> x" using inc_less_eq_self_iff_eq [of x] assms(1) by simp
  then have "x \<le> x + 1" by simp
  with assms(2) show ?thesis by (rule order_trans)
qed

lemma emit_monotone:
  assumes i: "seq_inv ((\<le>) s0) m"
    and f: "prb_forward prb"
    and drv: "driver_keeps ((\<le>) s0) cons"
    and dsq: "driver_keeps_ctxt_seq cons"
  shows "seq_inv ((\<le>) s0) (snd (snd (nbcon_emit_next_record this_cpu cons prb use_atomic wctxt m)))"
proof (rule emit_inv [OF i drv], goal_cases)
  case (1 p)
  then have "seq (wctxt_ctxt wctxt) \<le> pmsg_seq p" and "pmsg_seq p \<noteq> - 1"
    using f unfolding prb_forward_def by blast+
  then have "seq (wctxt_ctxt wctxt) \<le> pmsg_seq p + 1" using word_le_succ by blast
  then show ?case by auto
next
  case (2 p wcb w m)
  then have "seq (wctxt_ctxt wctxt) \<le> pmsg_seq p" and "pmsg_seq p \<noteq> - 1"
    using f unfolding prb_forward_def by blast+
  then have a: "seq (wctxt_ctxt wctxt) \<le> pmsg_seq p + 1" using word_le_succ by blast
  have "seq (wctxt_ctxt (fst (wcb w m))) = seq (wctxt_ctxt wctxt)"
    using dsq 2 unfolding driver_keeps_ctxt_seq_def by metis
  then show ?case using a by auto
qed

lemma emit_failing_driver:
  assumes i: "seq_inv Q m"
    and drv: "driver_keeps Q cons"
    and fl: "driver_fails cons"
    and ne: "\<forall>s is_extended p. prb s is_extended = Some p \<longrightarrow> outbuf_len p \<noteq> 0"
  shows "seq_inv Q (snd (snd (nbcon_emit_next_record this_cpu cons prb use_atomic wctxt m)))"
proof (rule emit_inv [OF i drv], goal_cases)
  case (1 p)
  then show ?case using ne by blast
next
  case (2 p wcb w m)
  then have "outbuf (fst (wcb w m)) = None"
    using fl unfolding driver_fails_def by blast
  with 2 show ?case by simp
qed

lemma flush_loop_monotone:
  assumes f: "prb_forward prb"
    and drv: "driver_keeps ((\<le>) s0) cons"
    and dsq: "driver_keeps_ctxt_seq cons"
  shows "seq_inv ((\<le>) s0) m \<Longrightarrow>
         flush_loop fuel this_cpu cons prb stop_seq wctxt m = Some (e, w', m') \<Longrightarrow>
         seq_inv ((\<le>) s0) m'"
proof (induction fuel arbitrary: wctxt m)
  case 0
  then show ?case by simp
next
  case (Suc fuel)
  obtain s m1 where sr: "nbcon_seq_read m = (s, m1)"
    by (cases "nbcon_seq_read m") auto
  have i1: "seq_inv ((\<le>) s0) m1" using seq_inv_reads(2) [OF Suc.prems(1)] sr by simp
  obtain ctxtr mr where rl: "nbcon_context_release this_cpu (wctxt_ctxt wctxt) m1 = (ctxtr, mr)"
    by (cases "nbcon_context_release this_cpu (wctxt_ctxt wctxt) m1") auto
  have ir: "seq_inv ((\<le>) s0) mr"
    using seq_inv_state_ops(2) [OF i1, of this_cpu "wctxt_ctxt wctxt"] rl by simp
  obtain b w1 m2 where em: "nbcon_emit_next_record this_cpu cons prb True wctxt m1 = (b, w1, m2)"
    by (cases "nbcon_emit_next_record this_cpu cons prb True wctxt m1") auto
  have i2: "seq_inv ((\<le>) s0) m2"
    using emit_monotone [OF i1 f drv dsq, of this_cpu True wctxt] em by simp
  obtain s2 m3 where sr2: "nbcon_seq_read m2 = (s2, m3)"
    by (cases "nbcon_seq_read m2") auto
  have i3: "seq_inv ((\<le>) s0) m3" using seq_inv_reads(2) [OF i2] sr2 by simp
  obtain ctxt4 m4 where rl2: "nbcon_context_release this_cpu (wctxt_ctxt w1) m3 = (ctxt4, m4)"
    by (cases "nbcon_context_release this_cpu (wctxt_ctxt w1) m3") auto
  have i4: "seq_inv ((\<le>) s0) m4"
    using seq_inv_state_ops(2) [OF i3, of this_cpu "wctxt_ctxt w1"] rl2 by simp
  show ?case
  proof (cases "s < stop_seq \<and> b \<and> backlog (wctxt_ctxt w1)")
    case True
    then have "flush_loop fuel this_cpu cons prb stop_seq w1 m2 = Some (e, w', m')"
      using Suc.prems(2) sr em by simp
    with i2 show ?thesis by (rule Suc.IH)
  next
    case False
    then show ?thesis
      using Suc.prems(2) sr rl em sr2 rl2 ir i2 i4
      by (auto split: if_splits)
  qed
qed

lemma flush_monotone:
  assumes i: "seq_inv ((\<le>) s0) m"
    and f: "prb_forward prb"
    and drv: "driver_keeps ((\<le>) s0) cons"
    and dsq: "driver_keeps_ctxt_seq cons"
    and r: "nbcon_atomic_flush_pending_con_inner fuel this_cpu nesting cons prb stop_seq allow m =
            Some (e, w', m')"
  shows "seq_inv ((\<le>) s0) m'"
proof -
  obtain p m0 where dp: "nbcon_get_default_prio this_cpu nesting m = (p, m0)"
    by (cases "nbcon_get_default_prio this_cpu nesting m") auto
  have i0: "seq_inv ((\<le>) s0) m0"
    using seq_inv_reads(5) [OF i, of this_cpu] dp
    by (auto simp: nbcon_get_default_prio_def split: prod.splits if_splits)
  obtain a ctxt1 m1 where ta: "nbcon_context_try_acquire this_cpu (flush_ctxt p allow) m0 = (a, ctxt1, m1)"
    by (cases "nbcon_context_try_acquire this_cpu (flush_ctxt p allow) m0") auto
  have i1: "seq_inv ((\<le>) s0) m1"
    using seq_inv_state_ops(1) [OF i0, of this_cpu "flush_ctxt p allow"] ta by simp
  show ?thesis
  proof (cases a)
    case True
    then have "flush_loop fuel this_cpu cons prb stop_seq (flush_wctxt ctxt1) m1 = Some (e, w', m')"
      using r dp ta by (simp add: flush_unfold)
    with i1 show ?thesis by (rule flush_loop_monotone [OF f drv dsq])
  next
    case False
    then show ?thesis using r dp ta i1 by (simp add: flush_unfold)
  qed
qed

lemma seq_try_update_unfold:
  "nbcon_seq_try_update ctxt new_seq m =
     (if nbcon_seq (fst (interfere m)) = seq ctxt
      then (ctxt\<lparr>seq := new_seq\<rparr>,
            (fst (interfere m))\<lparr>nbcon_seq := new_seq\<rparr>, snd (interfere m))
      else (ctxt\<lparr>seq := nbcon_seq (fst (interfere (interfere m)))\<rparr>,
            interfere (interfere m)))"
  by (cases "interfere m"; cases "interfere (interfere m)")
     (simp add: nbcon_seq_try_update_def nbcon_seq_read_def)

lemma prb_forward_larger:
  assumes "prb_forward prb" and "prb s is_extended = Some p"
  shows "s < pmsg_seq p + 1"
proof -
  have a: "s \<le> pmsg_seq p" and b: "pmsg_seq p \<noteq> - 1"
    using assms unfolding prb_forward_def by blast+
  have "\<not> pmsg_seq p + 1 \<le> pmsg_seq p"
    using inc_less_eq_self_iff_eq [of "pmsg_seq p"] b by simp
  then have "pmsg_seq p < pmsg_seq p + 1" by simp
  with a show ?thesis by (rule le_less_trans)
qed

text \<open>
  C6, as the code has it. \<^verbatim>\<open>nbcon_seq\<close> is written by \<^verbatim>\<open>nbcon_seq_try_update\<close> alone (the forced
  reset and the initialisation apart), with one compare-and-swap: when the
  stored value is the context's sequence number it becomes the new one, and so
  does the context's; otherwise the stored value is left as it is and the
  context's copy is set to it (first conjunct). The new value the emitter asks
  for is larger than the expected one, as long as the ring buffer returns the
  record asked for or a later one (second conjunct). The calls of the ownership
  protocol never write \<^verbatim>\<open>nbcon_seq\<close>: whatever holds of it and is kept by
  the other CPUs holds after the call (third conjunct), so its value is kept
  and a lower bound of it stays one. \<^verbatim>\<open>nbcon_emit_next_record\<close> and
  \<^verbatim>\<open>__nbcon_atomic_flush_pending_con\<close> keep every lower bound \<open>s0\<close> of
  \<^verbatim>\<open>nbcon_seq\<close>, that is they never decrease it, provided the other CPUs and
  the driver do not either (fourth conjunct). And an emission whose driver
  callback fails does not write \<^verbatim>\<open>nbcon_seq\<close> at all (fifth conjunct): the
  sequence number advances only after a write that succeeded, or for a record
  without text.
\<close>

theorem nbcon_seq_monotone:
  "nbcon_seq_try_update ctxt new_seq m =
     (if nbcon_seq (fst (interfere m)) = seq ctxt
      then (ctxt\<lparr>seq := new_seq\<rparr>,
            (fst (interfere m))\<lparr>nbcon_seq := new_seq\<rparr>, snd (interfere m))
      else (ctxt\<lparr>seq := nbcon_seq (fst (interfere (interfere m)))\<rparr>,
            interfere (interfere m))) \<and>
   (prb_forward prb \<and> prb (seq ctxt) (con_extended cons) = Some pmsg \<longrightarrow>
    seq ctxt < pmsg_seq pmsg + 1) \<and>
   (seq_inv Q m \<longrightarrow>
    seq_inv Q (snd (snd (nbcon_context_try_acquire this_cpu ctxt m))) \<and>
    seq_inv Q (snd (snd (nbcon_context_try_acquire_direct this_cpu ctxt cur m))) \<and>
    seq_inv Q (snd (snd (nbcon_context_try_acquire_requested this_cpu ctxt cur m))) \<and>
    seq_inv Q (snd (snd (nbcon_context_try_acquire_handover this_cpu ctxt cur m))) \<and>
    seq_inv Q (snd (snd (nbcon_context_try_acquire_hostile this_cpu ctxt cur m))) \<and>
    seq_inv Q (snd (nbcon_context_release this_cpu ctxt m)) \<and>
    seq_inv Q (snd (snd (nbcon_context_can_proceed this_cpu ctxt cur m))) \<and>
    seq_inv Q (snd (snd (nbcon_context_enter_unsafe this_cpu ctxt m))) \<and>
    seq_inv Q (snd (snd (nbcon_context_exit_unsafe this_cpu ctxt m)))) \<and>
   (seq_inv ((\<le>) s0) m \<and> prb_forward prb \<and> driver_keeps ((\<le>) s0) cons \<and>
    driver_keeps_ctxt_seq cons \<longrightarrow>
    seq_inv ((\<le>) s0)
      (snd (snd (nbcon_emit_next_record this_cpu cons prb use_atomic wctxt m))) \<and>
    (nbcon_atomic_flush_pending_con_inner fuel this_cpu nesting cons prb stop_seq allow m =
       Some (e, w', m') \<longrightarrow> seq_inv ((\<le>) s0) m')) \<and>
   (seq_inv Q m \<and> driver_keeps Q cons \<and> driver_fails cons \<and>
    (\<forall>s is_extended p. prb s is_extended = Some p \<longrightarrow> outbuf_len p \<noteq> 0) \<longrightarrow>
    seq_inv Q (snd (snd (nbcon_emit_next_record this_cpu cons prb use_atomic wctxt m))))"
proof (intro conjI impI, goal_cases)
  case 1
  show ?case by (rule seq_try_update_unfold)
next
  case 2
  then show ?case using prb_forward_larger by blast
next
  case 3 then show ?case by (rule seq_inv_state_ops)
next
  case 4 then show ?case by (rule seq_inv_state_ops)
next
  case 5 then show ?case by (rule seq_inv_state_ops)
next
  case 6 then show ?case by (rule seq_inv_state_ops)
next
  case 7 then show ?case by (rule seq_inv_state_ops)
next
  case 8 then show ?case by (rule seq_inv_state_ops)
next
  case 9 then show ?case by (rule seq_inv_state_ops)
next
  case 10
  then show ?case
    unfolding nbcon_context_enter_unsafe_def by (rule seq_inv_state_ops)
next
  case 11
  then show ?case
    unfolding nbcon_context_exit_unsafe_def by (rule seq_inv_state_ops)
next
  case 12
  then show ?case using emit_monotone by blast
next
  case 13
  then show ?case using flush_monotone by blast
next
  case 14
  then show ?case using emit_failing_driver by blast
qed

lemma example_driver_keeps: "driver_keeps Q example_ops"
  by (auto simp: driver_keeps_def callbacks_def example_ops_def record_output_def seq_inv_def)

lemma example_driver_keeps_ctxt_seq: "driver_keeps_ctxt_seq example_ops"
  by (auto simp: driver_keeps_ctxt_seq_def callbacks_def example_ops_def record_output_def)

lemma example_prb_forward: "prb_forward example_prb"
  by (auto simp: prb_forward_def example_prb_def word_order.extremum_unique split: if_splits)

text \<open>
  In that run the owner prints record 10, its compare-and-swap from 10 to 11
  fails, \<^verbatim>\<open>nbcon_seq\<close> stays at 12 and the context's copy becomes 12.
\<close>

theorem nbcon_seq_monotone_witness:
  "seq_inv ((\<le>) 10) example_forced_mem \<and>
   seq_inv ((\<le>) 10)
     (snd (snd (nbcon_emit_next_record 0 example_ops example_prb True
                  (example_wctxt ((example_ctxt NBCON_PRIO_NORMAL False 0)\<lparr>seq := 10\<rparr>))
                  example_forced_mem))) \<and>
   nbcon_emit_next_record 0 example_ops example_prb True
     (example_wctxt ((example_ctxt NBCON_PRIO_NORMAL False 0)\<lparr>seq := 10\<rparr>))
     example_forced_mem =
   (True,
    \<lparr>wctxt_ctxt = (example_ctxt NBCON_PRIO_NORMAL False 0)\<lparr>seq := 12, backlog := True\<rparr>,
     outbuf = Some [Record_text ''line''], len = 4, wctxt_unsafe_takeover = False\<rparr>,
    (example_console (example_state NBCON_PRIO_NORMAL NBCON_PRIO_NONE False 0))
      \<lparr>nbcon_prev_seq := 10, nbcon_seq := 12, device := [[Record_text ''line'']]\<rparr>, [])"
proof -
  have h: "seq_inv ((\<le>) 10) example_forced_mem"
    by (simp add: seq_inv_def example_forced_mem_def example_defs le_max_iff_disj)
  have r: "nbcon_emit_next_record 0 example_ops example_prb True
     (example_wctxt ((example_ctxt NBCON_PRIO_NORMAL False 0)\<lparr>seq := 10\<rparr>))
     example_forced_mem =
   (True,
    \<lparr>wctxt_ctxt = (example_ctxt NBCON_PRIO_NORMAL False 0)\<lparr>seq := 12, backlog := True\<rparr>,
     outbuf = Some [Record_text ''line''], len = 4, wctxt_unsafe_takeover = False\<rparr>,
    (example_console (example_state NBCON_PRIO_NORMAL NBCON_PRIO_NONE False 0))
      \<lparr>nbcon_prev_seq := 10, nbcon_seq := 12, device := [[Record_text ''line'']]\<rparr>, [])"
    by (simp add: run_defs example_defs example_forced_mem_def)
  show ?thesis
    using h r nbcon_seq_monotone
      [where Q = "(\<le>) 10" and ?s0.0 = 10 and m = example_forced_mem and prb = example_prb
         and cons = example_ops and this_cpu = 0 and use_atomic = True
         and wctxt = "example_wctxt ((example_ctxt NBCON_PRIO_NORMAL False 0)\<lparr>seq := 10\<rparr>)"]
      example_driver_keeps [of "(\<le>) 10"] example_driver_keeps_ctxt_seq example_prb_forward
    by blast
qed

text \<open>
  Against C6 as stated: the owner emits record 10, which renders to no text.
  The driver is not called, nothing reaches the device, and \<^verbatim>\<open>nbcon_seq\<close>
  goes from 10 to 11 all the same: it has advanced without a write.
\<close>

theorem nbcon_seq_monotone_counterexample:
  "nbcon_emit_next_record 0 example_ops suppressed_prb True
     (example_wctxt ((example_ctxt NBCON_PRIO_NORMAL False 0)\<lparr>seq := 10\<rparr>))
     (example_console (example_state NBCON_PRIO_NORMAL NBCON_PRIO_NONE False 0), []) =
   (True,
    example_wctxt ((example_ctxt NBCON_PRIO_NORMAL False 0)\<lparr>seq := 11, backlog := True\<rparr>),
    (example_console (example_state NBCON_PRIO_NORMAL NBCON_PRIO_NONE False 0))
      \<lparr>nbcon_prev_seq := 10, nbcon_seq := 11, device := []\<rparr>, [])"
  by (simp add: run_defs example_defs suppressed_prb_def)

subsection \<open>Advancing the sequence number\<close>

lemma emit_driver_done_quiet:
  assumes q: "owned_quietly (ctxt_prio (wctxt_ctxt w)) this_cpu (nbcon_state c)"
    and o: "outbuf w \<noteq> None"
  shows "emit_driver_done this_cpu w pmsg con_dropped (c, []) =
     (True,
      w\<lparr>wctxt_ctxt := (wctxt_ctxt w)
           \<lparr>seq := (if nbcon_seq c = seq (wctxt_ctxt w) then pmsg_seq pmsg + 1
                    else nbcon_seq c)\<rparr>\<rparr>,
      c\<lparr>nbcon_state := (nbcon_state c)\<lparr>unsafe := unsafe_takeover (nbcon_state c)\<rparr>,
        dropped := (if 0 \<noteq> con_dropped then 0 else dropped c),
        nbcon_seq := (if nbcon_seq c = seq (wctxt_ctxt w) then pmsg_seq pmsg + 1
                      else nbcon_seq c)\<rparr>, [])"
  using o by (cases "outbuf w") (simp_all add: emit_driver_done_def emit_update_con_quiet [OF q])

lemma emit_advances_quiet:
  assumes q: "owned_quietly (ctxt_prio (wctxt_ctxt wctxt)) this_cpu (nbcon_state c)"
    and p: "prb (seq (wctxt_ctxt wctxt)) (con_extended cons) = Some pmsg0"
    and w: "(if use_atomic then write_atomic cons else write_thread cons) = Some write"
    and d: "device_only write"
  shows "\<exists>w' c'. nbcon_emit_next_record this_cpu cons prb use_atomic wctxt (c, []) =
                    (True, w', c', []) \<and>
           nbcon_seq c' = (if nbcon_seq c = seq (wctxt_ctxt wctxt) then pmsg_seq pmsg0 + 1
                           else nbcon_seq c) \<and>
           seq (wctxt_ctxt w') = nbcon_seq c' \<and>
           backlog (wctxt_ctxt w') \<and>
           ctxt_prio (wctxt_ctxt w') = ctxt_prio (wctxt_ctxt wctxt) \<and>
           nbcon_state c' = (nbcon_state c)\<lparr>unsafe := unsafe_takeover (nbcon_state c)\<rparr>"
proof -
  let ?pmsg = "with_dropped cons (dropped c) pmsg0"
  let ?w1 = "wctxt\<lparr>wctxt_ctxt := (wctxt_ctxt wctxt)\<lparr>backlog := True\<rparr>\<rparr>"
  let ?ut = "unsafe_takeover (nbcon_state c)"
  show ?thesis
  proof (cases "nbcon_prev_seq c = pmsg_seq pmsg0")
    case True
    let ?W = "?w1\<lparr>outbuf := Some (Replay_notice # pmsg_outbuf ?pmsg),
                   len := outbuf_len ?pmsg + 1, wctxt_unsafe_takeover := ?ut\<rparr>"
    let ?c2 = "c\<lparr>nbcon_state := (nbcon_state c)\<lparr>unsafe := ?ut\<rparr>\<rparr>"
    obtain dv where dv: "write ?W (?c2, []) = (?W, ?c2\<lparr>device := dv\<rparr>, [])"
      using d unfolding device_only_def by blast
    have q2: "owned_quietly (ctxt_prio (wctxt_ctxt ?W)) this_cpu (nbcon_state (?c2\<lparr>device := dv\<rparr>))"
      using q by simp
    have o: "outbuf ?W \<noteq> None" by simp
    have e2: "nbcon_emit_next_record this_cpu cons prb use_atomic wctxt (c, []) =
          emit_driver_done this_cpu ?W (console_prepend_replay ?pmsg) (dropped c)
            (?c2\<lparr>device := dv\<rparr>, [])"
      by (simp only: emit_replay_quiet [where prb = prb, OF q p w True] dv prod.case)
    show ?thesis
      unfolding e2 emit_driver_done_quiet [OF q2 o] by simp
  next
    case False
    let ?c1 = "c\<lparr>nbcon_state := (nbcon_state c)\<lparr>unsafe := True\<rparr>,
                 nbcon_prev_seq := pmsg_seq pmsg0\<rparr>"
    have q1: "owned_quietly (ctxt_prio (wctxt_ctxt ?w1)) this_cpu (nbcon_state ?c1)"
      using q by simp
    have e: "nbcon_emit_next_record this_cpu cons prb use_atomic wctxt (c, []) =
          emit_write this_cpu cons use_atomic ?w1 ?pmsg
            (dropped c + pmsg_dropped pmsg0) (dropped c) (?c1, [])"
      using q p False by (rule emit_first_quiet)
    show ?thesis
    proof (cases "outbuf_len ?pmsg = 0")
      case True
      have q3: "owned_quietly (ctxt_prio (wctxt_ctxt ?w1)) this_cpu
                  (nbcon_state (?c1\<lparr>nbcon_state := (nbcon_state ?c1)
                     \<lparr>unsafe := unsafe (nbcon_state ?c1) \<and> unsafe_takeover (nbcon_state ?c1)\<rparr>\<rparr>))"
        using q by simp
      show ?thesis
        unfolding e emit_write_skip_quiet [OF q1 True] emit_update_con_quiet [OF q3]
        by simp
    next
      case l: False
      let ?W = "?w1\<lparr>outbuf := Some (pmsg_outbuf ?pmsg), len := outbuf_len ?pmsg,
                     wctxt_unsafe_takeover := ?ut\<rparr>"
      let ?c2 = "c\<lparr>nbcon_prev_seq := pmsg_seq pmsg0,
                   nbcon_state := (nbcon_state c)\<lparr>unsafe := ?ut\<rparr>\<rparr>"
      obtain dv where dv: "write ?W (?c2, []) = (?W, ?c2\<lparr>device := dv\<rparr>, [])"
        using d unfolding device_only_def by blast
      have q2: "owned_quietly (ctxt_prio (wctxt_ctxt ?W)) this_cpu
                  (nbcon_state (?c2\<lparr>device := dv\<rparr>))"
        using q by simp
      have o: "outbuf ?W \<noteq> None" by simp
      have e2: "nbcon_emit_next_record this_cpu cons prb use_atomic wctxt (c, []) =
            emit_driver_done this_cpu ?W ?pmsg (dropped c) (?c2\<lparr>device := dv\<rparr>, [])"
        by (simp only: emit_no_replay_quiet [where prb = prb, OF q p w False l] dv prod.case)
      show ?thesis
        unfolding e2 emit_driver_done_quiet [OF q2 o] by simp
    qed
  qed
qed

lemma seq_alone_interfere:
  "seq_alone m \<Longrightarrow>
   seq_alone (interfere m) \<and> nbcon_seq (fst (interfere m)) = nbcon_seq (fst m)"
  by (cases m rule: interfere.cases) (auto simp: seq_alone_def)

lemma seq_alone_steps:
  "steps state_write m m' \<Longrightarrow> seq_alone m \<Longrightarrow>
   seq_alone m' \<and> nbcon_seq (fst m') = nbcon_seq (fst m)"
  by (induction rule: steps.induct) (auto simp: seq_alone_def state_write_def)

lemma seq_alone_reads:
  "seq_alone m \<Longrightarrow> seq_alone (snd (nbcon_state_read m)) \<and>
     nbcon_seq (fst (snd (nbcon_state_read m))) = nbcon_seq (fst m)"
  "seq_alone m \<Longrightarrow> seq_alone (snd (read_dropped m)) \<and>
     nbcon_seq (fst (snd (read_dropped m))) = nbcon_seq (fst m)"
  "seq_alone m \<Longrightarrow> seq_alone (snd (read_prev_seq m)) \<and>
     nbcon_seq (fst (snd (read_prev_seq m))) = nbcon_seq (fst m)"
  "seq_alone m \<Longrightarrow> seq_alone (write_dropped v m) \<and>
     nbcon_seq (fst (write_dropped v m)) = nbcon_seq (fst m)"
  "seq_alone m \<Longrightarrow> seq_alone (prev_seq_try_cmpxchg old new m) \<and>
     nbcon_seq (fst (prev_seq_try_cmpxchg old new m)) = nbcon_seq (fst m)"
  using seq_alone_interfere [of m]
  by (auto simp: nbcon_state_read_def read_dropped_def read_prev_seq_def write_dropped_def
      prev_seq_try_cmpxchg_def seq_alone_def split: prod.splits)

lemma seq_alone_update_unsafe:
  assumes "nbcon_context_update_unsafe this_cpu ctxt u m = (b, ctxt', m')" and "seq_alone m"
  shows "seq_alone m' \<and> nbcon_seq (fst m') = nbcon_seq (fst m) \<and> seq ctxt' = seq ctxt"
  using seq_alone_steps [OF steps_update_unsafe [OF assms(1)] assms(2)]
    update_unsafe_seq [of this_cpu ctxt u m] assms(1)
  by simp

lemma seq_alone_try_update:
  assumes "nbcon_seq_try_update ctxt new_seq m = (ctxt', m')" and "seq_alone m"
  shows "seq_alone m' \<and>
         nbcon_seq (fst m') = (if nbcon_seq (fst m) = seq ctxt then new_seq else nbcon_seq (fst m)) \<and>
         seq ctxt' = nbcon_seq (fst m')"
proof -
  obtain c es where i: "interfere m = (c, es)" by (cases "interfere m") auto
  have a: "seq_alone (c, es)" "nbcon_seq c = nbcon_seq (fst m)"
    using seq_alone_interfere [OF assms(2)] i by simp_all
  obtain c2 es2 where i2: "interfere (c, es) = (c2, es2)" by (cases "interfere (c, es)") auto
  have b: "seq_alone (c2, es2)" "nbcon_seq c2 = nbcon_seq c"
    using seq_alone_interfere [OF a(1)] i2 by simp_all
  have "nbcon_seq_try_update ctxt new_seq m =
          (if nbcon_seq c = seq ctxt then (ctxt\<lparr>seq := new_seq\<rparr>, c\<lparr>nbcon_seq := new_seq\<rparr>, es)
           else (ctxt\<lparr>seq := nbcon_seq c2\<rparr>, c2, es2))"
    unfolding nbcon_seq_try_update_def nbcon_seq_read_def i prod.case i2 by simp
  then show ?thesis
    using assms(1) a b by (auto simp: seq_alone_def split: if_splits)
qed

lemma emit_update_con_true:
  assumes r: "emit_update_con this_cpu wctxt pmsg dropped_now con_dropped m = (True, w', m')"
    and a: "seq_alone m"
  shows "seq_alone m' \<and>
         nbcon_seq (fst m') =
           (if nbcon_seq (fst m) = seq (wctxt_ctxt wctxt) then pmsg_seq pmsg + 1
            else nbcon_seq (fst m)) \<and>
         seq (wctxt_ctxt w') = nbcon_seq (fst m')"
proof -
  obtain b ctxt1 m1 where e: "nbcon_context_update_unsafe this_cpu (wctxt_ctxt wctxt) True m =
                                (b, ctxt1, m1)"
    by (cases "nbcon_context_update_unsafe this_cpu (wctxt_ctxt wctxt) True m") auto
  note a1 = seq_alone_update_unsafe [OF e a]
  let ?m2 = "if dropped_now \<noteq> con_dropped then write_dropped dropped_now m1 else m1"
  have a2: "seq_alone ?m2 \<and> nbcon_seq (fst ?m2) = nbcon_seq (fst m)"
    using a1 seq_alone_reads(4) [of m1 dropped_now] by simp
  obtain ctxt2 m3 where t: "nbcon_seq_try_update ctxt1 (pmsg_seq pmsg + 1) ?m2 = (ctxt2, m3)"
    by (cases "nbcon_seq_try_update ctxt1 (pmsg_seq pmsg + 1) ?m2") auto
  have a3: "seq_alone m3 \<and>
         nbcon_seq (fst m3) =
           (if nbcon_seq (fst m) = seq (wctxt_ctxt wctxt) then pmsg_seq pmsg + 1
            else nbcon_seq (fst m)) \<and>
         seq ctxt2 = nbcon_seq (fst m3)"
    using seq_alone_try_update [OF t] a2 a1 by simp
  obtain b4 ctxt3 m4 where x: "nbcon_context_update_unsafe this_cpu ctxt2 False m3 =
                                 (b4, ctxt3, m4)"
    by (cases "nbcon_context_update_unsafe this_cpu ctxt2 False m3") auto
  have a4: "seq_alone m4 \<and> nbcon_seq (fst m4) = nbcon_seq (fst m3) \<and> seq ctxt3 = seq ctxt2"
    using seq_alone_update_unsafe [OF x] a3 by simp
  have "b \<and> w' = wctxt\<lparr>wctxt_ctxt := ctxt3\<rparr> \<and> m' = m4"
    using r e t x
    by (auto simp: emit_update_con_def nbcon_context_enter_unsafe_def
        nbcon_context_exit_unsafe_def split: if_splits)
  then show ?thesis using a3 a4 by simp
qed

lemma emit_write_true:
  assumes r: "emit_write this_cpu cons use_atomic wctxt pmsg dropped_now con_dropped m =
                (True, w', m')"
    and a: "seq_alone m"
    and d: "driver_leaves_seq cons" and k: "driver_keeps_ctxt_seq cons"
  shows "seq_alone m' \<and>
         nbcon_seq (fst m') =
           (if nbcon_seq (fst m) = seq (wctxt_ctxt wctxt) then pmsg_seq pmsg + 1
            else nbcon_seq (fst m)) \<and>
         seq (wctxt_ctxt w') = nbcon_seq (fst m')"
proof -
  obtain b ctxt1 m1 where e: "nbcon_context_update_unsafe this_cpu (wctxt_ctxt wctxt) False m =
                                (b, ctxt1, m1)"
    by (cases "nbcon_context_update_unsafe this_cpu (wctxt_ctxt wctxt) False m") auto
  note a1 = seq_alone_update_unsafe [OF e a]
  have b: "b"
    using r e by (auto simp: emit_write_def nbcon_context_exit_unsafe_def split: if_splits)
  show ?thesis
  proof (cases "outbuf_len pmsg = 0")
    case True
    then have "emit_update_con this_cpu (wctxt\<lparr>wctxt_ctxt := ctxt1\<rparr>) pmsg dropped_now
                 con_dropped m1 = (True, w', m')"
      using r e b by (simp add: emit_write_def nbcon_context_exit_unsafe_def)
    from emit_update_con_true [OF this] a1 show ?thesis by simp
  next
    case False
    obtain cur m2 where rd: "nbcon_state_read m1 = (cur, m2)"
      by (cases "nbcon_state_read m1") auto
    have a2: "seq_alone m2 \<and> nbcon_seq (fst m2) = nbcon_seq (fst m)"
      using seq_alone_reads(1) [of m1] a1 rd by simp
    let ?W = "wctxt\<lparr>wctxt_ctxt := ctxt1, outbuf := Some (pmsg_outbuf pmsg),
                    len := outbuf_len pmsg, wctxt_unsafe_takeover := unsafe_takeover cur\<rparr>"
    obtain wcb where cb: "(if use_atomic then write_atomic cons else write_thread cons) = Some wcb"
      using r e b False rd
      by (cases "if use_atomic then write_atomic cons else write_thread cons")
         (auto simp: emit_write_def nbcon_context_exit_unsafe_def split: prod.splits)
    then have mem: "wcb \<in> callbacks cons"
      by (auto simp: callbacks_def split: if_splits)
    obtain w1 m3 where wr: "wcb ?W m2 = (w1, m3)" by (cases "wcb ?W m2") auto
    have "seq_alone (snd (wcb ?W m2)) \<and>
          nbcon_seq (fst (snd (wcb ?W m2))) = nbcon_seq (fst m2)"
      using d mem a2 unfolding driver_leaves_seq_def by blast
    then have a3: "seq_alone m3 \<and> nbcon_seq (fst m3) = nbcon_seq (fst m)"
      using wr a2 by simp
    have dd: "emit_driver_done this_cpu w1 pmsg con_dropped m3 = (True, w', m')"
      using r e b False rd cb wr by (simp add: emit_write_def nbcon_context_exit_unsafe_def)
    then have o: "outbuf w1 \<noteq> None"
      by (auto simp: emit_driver_done_def split: if_splits prod.splits)
    have "outbuf (fst (wcb ?W m2)) \<noteq> None \<longrightarrow>
          seq (wctxt_ctxt (fst (wcb ?W m2))) = seq (wctxt_ctxt ?W)"
      using k mem unfolding driver_keeps_ctxt_seq_def by blast
    then have s1: "seq (wctxt_ctxt w1) = seq (wctxt_ctxt wctxt)"
      using wr o a1 by simp
    have "emit_update_con this_cpu w1 pmsg 0 con_dropped m3 = (True, w', m')"
      using dd o by (simp add: emit_driver_done_def)
    from emit_update_con_true [OF this] a3 s1 show ?thesis by simp
  qed
qed

lemma emit_true:
  assumes r: "nbcon_emit_next_record this_cpu cons prb use_atomic wctxt m = (True, w', m')"
    and p: "prb (seq (wctxt_ctxt wctxt)) (con_extended cons) = Some pmsg0"
    and a: "seq_alone m"
    and d: "driver_leaves_seq cons" and k: "driver_keeps_ctxt_seq cons"
  shows "nbcon_seq (fst m') =
           (if nbcon_seq (fst m) = seq (wctxt_ctxt wctxt) then pmsg_seq pmsg0 + 1
            else nbcon_seq (fst m)) \<and>
         seq (wctxt_ctxt w') = nbcon_seq (fst m')"
proof -
  obtain b ctxt1 m1 where e: "nbcon_context_update_unsafe this_cpu (wctxt_ctxt wctxt) True m =
                                (b, ctxt1, m1)"
    by (cases "nbcon_context_update_unsafe this_cpu (wctxt_ctxt wctxt) True m") auto
  note a1 = seq_alone_update_unsafe [OF e a]
  have b: "b"
    using r e by (auto simp: nbcon_emit_next_record_def nbcon_context_enter_unsafe_def
        split: if_splits)
  have p1: "prb (seq ctxt1) (con_extended cons) = Some pmsg0"
    using p a1 by simp
  obtain cd m2 where rdd: "read_dropped m1 = (cd, m2)"
    by (cases "read_dropped m1") auto
  have a2: "seq_alone m2 \<and> nbcon_seq (fst m2) = nbcon_seq (fst m)"
    using seq_alone_reads(2) [of m1] a1 rdd by simp
  let ?pmsg = "if cd + pmsg_dropped pmsg0 \<noteq> 0 \<and> \<not> con_extended cons
               then console_prepend_dropped pmsg0 (cd + pmsg_dropped pmsg0) else pmsg0"
  have ps: "pmsg_seq ?pmsg = pmsg_seq pmsg0"
    by (simp add: console_prepend_dropped_def)
  obtain ulseq m3 where rdp: "read_prev_seq m2 = (ulseq, m3)"
    by (cases "read_prev_seq m2") auto
  have a3: "seq_alone m3 \<and> nbcon_seq (fst m3) = nbcon_seq (fst m)"
    using seq_alone_reads(3) [of m2] a2 rdp by simp
  show ?thesis
  proof (cases "ulseq = pmsg_seq ?pmsg")
    case True
    then have "emit_write this_cpu cons use_atomic
                 (wctxt\<lparr>wctxt_ctxt := ctxt1\<lparr>backlog := True\<rparr>\<rparr>) (console_prepend_replay ?pmsg)
                 (cd + pmsg_dropped pmsg0) cd m3 = (True, w', m')"
      using r e b p1 rdd rdp
      by (simp add: nbcon_emit_next_record_def nbcon_context_enter_unsafe_def
          printk_get_next_message_def Let_def)
    from emit_write_true [OF this _ d k] a3 a1 ps show ?thesis by simp
  next
    case False
    obtain cur m4 where rds: "nbcon_state_read m3 = (cur, m4)"
      by (cases "nbcon_state_read m3") auto
    have a4: "seq_alone m4 \<and> nbcon_seq (fst m4) = nbcon_seq (fst m)"
      using seq_alone_reads(1) [of m3] a3 rds by simp
    obtain pr ctxt2 m5 where cp:
      "nbcon_context_can_proceed this_cpu (ctxt1\<lparr>backlog := True\<rparr>) cur m4 = (pr, ctxt2, m5)"
      by (cases "nbcon_context_can_proceed this_cpu (ctxt1\<lparr>backlog := True\<rparr>) cur m4") auto
    have pr: "pr"
      using r e b p1 rdd rdp rds cp False
      by (auto simp: nbcon_emit_next_record_def nbcon_context_enter_unsafe_def
          printk_get_next_message_def Let_def split: if_splits)
    then have c5: "ctxt2 = ctxt1\<lparr>backlog := True\<rparr> \<and> m5 = m4"
      using can_proceed_True [of this_cpu "ctxt1\<lparr>backlog := True\<rparr>" cur m4 ctxt2 m5] cp by simp
    let ?m6 = "prev_seq_try_cmpxchg ulseq (pmsg_seq ?pmsg) m5"
    have a6: "seq_alone ?m6 \<and> nbcon_seq (fst ?m6) = nbcon_seq (fst m)"
      using seq_alone_reads(5) [of m5 ulseq "pmsg_seq ?pmsg"] a4 c5 by simp
    have "emit_write this_cpu cons use_atomic (wctxt\<lparr>wctxt_ctxt := ctxt2\<rparr>) ?pmsg
            (cd + pmsg_dropped pmsg0) cd ?m6 = (True, w', m')"
      using r e b p1 rdd rdp rds cp pr False
      by (simp add: nbcon_emit_next_record_def nbcon_context_enter_unsafe_def
          printk_get_next_message_def Let_def)
    from emit_write_true [OF this _ d k] a6 a1 c5 ps show ?thesis by simp
  qed
qed

text \<open>
  C9, as the code has it. First conjunct: the calling context owns the console,
  with or without a hostile takeover behind it, no other CPU interferes, the
  ring buffer returns a record \<open>pmsg0\<close> for the context's sequence number, and
  the driver keeps ownership. Then the emitter returns true, and
  \<^verbatim>\<open>nbcon_seq\<close> has gone from the context's sequence number to the sequence
  number of the record that was read, plus one; when \<^verbatim>\<open>nbcon_seq\<close> was not
  the context's sequence number (it was forced meanwhile), it is left as it was.
  Either way the context's sequence number ends equal to \<^verbatim>\<open>nbcon_seq\<close>, and
  the caller still owns the console: the state word is as it was, outside the
  unsafe section unless the console has been taken over by force. Second
  conjunct: the same holds of every emission that returns true, that is, that
  has kept the console to its end, in whatever state the console is and whatever
  the other CPUs do to the state word meanwhile, as long as they and the driver
  leave \<^verbatim>\<open>nbcon_seq\<close> to the owner.
\<close>

theorem emit_advances_seq:
  "(owned_quietly (ctxt_prio (wctxt_ctxt wctxt)) this_cpu (nbcon_state c) \<and>
    prb (seq (wctxt_ctxt wctxt)) (con_extended cons) = Some pmsg0 \<and>
    (if use_atomic then write_atomic cons else write_thread cons) = Some callback \<and>
    device_only callback \<longrightarrow>
    fst (nbcon_emit_next_record this_cpu cons prb use_atomic wctxt (c, [])) \<and>
    nbcon_seq (fst (snd (snd (nbcon_emit_next_record this_cpu cons prb use_atomic wctxt (c, []))))) =
      (if nbcon_seq c = seq (wctxt_ctxt wctxt) then pmsg_seq pmsg0 + 1 else nbcon_seq c) \<and>
    seq (wctxt_ctxt (fst (snd (nbcon_emit_next_record this_cpu cons prb use_atomic wctxt (c, []))))) =
      nbcon_seq (fst (snd (snd (nbcon_emit_next_record this_cpu cons prb use_atomic wctxt (c, []))))) \<and>
    nbcon_state (fst (snd (snd (nbcon_emit_next_record this_cpu cons prb use_atomic wctxt (c, []))))) =
      (nbcon_state c)\<lparr>unsafe := unsafe_takeover (nbcon_state c)\<rparr>) \<and>
   (seq_alone m \<and> driver_leaves_seq cons \<and> driver_keeps_ctxt_seq cons \<and>
    prb (seq (wctxt_ctxt wctxt)) (con_extended cons) = Some pmsg0 \<and>
    nbcon_emit_next_record this_cpu cons prb use_atomic wctxt m = (True, w', m') \<longrightarrow>
    nbcon_seq (fst m') =
      (if nbcon_seq (fst m) = seq (wctxt_ctxt wctxt) then pmsg_seq pmsg0 + 1
       else nbcon_seq (fst m)) \<and>
    seq (wctxt_ctxt w') = nbcon_seq (fst m'))"
proof (rule conjI)
  show "owned_quietly (ctxt_prio (wctxt_ctxt wctxt)) this_cpu (nbcon_state c) \<and>
    prb (seq (wctxt_ctxt wctxt)) (con_extended cons) = Some pmsg0 \<and>
    (if use_atomic then write_atomic cons else write_thread cons) = Some callback \<and>
    device_only callback \<longrightarrow>
    fst (nbcon_emit_next_record this_cpu cons prb use_atomic wctxt (c, [])) \<and>
    nbcon_seq (fst (snd (snd (nbcon_emit_next_record this_cpu cons prb use_atomic wctxt (c, []))))) =
      (if nbcon_seq c = seq (wctxt_ctxt wctxt) then pmsg_seq pmsg0 + 1 else nbcon_seq c) \<and>
    seq (wctxt_ctxt (fst (snd (nbcon_emit_next_record this_cpu cons prb use_atomic wctxt (c, []))))) =
      nbcon_seq (fst (snd (snd (nbcon_emit_next_record this_cpu cons prb use_atomic wctxt (c, []))))) \<and>
    nbcon_state (fst (snd (snd (nbcon_emit_next_record this_cpu cons prb use_atomic wctxt (c, []))))) =
      (nbcon_state c)\<lparr>unsafe := unsafe_takeover (nbcon_state c)\<rparr>"
  proof (rule impI)
    assume "owned_quietly (ctxt_prio (wctxt_ctxt wctxt)) this_cpu (nbcon_state c) \<and>
      prb (seq (wctxt_ctxt wctxt)) (con_extended cons) = Some pmsg0 \<and>
      (if use_atomic then write_atomic cons else write_thread cons) = Some callback \<and>
      device_only callback"
    then have "\<exists>w' c'. nbcon_emit_next_record this_cpu cons prb use_atomic wctxt (c, []) =
                    (True, w', c', []) \<and>
           nbcon_seq c' = (if nbcon_seq c = seq (wctxt_ctxt wctxt) then pmsg_seq pmsg0 + 1
                           else nbcon_seq c) \<and>
           seq (wctxt_ctxt w') = nbcon_seq c' \<and>
           backlog (wctxt_ctxt w') \<and>
           ctxt_prio (wctxt_ctxt w') = ctxt_prio (wctxt_ctxt wctxt) \<and>
           nbcon_state c' = (nbcon_state c)\<lparr>unsafe := unsafe_takeover (nbcon_state c)\<rparr>"
      using emit_advances_quiet [of wctxt this_cpu c prb cons pmsg0 use_atomic callback] by blast
    then show "fst (nbcon_emit_next_record this_cpu cons prb use_atomic wctxt (c, [])) \<and>
      nbcon_seq (fst (snd (snd (nbcon_emit_next_record this_cpu cons prb use_atomic wctxt (c, []))))) =
        (if nbcon_seq c = seq (wctxt_ctxt wctxt) then pmsg_seq pmsg0 + 1 else nbcon_seq c) \<and>
      seq (wctxt_ctxt (fst (snd (nbcon_emit_next_record this_cpu cons prb use_atomic wctxt (c, []))))) =
        nbcon_seq (fst (snd (snd (nbcon_emit_next_record this_cpu cons prb use_atomic wctxt (c, []))))) \<and>
      nbcon_state (fst (snd (snd (nbcon_emit_next_record this_cpu cons prb use_atomic wctxt (c, []))))) =
        (nbcon_state c)\<lparr>unsafe := unsafe_takeover (nbcon_state c)\<rparr>"
      by auto
  qed
  show "seq_alone m \<and> driver_leaves_seq cons \<and> driver_keeps_ctxt_seq cons \<and>
    prb (seq (wctxt_ctxt wctxt)) (con_extended cons) = Some pmsg0 \<and>
    nbcon_emit_next_record this_cpu cons prb use_atomic wctxt m = (True, w', m') \<longrightarrow>
    nbcon_seq (fst m') =
      (if nbcon_seq (fst m) = seq (wctxt_ctxt wctxt) then pmsg_seq pmsg0 + 1
       else nbcon_seq (fst m)) \<and>
    seq (wctxt_ctxt w') = nbcon_seq (fst m')"
    using emit_true [of this_cpu cons prb use_atomic wctxt m w' m' pmsg0] by blast
qed

lemma device_only_record_output: "device_only record_output"
  by (auto simp: device_only_def record_output_def)

lemma example_driver_leaves_seq: "driver_leaves_seq example_ops"
  by (auto simp: driver_leaves_seq_def callbacks_def example_ops_def record_output_def
      seq_alone_def)

text \<open>
  The records 10 and 11 have been reclaimed, the oldest record is 12. The owner,
  whose sequence number is 10, prints record 12 with the count of the two
  dropped records, and \<^verbatim>\<open>nbcon_seq\<close> becomes 13. The PANIC context on
  CPU 1, which has taken the console over by force, prints record 10:
  \<^verbatim>\<open>nbcon_seq\<close> becomes 11 and the console stays unsafe. And while the
  NORMAL owner on CPU 0 prints record 10, an EMERGENCY context on another CPU
  posts a handover request and withdraws it again; the owner is in its unsafe
  section and does not see it, the emission returns true and \<^verbatim>\<open>nbcon_seq\<close>
  becomes 11.
\<close>

theorem emit_advances_seq_witness:
  "fst (nbcon_emit_next_record 0 example_ops reclaimed_prb True
          (example_wctxt ((example_ctxt NBCON_PRIO_NORMAL False 0)\<lparr>seq := 10\<rparr>))
          (example_console (example_state NBCON_PRIO_NORMAL NBCON_PRIO_NONE False 0), [])) \<and>
   nbcon_seq (fst (snd (snd (nbcon_emit_next_record 0 example_ops reclaimed_prb True
          (example_wctxt ((example_ctxt NBCON_PRIO_NORMAL False 0)\<lparr>seq := 10\<rparr>))
          (example_console (example_state NBCON_PRIO_NORMAL NBCON_PRIO_NONE False 0), []))))) = 13 \<and>
   fst (nbcon_emit_next_record 1 example_ops example_prb True
          (example_wctxt ((example_ctxt NBCON_PRIO_PANIC True 0)\<lparr>seq := 10\<rparr>))
          (fst example_takeover_mem, [])) \<and>
   nbcon_seq (fst (snd (snd (nbcon_emit_next_record 1 example_ops example_prb True
          (example_wctxt ((example_ctxt NBCON_PRIO_PANIC True 0)\<lparr>seq := 10\<rparr>))
          (fst example_takeover_mem, []))))) = 11 \<and>
   nbcon_state (fst (snd (snd (nbcon_emit_next_record 1 example_ops example_prb True
          (example_wctxt ((example_ctxt NBCON_PRIO_PANIC True 0)\<lparr>seq := 10\<rparr>))
          (fst example_takeover_mem, []))))) =
     \<lparr>prio = NBCON_PRIO_PANIC, req_prio = NBCON_PRIO_NONE, unsafe = True,
      unsafe_takeover = True, cpu = 1\<rparr> \<and>
   nbcon_emit_next_record 0 example_ops example_prb True
     (example_wctxt ((example_ctxt NBCON_PRIO_NORMAL False 0)\<lparr>seq := 10\<rparr>))
     (example_console (example_state NBCON_PRIO_NORMAL NBCON_PRIO_NONE False 0),
      [id, id, nbcon_state_update (\<lambda>s. s\<lparr>req_prio := NBCON_PRIO_EMERGENCY\<rparr>),
       nbcon_state_update (\<lambda>s. s\<lparr>req_prio := NBCON_PRIO_NONE\<rparr>)]) =
   (True,
    \<lparr>wctxt_ctxt = (example_ctxt NBCON_PRIO_NORMAL False 0)\<lparr>seq := 11, backlog := True\<rparr>,
     outbuf = Some [Record_text ''line''], len = 4, wctxt_unsafe_takeover = False\<rparr>,
    (example_console (example_state NBCON_PRIO_NORMAL NBCON_PRIO_NONE False 0))
      \<lparr>nbcon_prev_seq := 10, nbcon_seq := 11, device := [[Record_text ''line'']]\<rparr>, []) \<and>
   nbcon_seq (example_console (example_state NBCON_PRIO_NORMAL NBCON_PRIO_NONE False 0)) + 1 = 11"
proof -
  let ?w = "example_wctxt ((example_ctxt NBCON_PRIO_NORMAL False 0)\<lparr>seq := 10\<rparr>)"
  let ?c = "example_console (example_state NBCON_PRIO_NORMAL NBCON_PRIO_NONE False 0)"
  let ?wp = "example_wctxt ((example_ctxt NBCON_PRIO_PANIC True 0)\<lparr>seq := 10\<rparr>)"
  let ?cp = "fst example_takeover_mem"
  let ?m = "(?c, [id, id, nbcon_state_update (\<lambda>s. s\<lparr>req_prio := NBCON_PRIO_EMERGENCY\<rparr>),
                  nbcon_state_update (\<lambda>s. s\<lparr>req_prio := NBCON_PRIO_NONE\<rparr>)])"
  let ?w' = "\<lparr>wctxt_ctxt = (example_ctxt NBCON_PRIO_NORMAL False 0)\<lparr>seq := 11, backlog := True\<rparr>,
              outbuf = Some [Record_text ''line''], len = 4, wctxt_unsafe_takeover = False\<rparr>"
  let ?m' = "(?c\<lparr>nbcon_prev_seq := 10, nbcon_seq := 11, device := [[Record_text ''line'']]\<rparr>,
              [])"
  let ?rec = "\<lparr>pmsg_outbuf = [Record_text ''line''], outbuf_len = 4, pmsg_seq = 10,
               pmsg_dropped = 0\<rparr>"
  have q: "owned_quietly (ctxt_prio (wctxt_ctxt ?w)) 0 (nbcon_state ?c)"
    and qp: "owned_quietly (ctxt_prio (wctxt_ctxt ?wp)) 1 (nbcon_state ?cp)"
    by (simp_all add: owned_quietly_def example_defs example_takeover_mem_def)
  have p: "reclaimed_prb (seq (wctxt_ctxt ?w)) (con_extended example_ops) =
           Some \<lparr>pmsg_outbuf = [Record_text ''line''], outbuf_len = 4, pmsg_seq = 12,
                 pmsg_dropped = 2\<rparr>"
    by (simp add: reclaimed_prb_def example_defs)
  have pp: "example_prb (seq (wctxt_ctxt ?wp)) (con_extended example_ops) = Some ?rec"
    and pn: "example_prb (seq (wctxt_ctxt ?w)) (con_extended example_ops) = Some ?rec"
    by (simp_all add: example_defs)
  have w: "(if True then write_atomic example_ops else write_thread example_ops) =
           Some record_output"
    by (simp add: example_ops_def)
  have run: "nbcon_emit_next_record 0 example_ops example_prb True ?w ?m = (True, ?w', ?m')"
    by (simp add: run_defs example_defs)
  have sa: "seq_alone ?m"
    by (simp add: seq_alone_def)
  note t1 = emit_advances_seq [where prb = reclaimed_prb and cons = example_ops and c = ?c
      and wctxt = ?w and this_cpu = 0 and use_atomic = True and callback = record_output,
      THEN conjunct1, THEN mp, OF conjI [OF q conjI [OF p conjI [OF w device_only_record_output]]]]
  note t2 = emit_advances_seq [where prb = example_prb and cons = example_ops and c = ?cp
      and wctxt = ?wp and this_cpu = 1 and use_atomic = True and callback = record_output,
      THEN conjunct1, THEN mp, OF conjI [OF qp conjI [OF pp conjI [OF w device_only_record_output]]]]
  note t3 = emit_advances_seq [where prb = example_prb and cons = example_ops and m = ?m
      and wctxt = ?w and this_cpu = 0 and use_atomic = True and w' = ?w' and m' = ?m',
      THEN conjunct2, THEN mp,
      OF conjI [OF sa conjI [OF example_driver_leaves_seq
           conjI [OF example_driver_keeps_ctxt_seq conjI [OF pn run]]]]]
  show ?thesis
    using t1 t2 t3 run
    by (simp add: example_defs example_takeover_mem_def)
qed

text \<open>
  Against C9 as stated: in that run the context's sequence number is 10, and
  \<^verbatim>\<open>nbcon_seq\<close> goes from 10 to 13, not to 11; the emission succeeds and
  ownership is kept.
\<close>

theorem emit_advances_seq_counterexample:
  "nbcon_emit_next_record 0 example_ops reclaimed_prb True
     (example_wctxt ((example_ctxt NBCON_PRIO_NORMAL False 0)\<lparr>seq := 10\<rparr>))
     (example_console (example_state NBCON_PRIO_NORMAL NBCON_PRIO_NONE False 0), []) =
   (True,
    \<lparr>wctxt_ctxt = (example_ctxt NBCON_PRIO_NORMAL False 0)\<lparr>seq := 13, backlog := True\<rparr>,
     outbuf = Some [Dropped_notice 2, Record_text ''line''], len = 5,
     wctxt_unsafe_takeover = False\<rparr>,
    (example_console (example_state NBCON_PRIO_NORMAL NBCON_PRIO_NONE False 0))
      \<lparr>nbcon_prev_seq := 12, nbcon_seq := 13,
       device := [[Dropped_notice 2, Record_text ''line'']]\<rparr>, [])"
  by (simp add: run_defs example_defs reclaimed_prb_def)

subsection \<open>Flushing one console\<close>

lemma flush_loop_rounds:
  "flush_loop fuel this_cpu cons prb stop_seq wctxt m = Some r \<Longrightarrow>
   flush_rounds this_cpu cons prb stop_seq wctxt m r"
proof (induction fuel arbitrary: wctxt m)
  case 0
  then show ?case by simp
next
  case (Suc fuel)
  obtain s m1 where sr: "nbcon_seq_read m = (s, m1)"
    by (cases "nbcon_seq_read m") auto
  obtain ctxtr mr where rl: "nbcon_context_release this_cpu (wctxt_ctxt wctxt) m1 = (ctxtr, mr)"
    by (cases "nbcon_context_release this_cpu (wctxt_ctxt wctxt) m1") auto
  obtain b w1 m2 where em: "nbcon_emit_next_record this_cpu cons prb True wctxt m1 = (b, w1, m2)"
    by (cases "nbcon_emit_next_record this_cpu cons prb True wctxt m1") auto
  obtain s2 m3 where sr2: "nbcon_seq_read m2 = (s2, m3)"
    by (cases "nbcon_seq_read m2") auto
  obtain ctxt4 m4 where rl2: "nbcon_context_release this_cpu (wctxt_ctxt w1) m3 = (ctxt4, m4)"
    by (cases "nbcon_context_release this_cpu (wctxt_ctxt w1) m3") auto
  consider (finished) "\<not> s < stop_seq" | (gone) "s < stop_seq" "\<not> b"
    | (empty) "s < stop_seq" "b" "\<not> backlog (wctxt_ctxt w1)"
    | (more) "s < stop_seq" "b" "backlog (wctxt_ctxt w1)"
    by blast
  then show ?case
  proof cases
    case finished
    then have "r = (OK, wctxt\<lparr>wctxt_ctxt := ctxtr\<rparr>, mr)"
      using Suc.prems sr rl by simp
    then show ?thesis
      using flush_rounds.reached [OF sr finished rl] by simp
  next
    case gone
    then have "r = (EAGAIN, w1, m2)"
      using Suc.prems sr em by simp
    moreover have "nbcon_emit_next_record this_cpu cons prb True wctxt m1 = (False, w1, m2)"
      using em gone by simp
    ultimately show ?thesis
      using flush_rounds.lost [OF sr gone(1)] by simp
  next
    case empty
    then have "r = (if s2 < stop_seq then ENOENT else OK, w1\<lparr>wctxt_ctxt := ctxt4\<rparr>, m4)"
      using Suc.prems sr em sr2 rl2 by simp
    moreover have "nbcon_emit_next_record this_cpu cons prb True wctxt m1 = (True, w1, m2)"
      using em empty by simp
    ultimately show ?thesis
      using flush_rounds.no_record [OF sr empty(1) _ empty(3) sr2 rl2] by simp
  next
    case more
    then have "flush_loop fuel this_cpu cons prb stop_seq w1 m2 = Some r"
      using Suc.prems sr em by simp
    then have "flush_rounds this_cpu cons prb stop_seq w1 m2 r" by (rule Suc.IH)
    moreover have "nbcon_emit_next_record this_cpu cons prb True wctxt m1 = (True, w1, m2)"
      using em more by simp
    ultimately show ?thesis
      using flush_rounds.next_record [OF sr more(1) _ more(3)] by simp
  qed
qed

lemma flush_rounds_loop:
  "flush_rounds this_cpu cons prb stop_seq wctxt m r \<Longrightarrow>
   \<exists>fuel. flush_loop fuel this_cpu cons prb stop_seq wctxt m = Some r"
proof (induction rule: flush_rounds.induct)
  case (reached m s m1 wctxt ctxt1 m2)
  then have "flush_loop (Suc 0) this_cpu cons prb stop_seq wctxt m =
             Some (OK, wctxt\<lparr>wctxt_ctxt := ctxt1\<rparr>, m2)"
    by simp
  then show ?case by blast
next
  case (lost m s m1 wctxt wctxt1 m2)
  then have "flush_loop (Suc 0) this_cpu cons prb stop_seq wctxt m = Some (EAGAIN, wctxt1, m2)"
    by simp
  then show ?case by blast
next
  case (no_record m s m1 wctxt wctxt1 m2 s2 m3 ctxt1 m4)
  then have "flush_loop (Suc 0) this_cpu cons prb stop_seq wctxt m =
             Some (if s2 < stop_seq then ENOENT else OK, wctxt1\<lparr>wctxt_ctxt := ctxt1\<rparr>, m4)"
    by simp
  then show ?case by blast
next
  case (next_record m s m1 wctxt wctxt1 m2 r)
  then obtain fuel where "flush_loop fuel this_cpu cons prb stop_seq wctxt1 m2 = Some r"
    by blast
  then have "flush_loop (Suc fuel) this_cpu cons prb stop_seq wctxt m = Some r"
    using next_record by simp
  then show ?case by blast
qed

lemma flush_loop_more_fuel:
  "flush_loop fuel this_cpu cons prb stop_seq wctxt m = Some r \<Longrightarrow>
   flush_loop (fuel + k) this_cpu cons prb stop_seq wctxt m = Some r"
proof (induction fuel arbitrary: wctxt m)
  case 0
  then show ?case by simp
next
  case (Suc fuel)
  obtain s m1 where sr: "nbcon_seq_read m = (s, m1)"
    by (cases "nbcon_seq_read m") auto
  obtain b w1 m2 where em: "nbcon_emit_next_record this_cpu cons prb True wctxt m1 = (b, w1, m2)"
    by (cases "nbcon_emit_next_record this_cpu cons prb True wctxt m1") auto
  show ?case
  proof (cases "s < stop_seq \<and> b \<and> backlog (wctxt_ctxt w1)")
    case True
    then have "flush_loop fuel this_cpu cons prb stop_seq w1 m2 = Some r"
      using Suc.prems sr em by simp
    then have "flush_loop (fuel + k) this_cpu cons prb stop_seq w1 m2 = Some r"
      by (rule Suc.IH)
    then show ?thesis using True sr em by simp
  next
    case False
    then show ?thesis using Suc.prems sr em by (auto split: prod.splits)
  qed
qed

lemma emit_none_quiet:
  assumes q: "owned_quietly (ctxt_prio (wctxt_ctxt wctxt)) this_cpu (nbcon_state c)"
    and p: "prb (seq (wctxt_ctxt wctxt)) (con_extended cons) = None"
  shows "nbcon_emit_next_record this_cpu cons prb use_atomic wctxt (c, []) =
         (True, wctxt\<lparr>wctxt_ctxt := (wctxt_ctxt wctxt)\<lparr>backlog := False\<rparr>\<rparr>,
          c\<lparr>nbcon_state := (nbcon_state c)\<lparr>unsafe := unsafe_takeover (nbcon_state c)\<rparr>\<rparr>, [])"
proof -
  let ?c1 = "c\<lparr>nbcon_state := (nbcon_state c)\<lparr>unsafe := True\<rparr>\<rparr>"
  have q1: "owned_quietly (ctxt_prio ((wctxt_ctxt wctxt)\<lparr>backlog := False\<rparr>)) this_cpu
              (nbcon_state ?c1)"
    using q by simp
  show ?thesis
    using p
    by (simp add: nbcon_emit_next_record_def nbcon_context_enter_unsafe_def
        update_unsafe_quiet [OF q] printk_get_next_message_def nbcon_context_exit_unsafe_def
        update_unsafe_quiet [OF q1])
qed

lemma flush_loop_quiet:
  assumes wa: "write_atomic cons = Some callback" and d: "device_only callback"
    and f: "prb_forward prb"
  shows "owned_quietly (ctxt_prio (wctxt_ctxt wctxt)) this_cpu (nbcon_state c) \<Longrightarrow>
         seq (wctxt_ctxt wctxt) = nbcon_seq c \<Longrightarrow>
         unat stop_seq - unat (nbcon_seq c) < fuel \<Longrightarrow>
         \<exists>e w' c'. flush_loop fuel this_cpu cons prb stop_seq wctxt (c, []) =
                      Some (e, w', c', []) \<and>
           prio (nbcon_state c') = NBCON_PRIO_NONE \<and>
           (e = OK \<and> stop_seq \<le> nbcon_seq c' \<or>
            e = ENOENT \<and> nbcon_seq c' < stop_seq \<and>
              prb (nbcon_seq c') (con_extended cons) = None)"
proof (induction fuel arbitrary: wctxt c)
  case 0
  then show ?case by simp
next
  case (Suc fuel)
  note q = Suc.prems(1)
  have own: "prio (nbcon_state c) = ctxt_prio (wctxt_ctxt wctxt) \<and> cpu (nbcon_state c) = this_cpu"
    using q by (simp add: owned_quietly_def)
  have sr: "\<And>c. nbcon_seq_read (c, []) = (nbcon_seq c, c, [])"
    by (simp add: nbcon_seq_read_def)
  show ?case
  proof (cases "nbcon_seq c < stop_seq")
    case False
    then show ?thesis
      using release_quiet [OF own] by (simp add: sr)
  next
    case True
    show ?thesis
    proof (cases "prb (seq (wctxt_ctxt wctxt)) (con_extended cons)")
      case None
      let ?c2 = "c\<lparr>nbcon_state := (nbcon_state c)\<lparr>unsafe := unsafe_takeover (nbcon_state c)\<rparr>\<rparr>"
      let ?ctxt2 = "(wctxt_ctxt wctxt)\<lparr>backlog := False\<rparr>"
      have own2: "prio (nbcon_state ?c2) = ctxt_prio ?ctxt2 \<and> cpu (nbcon_state ?c2) = this_cpu"
        using own by simp
      show ?thesis
        using True None Suc.prems(2) release_quiet [OF own2]
        by (simp add: sr emit_none_quiet [where prb = prb and cons = cons, OF q None])
    next
      case (Some pmsg0)
      have w: "(if True then write_atomic cons else write_thread cons) = Some callback"
        using wa by simp
      from emit_advances_quiet [where prb = prb and cons = cons, OF q Some w d]
      obtain w' c2 where
        e: "nbcon_emit_next_record this_cpu cons prb True wctxt (c, []) = (True, w', c2, [])"
        and s2: "nbcon_seq c2 = (if nbcon_seq c = seq (wctxt_ctxt wctxt) then pmsg_seq pmsg0 + 1
                                 else nbcon_seq c)"
        and s3: "seq (wctxt_ctxt w') = nbcon_seq c2"
        and b: "backlog (wctxt_ctxt w')"
        and p: "ctxt_prio (wctxt_ctxt w') = ctxt_prio (wctxt_ctxt wctxt)"
        and st: "nbcon_state c2 = (nbcon_state c)\<lparr>unsafe := unsafe_takeover (nbcon_state c)\<rparr>"
        by blast
      have q2: "owned_quietly (ctxt_prio (wctxt_ctxt w')) this_cpu (nbcon_state c2)"
        using q p st by simp
      have "nbcon_seq c < nbcon_seq c2"
        using s2 Suc.prems(2) prb_forward_larger [where prb = prb, OF f Some] by simp
      then have "unat (nbcon_seq c) < unat (nbcon_seq c2)"
        by (simp add: word_less_nat_alt)
      moreover have "unat (nbcon_seq c) < unat stop_seq"
        using True by (simp add: word_less_nat_alt)
      ultimately have m: "unat stop_seq - unat (nbcon_seq c2) < fuel"
        using Suc.prems(3) by simp
      from Suc.IH [OF q2 s3 m] show ?thesis
        using True e b by (simp add: sr)
    qed
  qed
qed

lemma steps_quiet: "steps G m m' \<Longrightarrow> snd m = [] \<Longrightarrow> snd m' = []"
  by (induction rule: steps.induct) auto

lemma handover_wait_quiet:
  "\<not> fst (other_cpu_in_panic this_cpu (c, [])) \<Longrightarrow> req_prio (nbcon_state c) = ctxt_prio ctxt \<Longrightarrow>
   handover_wait t this_cpu ctxt (nbcon_state c) (c, []) =
     (if prio (nbcon_state c) = NBCON_PRIO_NONE
      then (OK, nbcon_state c,
            c\<lparr>nbcon_state := (nbcon_state c)
                 \<lparr>prio := ctxt_prio ctxt, req_prio := NBCON_PRIO_NONE,
                  unsafe := unsafe_takeover (nbcon_state c), cpu := this_cpu\<rparr>\<rparr>, [])
      else (EBUSY, nbcon_state c, c, []))"
proof (induction t)
  case 0
  then show ?case
    by (subst handover_wait.simps)
       (auto simp: nbcon_context_try_acquire_requested_def other_cpu_in_panic_def
          nbcon_waiter_matches_def nbcon_state_read_def nbcon_state_try_cmpxchg_def)
next
  case (Suc t)
  then show ?case
    by (subst handover_wait.simps)
       (auto simp: nbcon_context_try_acquire_requested_def other_cpu_in_panic_def
          nbcon_waiter_matches_def nbcon_state_read_def nbcon_state_try_cmpxchg_def)
qed

lemma handover_unrequest_quiet:
  "req_prio (nbcon_state c) = ctxt_prio ctxt \<Longrightarrow>
   handover_unrequest e this_cpu ctxt (nbcon_state c) (c, []) =
     (e, (nbcon_state c)\<lparr>req_prio := NBCON_PRIO_NONE\<rparr>,
      c\<lparr>nbcon_state := (nbcon_state c)\<lparr>req_prio := NBCON_PRIO_NONE\<rparr>\<rparr>, [])"
  by (subst handover_unrequest.simps)
     (simp add: nbcon_waiter_matches_def nbcon_state_try_cmpxchg_def)

lemma handover_quiet:
  assumes "\<not> fst (other_cpu_in_panic this_cpu (c, []))"
  shows "nbcon_context_try_acquire_handover this_cpu ctxt (nbcon_state c) (c, []) =
     (if cpu (nbcon_state c) = this_cpu \<or> unsafe_takeover (nbcon_state c) \<or>
         spinwait_max_us ctxt = 0
      then (EBUSY, nbcon_state c, c, [])
      else if prio (nbcon_state c) = NBCON_PRIO_NONE
      then (OK, (nbcon_state c)\<lparr>req_prio := ctxt_prio ctxt\<rparr>,
            c\<lparr>nbcon_state := (nbcon_state c)
                 \<lparr>prio := ctxt_prio ctxt, req_prio := NBCON_PRIO_NONE,
                  unsafe := unsafe_takeover (nbcon_state c), cpu := this_cpu\<rparr>\<rparr>, [])
      else (EBUSY, (nbcon_state c)\<lparr>req_prio := NBCON_PRIO_NONE\<rparr>,
            c\<lparr>nbcon_state := (nbcon_state c)\<lparr>req_prio := NBCON_PRIO_NONE\<rparr>\<rparr>, []))"
proof -
  let ?c1 = "c\<lparr>nbcon_state := (nbcon_state c)\<lparr>req_prio := ctxt_prio ctxt\<rparr>\<rparr>"
  have p: "\<not> fst (other_cpu_in_panic this_cpu (?c1, []))"
    using assms by (simp add: other_cpu_in_panic_def)
  have r: "req_prio (nbcon_state ?c1) = ctxt_prio ctxt" by simp
  have w: "handover_wait (spinwait_max_us ctxt) this_cpu ctxt
             ((nbcon_state c)\<lparr>req_prio := ctxt_prio ctxt\<rparr>) (?c1, []) =
           (if prio (nbcon_state c) = NBCON_PRIO_NONE
            then (OK, (nbcon_state c)\<lparr>req_prio := ctxt_prio ctxt\<rparr>,
                  c\<lparr>nbcon_state := (nbcon_state c)
                       \<lparr>prio := ctxt_prio ctxt, req_prio := NBCON_PRIO_NONE,
                        unsafe := unsafe_takeover (nbcon_state c), cpu := this_cpu\<rparr>\<rparr>, [])
            else (EBUSY, (nbcon_state c)\<lparr>req_prio := ctxt_prio ctxt\<rparr>, ?c1, []))"
    using handover_wait_quiet [OF p r, of "spinwait_max_us ctxt"] by simp
  have u: "\<And>e. handover_unrequest e this_cpu ctxt
             ((nbcon_state c)\<lparr>req_prio := ctxt_prio ctxt\<rparr>) (?c1, []) =
           (e, (nbcon_state c)\<lparr>req_prio := NBCON_PRIO_NONE\<rparr>,
            c\<lparr>nbcon_state := (nbcon_state c)\<lparr>req_prio := NBCON_PRIO_NONE\<rparr>\<rparr>, [])"
    using handover_unrequest_quiet [OF r] by simp
  show ?thesis
    by (simp add: nbcon_context_try_acquire_handover_def nbcon_state_try_cmpxchg_def w u)
qed

lemma try_again_quiet:
  assumes "try_again this_cpu ctxt (nbcon_state c) (c, []) = (OK, cur', m')"
  shows "\<exists>st'. m' = (c\<lparr>nbcon_state := st'\<rparr>, []) \<and>
               owned_quietly (ctxt_prio ctxt) this_cpu st'"
proof -
  let ?st = "nbcon_state c"
  let ?c2 = "c\<lparr>nbcon_state := ?st\<lparr>req_prio := NBCON_PRIO_NONE\<rparr>\<rparr>"
  note h1 = hostile_quiet [of this_cpu ctxt c]
  have h2: "nbcon_context_try_acquire_hostile this_cpu ctxt
              (?st\<lparr>req_prio := NBCON_PRIO_NONE\<rparr>) (?c2, []) =
     (if \<not> allow_unsafe_takeover ctxt \<or> ctxt_prio ctxt \<noteq> NBCON_PRIO_PANIC
      then (EPERM, ?st\<lparr>req_prio := NBCON_PRIO_NONE\<rparr>, ?c2, [])
      else (OK, ?st\<lparr>req_prio := NBCON_PRIO_NONE\<rparr>,
            c\<lparr>nbcon_state := ?st
                   \<lparr>req_prio := NBCON_PRIO_NONE, cpu := this_cpu, prio := NBCON_PRIO_PANIC,
                    unsafe := unsafe ?st \<or> unsafe_takeover ?st,
                    unsafe_takeover := unsafe_takeover ?st \<or> unsafe ?st\<rparr>\<rparr>, []))"
    using hostile_quiet [of this_cpu ctxt ?c2] by simp
  show ?thesis
  proof (cases "fst (other_cpu_in_panic this_cpu (c, []))")
    case True
    then show ?thesis
      using assms by (subst (asm) try_again.simps) (simp add: direct_quiet)
  next
    case False
    note hq = handover_quiet [OF False, of ctxt]
    show ?thesis
      using assms False
      by (subst (asm) try_again.simps)
         (auto simp: direct_quiet hq h1 h2 owned_quietly_def split: if_splits)
  qed
qed

lemma try_acquire_quiet:
  assumes "nbcon_context_try_acquire this_cpu ctxt (c, []) = (True, ctxt1, m1)"
  shows "\<exists>st'. m1 = (c\<lparr>nbcon_state := st'\<rparr>, []) \<and>
               owned_quietly (ctxt_prio ctxt) this_cpu st' \<and>
               ctxt_prio ctxt1 = ctxt_prio ctxt \<and> seq ctxt1 = nbcon_seq c"
proof -
  obtain e cur' m' where t: "try_again this_cpu ctxt (nbcon_state c) (c, []) = (e, cur', m')"
    by (cases "try_again this_cpu ctxt (nbcon_state c) (c, [])") auto
  have e: "e = OK"
    using assms t by (auto simp: nbcon_context_try_acquire_def nbcon_state_read_def
        split: if_splits)
  from try_again_quiet [OF t [unfolded e]] obtain st' where
    m: "m' = (c\<lparr>nbcon_state := st'\<rparr>, [])"
    and q: "owned_quietly (ctxt_prio ctxt) this_cpu st'" by blast
  show ?thesis
    using assms t e m q
    by (auto simp: nbcon_context_try_acquire_def nbcon_state_read_def read_panic_cpu_def
        nbcon_seq_read_def)
qed

lemma flush_rounds_not_EPERM:
  "flush_rounds this_cpu cons prb stop_seq wctxt m r \<Longrightarrow> fst r \<noteq> EPERM"
  by (induction rule: flush_rounds.induct) auto

lemma get_default_prio_quiet:
  "snd (nbcon_get_default_prio this_cpu nesting (c, [])) = (c, [])"
  by (simp add: nbcon_get_default_prio_def this_cpu_in_panic_def)

lemma flush_quiet:
  assumes wa: "write_atomic cons = Some callback" and d: "device_only callback"
    and f: "prb_forward prb"
    and b: "unat stop_seq - unat (nbcon_seq c) < fuel"
  shows "\<exists>e w' c'.
           nbcon_atomic_flush_pending_con_inner fuel this_cpu nesting cons prb stop_seq allow
             (c, []) = Some (e, w', c', []) \<and>
           (e = EPERM \<and>
              \<not> fst (nbcon_context_try_acquire this_cpu
                       (flush_ctxt (fst (nbcon_get_default_prio this_cpu nesting (c, []))) allow)
                       (snd (nbcon_get_default_prio this_cpu nesting (c, [])))) \<or>
            fst (nbcon_context_try_acquire this_cpu
                   (flush_ctxt (fst (nbcon_get_default_prio this_cpu nesting (c, []))) allow)
                   (snd (nbcon_get_default_prio this_cpu nesting (c, [])))) \<and>
            prio (nbcon_state c') = NBCON_PRIO_NONE \<and>
            (e = OK \<and> stop_seq \<le> nbcon_seq c' \<or>
             e = ENOENT \<and> nbcon_seq c' < stop_seq \<and>
               prb (nbcon_seq c') (con_extended cons) = None))"
proof -
  obtain p where dp: "nbcon_get_default_prio this_cpu nesting (c, []) = (p, c, [])"
    using get_default_prio_quiet [of this_cpu nesting c]
    by (cases "nbcon_get_default_prio this_cpu nesting (c, [])") auto
  obtain a ctxt1 m1 where
    ta: "nbcon_context_try_acquire this_cpu (flush_ctxt p allow) (c, []) = (a, ctxt1, m1)"
    by (cases "nbcon_context_try_acquire this_cpu (flush_ctxt p allow) (c, [])") auto
  show ?thesis
  proof (cases a)
    case False
    have "snd m1 = []"
      using steps_quiet [OF steps_try_acquire [OF ta]] by simp
    then obtain c1 where "m1 = (c1, [])" by (cases m1) auto
    then show ?thesis
      using False dp ta by (simp add: flush_unfold)
  next
    case True
    have ta': "nbcon_context_try_acquire this_cpu (flush_ctxt p allow) (c, []) = (True, ctxt1, m1)"
      using ta True by simp
    from try_acquire_quiet [OF ta'] obtain st' where
      m1: "m1 = (c\<lparr>nbcon_state := st'\<rparr>, [])"
      and q: "owned_quietly (ctxt_prio (flush_ctxt p allow)) this_cpu st'"
      and pr: "ctxt_prio ctxt1 = ctxt_prio (flush_ctxt p allow)"
      and sq: "seq ctxt1 = nbcon_seq c" by blast
    let ?c1 = "c\<lparr>nbcon_state := st'\<rparr>"
    have q1: "owned_quietly (ctxt_prio (wctxt_ctxt (flush_wctxt ctxt1))) this_cpu (nbcon_state ?c1)"
      using q pr by (simp add: flush_wctxt_def)
    have s1: "seq (wctxt_ctxt (flush_wctxt ctxt1)) = nbcon_seq ?c1"
      using sq by (simp add: flush_wctxt_def)
    have b1: "unat stop_seq - unat (nbcon_seq ?c1) < fuel"
      using b by simp
    from flush_loop_quiet [OF wa d f q1 s1 b1] obtain e w' c' where
      "flush_loop fuel this_cpu cons prb stop_seq (flush_wctxt ctxt1) (?c1, []) =
         Some (e, w', c', [])"
      and "prio (nbcon_state c') = NBCON_PRIO_NONE"
      and "e = OK \<and> stop_seq \<le> nbcon_seq c' \<or>
           e = ENOENT \<and> nbcon_seq c' < stop_seq \<and>
             prb (nbcon_seq c') (con_extended cons) = None"
      by blast
    then show ?thesis
      using True dp ta m1 by (simp add: flush_unfold)
  qed
qed

text \<open>
  C8, as the code has it. \<^verbatim>\<open>__nbcon_atomic_flush_pending_con\<close> returns
  \<open>EPERM\<close> whenever the acquisition fails, for whatever reason, and then it has
  not released anything: the memory is as the failed acquisition left it (first
  conjunct, for every number of rounds). When the acquisition succeeds, the
  function returns \<open>r\<close> after some number of rounds exactly when the rounds of
  \<open>flush_rounds\<close>, started with the context and the memory that the acquisition
  left, end with \<open>r\<close>: success after a release when \<^verbatim>\<open>nbcon_seq\<close> has reached
  \<open>stop_seq\<close>; \<open>EAGAIN\<close> when an emission has lost the console, with no
  release after it; \<open>ENOENT\<close> after a release when an emission found no record
  and \<^verbatim>\<open>nbcon_seq\<close> is still behind \<open>stop_seq\<close> (second conjunct). A value
  that is returned within \<open>fuel\<close> rounds is returned within any larger number
  (third conjunct), and it is \<open>EPERM\<close> exactly when the acquisition failed
  (fourth conjunct). Last, the function does return: when no other CPU
  interferes, the driver keeps ownership and the ring buffer returns the record
  asked for or a later one, it returns within one round more than there are
  sequence numbers from \<^verbatim>\<open>nbcon_seq\<close> up to \<open>stop_seq\<close>; the value is
  \<open>EPERM\<close> after a failed acquisition, and else the console is free again and
  the value is success with \<^verbatim>\<open>nbcon_seq\<close> at \<open>stop_seq\<close> or beyond, or
  \<open>ENOENT\<close> with \<^verbatim>\<open>nbcon_seq\<close> behind \<open>stop_seq\<close> at a record that the
  ring buffer does not have (fifth conjunct).
\<close>

theorem flush_pending_con_outcome:
  "(\<not> fst (nbcon_context_try_acquire this_cpu
             (flush_ctxt (fst (nbcon_get_default_prio this_cpu nesting m)) allow)
             (snd (nbcon_get_default_prio this_cpu nesting m))) \<longrightarrow>
    nbcon_atomic_flush_pending_con_inner fuel this_cpu nesting cons prb stop_seq allow m =
      Some (EPERM,
            flush_wctxt (flush_ctxt (fst (nbcon_get_default_prio this_cpu nesting m)) allow),
            snd (snd (nbcon_context_try_acquire this_cpu
                        (flush_ctxt (fst (nbcon_get_default_prio this_cpu nesting m)) allow)
                        (snd (nbcon_get_default_prio this_cpu nesting m)))))) \<and>
   (fst (nbcon_context_try_acquire this_cpu
           (flush_ctxt (fst (nbcon_get_default_prio this_cpu nesting m)) allow)
           (snd (nbcon_get_default_prio this_cpu nesting m))) \<longrightarrow>
    (\<exists>n. nbcon_atomic_flush_pending_con_inner n this_cpu nesting cons prb stop_seq allow m =
            Some r) =
    flush_rounds this_cpu cons prb stop_seq
      (flush_wctxt (fst (snd (nbcon_context_try_acquire this_cpu
                                (flush_ctxt (fst (nbcon_get_default_prio this_cpu nesting m)) allow)
                                (snd (nbcon_get_default_prio this_cpu nesting m))))))
      (snd (snd (nbcon_context_try_acquire this_cpu
                   (flush_ctxt (fst (nbcon_get_default_prio this_cpu nesting m)) allow)
                   (snd (nbcon_get_default_prio this_cpu nesting m)))))
      r) \<and>
   (nbcon_atomic_flush_pending_con_inner fuel this_cpu nesting cons prb stop_seq allow m =
      Some r \<longrightarrow>
    nbcon_atomic_flush_pending_con_inner (fuel + k) this_cpu nesting cons prb stop_seq allow m =
      Some r) \<and>
   (nbcon_atomic_flush_pending_con_inner fuel this_cpu nesting cons prb stop_seq allow m =
      Some (e, w', m') \<longrightarrow>
    (e = EPERM) =
    (\<not> fst (nbcon_context_try_acquire this_cpu
              (flush_ctxt (fst (nbcon_get_default_prio this_cpu nesting m)) allow)
              (snd (nbcon_get_default_prio this_cpu nesting m))))) \<and>
   (write_atomic cons = Some callback \<and> device_only callback \<and> prb_forward prb \<and>
    unat stop_seq - unat (nbcon_seq c) < fuel \<longrightarrow>
    (\<exists>e w' c'.
       nbcon_atomic_flush_pending_con_inner fuel this_cpu nesting cons prb stop_seq allow
         (c, []) = Some (e, w', c', []) \<and>
       (e = EPERM \<and>
          \<not> fst (nbcon_context_try_acquire this_cpu
                   (flush_ctxt (fst (nbcon_get_default_prio this_cpu nesting (c, []))) allow)
                   (snd (nbcon_get_default_prio this_cpu nesting (c, [])))) \<or>
        fst (nbcon_context_try_acquire this_cpu
               (flush_ctxt (fst (nbcon_get_default_prio this_cpu nesting (c, []))) allow)
               (snd (nbcon_get_default_prio this_cpu nesting (c, [])))) \<and>
        prio (nbcon_state c') = NBCON_PRIO_NONE \<and>
        (e = OK \<and> stop_seq \<le> nbcon_seq c' \<or>
         e = ENOENT \<and> nbcon_seq c' < stop_seq \<and>
           prb (nbcon_seq c') (con_extended cons) = None))))"
proof -
  obtain p m0 where dp: "nbcon_get_default_prio this_cpu nesting m = (p, m0)"
    by (cases "nbcon_get_default_prio this_cpu nesting m") auto
  obtain a ctxt1 m1 where
    ta: "nbcon_context_try_acquire this_cpu (flush_ctxt p allow) m0 = (a, ctxt1, m1)"
    by (cases "nbcon_context_try_acquire this_cpu (flush_ctxt p allow) m0") auto
  have u: "\<And>n. nbcon_atomic_flush_pending_con_inner n this_cpu nesting cons prb stop_seq allow m =
             (if \<not> a then Some (EPERM, flush_wctxt ctxt1, m1)
              else flush_loop n this_cpu cons prb stop_seq (flush_wctxt ctxt1) m1)"
    using dp ta by (simp add: flush_unfold)
  have c1: "\<not> a \<Longrightarrow> ctxt1 = flush_ctxt p allow"
    using ta try_acquire_failed_ctxt [of this_cpu "flush_ctxt p allow" m0 ctxt1 m1] by simp
  have c2: "a \<Longrightarrow>
        (\<exists>n. flush_loop n this_cpu cons prb stop_seq (flush_wctxt ctxt1) m1 = Some r) =
        flush_rounds this_cpu cons prb stop_seq (flush_wctxt ctxt1) m1 r"
    using flush_loop_rounds [of _ this_cpu cons prb stop_seq "flush_wctxt ctxt1" m1 r]
      flush_rounds_loop [of this_cpu cons prb stop_seq "flush_wctxt ctxt1" m1 r]
    by blast
  have c3: "flush_loop fuel this_cpu cons prb stop_seq (flush_wctxt ctxt1) m1 = Some r \<Longrightarrow>
            flush_loop (fuel + k) this_cpu cons prb stop_seq (flush_wctxt ctxt1) m1 = Some r"
    by (rule flush_loop_more_fuel)
  have c4: "flush_loop fuel this_cpu cons prb stop_seq (flush_wctxt ctxt1) m1 = Some (e, w', m') \<Longrightarrow>
            e \<noteq> EPERM"
    using flush_rounds_not_EPERM [OF flush_loop_rounds,
        of fuel this_cpu cons prb stop_seq "flush_wctxt ctxt1" m1 "(e, w', m')"]
    by simp
  have c5: "write_atomic cons = Some callback \<and> device_only callback \<and> prb_forward prb \<and>
    unat stop_seq - unat (nbcon_seq c) < fuel \<longrightarrow>
    (\<exists>e w' c'.
       nbcon_atomic_flush_pending_con_inner fuel this_cpu nesting cons prb stop_seq allow
         (c, []) = Some (e, w', c', []) \<and>
       (e = EPERM \<and>
          \<not> fst (nbcon_context_try_acquire this_cpu
                   (flush_ctxt (fst (nbcon_get_default_prio this_cpu nesting (c, []))) allow)
                   (snd (nbcon_get_default_prio this_cpu nesting (c, [])))) \<or>
        fst (nbcon_context_try_acquire this_cpu
               (flush_ctxt (fst (nbcon_get_default_prio this_cpu nesting (c, []))) allow)
               (snd (nbcon_get_default_prio this_cpu nesting (c, [])))) \<and>
        prio (nbcon_state c') = NBCON_PRIO_NONE \<and>
        (e = OK \<and> stop_seq \<le> nbcon_seq c' \<or>
         e = ENOENT \<and> nbcon_seq c' < stop_seq \<and>
           prb (nbcon_seq c') (con_extended cons) = None)))"
    using flush_quiet [of cons callback prb stop_seq c fuel this_cpu nesting allow] by blast
  show ?thesis
    using c1 c2 c3 c4 c5 unfolding u dp ta fst_conv snd_conv by (cases a) simp_all
qed

lemma handover_wait_locked:
  "panic_cpu c = None \<Longrightarrow> nbcon_state c = st \<Longrightarrow> req_prio st = ctxt_prio ctxt \<Longrightarrow>
   prio st \<noteq> NBCON_PRIO_NONE \<Longrightarrow>
   handover_wait t this_cpu ctxt st (c, []) = (EBUSY, st, c, [])"
proof (induction t)
  case 0
  then show ?case
    by (subst handover_wait.simps)
       (simp add: nbcon_context_try_acquire_requested_def other_cpu_in_panic_def
          nbcon_waiter_matches_def nbcon_state_read_def)
next
  case (Suc t)
  then show ?case
    by (subst handover_wait.simps)
       (simp add: nbcon_context_try_acquire_requested_def other_cpu_in_panic_def
          nbcon_waiter_matches_def nbcon_state_read_def)
qed

lemmas flush_defs =
  nbcon_atomic_flush_pending_con_inner_def nbcon_get_default_prio_def handover_unrequest.simps

text \<open>
  Three runs on the ring buffer with the records 10, 11 and 12, by a NORMAL
  context on CPU 0. Up to 13: the three lines reach the device in order,
  \<^verbatim>\<open>nbcon_seq\<close> ends at 13, the console is released, the value is \<open>OK\<close>;
  the rounds of \<open>flush_rounds\<close> end with the same result, and the bound on the
  number of rounds is four. Up to 14: the same, but record 13 is not there, and
  the value is \<open>ENOENT\<close>. Up to 13 while a PANIC context on CPU 3 takes the
  console over during the first record: \<open>EAGAIN\<close>, and the console stays with
  its new owner.
\<close>

theorem flush_pending_con_outcome_witness:
  "map_option (\<lambda>(e, w, m). (e, device (fst m), nbcon_seq (fst m), nbcon_state (fst m)))
     (nbcon_atomic_flush_pending_con_inner (Suc (Suc (Suc (Suc 0)))) 0 0 example_ops example_prb
        13 False (example_console (example_state NBCON_PRIO_NONE NBCON_PRIO_NONE False 0), [])) =
   Some (OK, [[Record_text ''line''], [Record_text ''line''], [Record_text ''line'']], 13,
         example_state NBCON_PRIO_NONE NBCON_PRIO_NONE False 0) \<and>
   map_option (\<lambda>(e, w, m). (e, device (fst m), nbcon_seq (fst m), nbcon_state (fst m)))
     (nbcon_atomic_flush_pending_con_inner (Suc (Suc (Suc (Suc 0)))) 0 0 example_ops example_prb
        14 False (example_console (example_state NBCON_PRIO_NONE NBCON_PRIO_NONE False 0), [])) =
   Some (ENOENT, [[Record_text ''line''], [Record_text ''line''], [Record_text ''line'']], 13,
         example_state NBCON_PRIO_NONE NBCON_PRIO_NONE False 0) \<and>
   map_option (\<lambda>(e, w, m). (e, device (fst m), nbcon_seq (fst m), nbcon_state (fst m)))
     (nbcon_atomic_flush_pending_con_inner (Suc (Suc (Suc (Suc 0)))) 0 0 example_ops example_prb
        13 False
        (example_console (example_state NBCON_PRIO_NONE NBCON_PRIO_NONE False 0),
         [id, id, id, id, id, id, id, id, id, id, id, id, id, id, id,
          nbcon_state_update
            (\<lambda>s. s\<lparr>prio := NBCON_PRIO_PANIC, cpu := 3, unsafe_takeover := True\<rparr>)])) =
   Some (EAGAIN, [[Record_text ''line'']], 10,
         \<lparr>prio = NBCON_PRIO_PANIC, req_prio = NBCON_PRIO_NONE, unsafe = False,
          unsafe_takeover = True, cpu = 3\<rparr>) \<and>
   (\<exists>r. fst r = OK \<and>
        flush_rounds 0 example_ops example_prb 13
          (flush_wctxt (fst (snd (nbcon_context_try_acquire 0
             (flush_ctxt (fst (nbcon_get_default_prio 0 0
                (example_console (example_state NBCON_PRIO_NONE NBCON_PRIO_NONE False 0), [])))
                False)
             (snd (nbcon_get_default_prio 0 0
                (example_console (example_state NBCON_PRIO_NONE NBCON_PRIO_NONE False 0), [])))))))
          (snd (snd (nbcon_context_try_acquire 0
             (flush_ctxt (fst (nbcon_get_default_prio 0 0
                (example_console (example_state NBCON_PRIO_NONE NBCON_PRIO_NONE False 0), [])))
                False)
             (snd (nbcon_get_default_prio 0 0
                (example_console (example_state NBCON_PRIO_NONE NBCON_PRIO_NONE False 0), []))))))
          r) \<and>
   (\<exists>e w' c'.
      nbcon_atomic_flush_pending_con_inner (Suc (Suc (Suc (Suc 0)))) 0 0 example_ops example_prb
        13 False (example_console (example_state NBCON_PRIO_NONE NBCON_PRIO_NONE False 0), []) =
      Some (e, w', c', []))"
proof -
  let ?c = "example_console (example_state NBCON_PRIO_NONE NBCON_PRIO_NONE False 0)"
  let ?n = "Suc (Suc (Suc (Suc 0)))"
  let ?acq = "nbcon_context_try_acquire 0
                (flush_ctxt (fst (nbcon_get_default_prio 0 0 (?c, []))) False)
                (snd (nbcon_get_default_prio 0 0 (?c, [])))"
  let ?view = "\<lambda>(e, w, m). (e, device (fst m), nbcon_seq (fst m), nbcon_state (fst m))"
  have run1: "map_option ?view
     (nbcon_atomic_flush_pending_con_inner ?n 0 0 example_ops example_prb 13 False (?c, [])) =
   Some (OK, [[Record_text ''line''], [Record_text ''line''], [Record_text ''line'']], 13,
         example_state NBCON_PRIO_NONE NBCON_PRIO_NONE False 0)"
    by (simp add: run_defs flush_defs example_defs)
  have run2: "map_option ?view
     (nbcon_atomic_flush_pending_con_inner ?n 0 0 example_ops example_prb 14 False (?c, [])) =
   Some (ENOENT, [[Record_text ''line''], [Record_text ''line''], [Record_text ''line'']], 13,
         example_state NBCON_PRIO_NONE NBCON_PRIO_NONE False 0)"
    by (simp add: run_defs flush_defs example_defs)
  have run3: "map_option ?view
     (nbcon_atomic_flush_pending_con_inner ?n 0 0 example_ops example_prb 13 False
        (?c,
         [id, id, id, id, id, id, id, id, id, id, id, id, id, id, id,
          nbcon_state_update
            (\<lambda>s. s\<lparr>prio := NBCON_PRIO_PANIC, cpu := 3, unsafe_takeover := True\<rparr>)])) =
   Some (EAGAIN, [[Record_text ''line'']], 10,
         \<lparr>prio = NBCON_PRIO_PANIC, req_prio = NBCON_PRIO_NONE, unsafe = False,
          unsafe_takeover = True, cpu = 3\<rparr>)"
    by (simp add: run_defs flush_defs example_defs)
  have acq: "fst ?acq"
    by (simp add: run_defs flush_defs example_defs flush_ctxt_def)
  obtain r where r: "nbcon_atomic_flush_pending_con_inner ?n 0 0 example_ops example_prb 13 False
                       (?c, []) = Some r" and ok: "fst r = OK"
    using run1 by (auto simp: map_option_case split: option.splits)
  note t = flush_pending_con_outcome
    [where this_cpu = 0 and nesting = 0 and m = "(?c, [])" and allow = False
       and cons = example_ops and prb = example_prb and stop_seq = 13 and r = r
       and fuel = ?n and c = ?c and callback = record_output]
  have "(\<exists>n. nbcon_atomic_flush_pending_con_inner n 0 0 example_ops example_prb 13 False
               (?c, []) = Some r) =
        flush_rounds 0 example_ops example_prb 13 (flush_wctxt (fst (snd ?acq)))
          (snd (snd ?acq)) r"
    using t acq by blast
  then have fr: "flush_rounds 0 example_ops example_prb 13 (flush_wctxt (fst (snd ?acq)))
          (snd (snd ?acq)) r"
    using r by blast
  have h: "write_atomic example_ops = Some record_output \<and> device_only record_output \<and>
           prb_forward example_prb \<and> unat (13 :: 64 word) - unat (nbcon_seq ?c) < ?n"
    by (simp add: example_ops_def device_only_record_output example_prb_forward
        example_console_def)
  have tot: "\<exists>e w' c'.
      nbcon_atomic_flush_pending_con_inner ?n 0 0 example_ops example_prb 13 False (?c, []) =
      Some (e, w', c', [])"
    using t h by blast
  from run1 run2 run3 fr ok tot show ?thesis by blast
qed

text \<open>
  Against C8 as stated: a NORMAL context on CPU 0 holds the console in an unsafe
  section and does not leave it. An EMERGENCY context on CPU 1 flushes: the
  direct acquire is busy, the handover request times out after its 2000 polls
  and is removed, a hostile takeover is not allowed. The acquisition has failed
  because another owner holds the console, and the value is \<open>EPERM\<close>, not
  \<open>EAGAIN\<close>.
\<close>

theorem flush_pending_con_outcome_counterexample:
  "nbcon_atomic_flush_pending_con_inner 1 1 1 example_ops example_prb 13 False
     (example_console (example_state NBCON_PRIO_NORMAL NBCON_PRIO_NONE True 0), []) =
   Some (EPERM, flush_wctxt (flush_ctxt NBCON_PRIO_EMERGENCY False),
         example_console (example_state NBCON_PRIO_NORMAL NBCON_PRIO_NONE True 0), [])"
  by (simp add: run_defs flush_defs example_defs handover_wait_locked flush_ctxt_def
      flush_wctxt_def)

end
